(* ===== verification/Prelude.thy ===== *)
theory Prelude
  imports Complex_Main "HOL-Library.Word"
begin

text \<open>
  Shared material of the development: the machine types of the C++ sources, C arithmetic that
  differs from HOL arithmetic, big-endian words, and generic facts on folds, lists and counting
  that several components use.

  \<^item> \<open>i32\<close>/\<open>u32\<close> stand for \<^verbatim>\<open>int\<close> and \<^verbatim>\<open>uint32_t\<close> values whose bits matter
    (addresses, masks, wires); \<open>int\<close> stands for an \<^verbatim>\<open>int\<close> used as a plain number
    (counters, loop indices), whose overflow would be undefined behaviour in C++.
  \<^item> \<open>ub\<close> marks an execution that C++ leaves undefined.
\<close>

unbundle bit_operations_syntax

type_synonym byte = "8 word"
type_synonym u32 = "32 word"
type_synonym i32 = "32 word"
type_synonym u64 = "64 word"

named_theorems model_defs \<open>definitions of the small accessors and constants of the model\<close>
named_theorems step_defs \<open>definitions of the operations that change state\<close>

section \<open>C arithmetic\<close>

definition c_rem :: "int \<Rightarrow> int \<Rightarrow> int" where
  "c_rem a b = sgn a * (\<bar>a\<bar> mod \<bar>b\<bar>)"

lemma c_rem_nonneg: "0 \<le> a \<Longrightarrow> 0 < b \<Longrightarrow> c_rem a b = a mod b"
  by (cases "a = 0") (auto simp: c_rem_def)

lemma sint_small:
  fixes w :: i32
  assumes "unat w < 2 ^ 31"
  shows "sint w = int (unat w)"
proof -
  have "uint w < 2 ^ 31" using assms by (metis of_nat_less_numeral_power_cancel_iff uint_nat)
  then have "signed_take_bit 31 (uint w) = uint w"
    using uint_ge_0[of w] by (intro signed_take_bit_int_eq_self) linarith+
  then show ?thesis by (simp add: sint_uint)
qed

section \<open>Big-endian 32-bit words\<close>

text \<open>
  \<^verbatim>\<open>ntohl\<close> applied to four bytes read into a \<^verbatim>\<open>uint32_t\<close>: whatever the byte order
  of the host, the first byte of the file is the most significant one.
\<close>

definition be32 :: "byte \<Rightarrow> byte \<Rightarrow> byte \<Rightarrow> byte \<Rightarrow> u32" where
  "be32 b0 b1 b2 b3 =
     push_bit 24 (ucast b0) OR push_bit 16 (ucast b1) OR push_bit 8 (ucast b2) OR ucast b3"

definition be32_bytes :: "u32 \<Rightarrow> byte list" where
  "be32_bytes w = [ucast (drop_bit 24 w), ucast (drop_bit 16 w), ucast (drop_bit 8 w), ucast w]"

definition word_at :: "byte list \<Rightarrow> nat \<Rightarrow> u32" where
  "word_at bs p = be32 (bs ! p) (bs ! (p + 1)) (bs ! (p + 2)) (bs ! (p + 3))"

lemma be32_of_bytes:
  "be32 (ucast (drop_bit 24 w)) (ucast (drop_bit 16 w)) (ucast (drop_bit 8 w)) (ucast w) = w"
proof (rule bit_word_eqI)
  fix n
  assume n: "n < LENGTH(32)"
  consider "n < 8" | "8 \<le> n" "n < 16" | "16 \<le> n" "n < 24" | "24 \<le> n"
    by linarith
  then show "bit (be32 (ucast (drop_bit 24 w)) (ucast (drop_bit 16 w)) (ucast (drop_bit 8 w)) (ucast w)) n
      = bit w n"
    using n by cases (auto simp: be32_def bit_or_iff bit_push_bit_iff bit_ucast_iff bit_drop_bit_eq)
qed

lemma length_be32_bytes [simp]: "length (be32_bytes w) = 4"
  by (simp add: be32_bytes_def)

lemma word_at_append: "p = length xs \<Longrightarrow> word_at (xs @ be32_bytes w @ ys) p = w"
  by (simp add: word_at_def be32_bytes_def nth_append be32_of_bytes)

lemma length_concat_be32 [simp]: "length (concat (map be32_bytes ws)) = 4 * length ws"
  by (induction ws) auto

lemma word_at_concat:
  assumes "k < length ws"
  shows "word_at (hdr @ concat (map be32_bytes ws)) (length hdr + 4 * k) = ws ! k"
proof -
  let ?enc = "\<lambda>vs. concat (map be32_bytes vs)"
  have "?enc ws = ?enc (take k ws @ ws ! k # drop (Suc k) ws)"
    using assms by (simp flip: id_take_nth_drop)
  then have "hdr @ ?enc ws = (hdr @ ?enc (take k ws)) @ be32_bytes (ws ! k) @ ?enc (drop (Suc k) ws)"
    by simp
  moreover have "length hdr + 4 * k = length (hdr @ ?enc (take k ws))"
    using assms by simp
  ultimately show ?thesis by (simp only: word_at_append)
qed

section \<open>Counting indices\<close>

lemma card_filter_update:
  fixes P Q :: "nat \<Rightarrow> bool"
  assumes "i < n" and "\<not> P i" and "Q i" and "\<And>j. j \<noteq> i \<Longrightarrow> Q j = P j"
  shows "card {j. j < n \<and> Q j} = Suc (card {j. j < n \<and> P j})"
proof -
  have "{j. j < n \<and> Q j} = insert i {j. j < n \<and> P j}"
    using assms by (auto, metis)
  moreover have "i \<notin> {j. j < n \<and> P j}" using assms by simp
  ultimately show ?thesis by simp
qed

lemma card_less_eq_all: "card {j. j < n \<and> P j} = n \<longleftrightarrow> (\<forall>j<n. P j)"
proof
  assume "card {j. j < n \<and> P j} = n"
  moreover have "{j. j < n \<and> P j} \<subseteq> {..<n}" by auto
  ultimately have "{j. j < n \<and> P j} = {..<n}"
    by (metis card_lessThan card_subset_eq finite_lessThan)
  then show "\<forall>j<n. P j" by auto
next
  assume "\<forall>j<n. P j"
  then have "{j. j < n \<and> P j} = {..<n}" by auto
  then show "card {j. j < n \<and> P j} = n" by simp
qed

section \<open>Transition systems and invariants\<close>

text \<open>
  The components with several threads are transition systems: an initial-state predicate and a step
  relation. The locale is the contract a component discharges once to get its invariant in every
  reachable state.
\<close>

inductive reach :: "('s \<Rightarrow> bool) \<Rightarrow> ('s \<Rightarrow> 's \<Rightarrow> bool) \<Rightarrow> 's \<Rightarrow> bool" for init step where
  reach_init: "init s \<Longrightarrow> reach init step s"
| reach_step: "reach init step s \<Longrightarrow> step s t \<Longrightarrow> reach init step t"

locale transition_invariant =
  fixes init :: "'s \<Rightarrow> bool" and step :: "'s \<Rightarrow> 's \<Rightarrow> bool" and inv :: "'s \<Rightarrow> bool"
  assumes init_inv: "init s \<Longrightarrow> inv s"
    and step_inv: "step s t \<Longrightarrow> inv s \<Longrightarrow> inv t"
begin

lemma reach_inv: "reach init step s \<Longrightarrow> inv s"
  by (induction rule: reach.induct) (blast intro: init_inv step_inv)+

lemma steps_inv: "(step)\<^sup>*\<^sup>* s t \<Longrightarrow> inv s \<Longrightarrow> inv t"
  by (induction rule: rtranclp_induct) (blast intro: step_inv)+

end

end
