(* ===== verification/Moesi_Types.thy ===== *)
theory Moesi_Types
  imports Prelude
begin

text \<open>
  The constants and the small types that the modules of \<^verbatim>\<open>src/assignment_1\<close> share:
  \<^verbatim>\<open>utils.h\<close>, the enumerations of \<^verbatim>\<open>Memory.h\<close> and \<^verbatim>\<open>Bus.h\<close>, the request that travels
  on the bus and the state of a cache line.
\<close>

definition MEM_SIZE :: int where "MEM_SIZE = 512 * 1024"
definition CACHE_SIZE :: int where "CACHE_SIZE = 8 * 1024"
definition CACHE_SET_SIZE :: int where "CACHE_SET_SIZE = 8"
definition CACHE_SETS_NUMBER :: int where "CACHE_SETS_NUMBER = CACHE_SIZE div CACHE_SET_SIZE"
definition MAX_COUNTER :: int where "MAX_COUNTER = 2048 + 1"

definition DRAM_IDENTIFIER :: i32 where "DRAM_IDENTIFIER = 0xffffffff"
definition CACHETAG_MASK :: i32 where "CACHETAG_MASK = NOT 0xFFF"
definition CACHEINDEX_MASK :: i32 where "CACHEINDEX_MASK = 0xFE0"
definition CACHETAG_SHIFT :: nat where "CACHETAG_SHIFT = 12"
definition CACHEINDEX_SHIFT :: nat where "CACHEINDEX_SHIFT = 5"

text \<open>\<^verbatim>\<open>Memory::Function\<close> and the equal enumeration \<^verbatim>\<open>Function\<close> of \<^verbatim>\<open>Bus.h\<close>.\<close>

datatype mem_function =
  FUNC_NOTHING | FUNC_READ | FUNC_WRITE | FUNC_INVALIDATE | FUNC_RESPONSE | FUNC_REQUESTED

fun func_code :: "mem_function \<Rightarrow> i32" where
  "func_code FUNC_NOTHING = 0"
| "func_code FUNC_READ = 1"
| "func_code FUNC_WRITE = 2"
| "func_code FUNC_INVALIDATE = 3"
| "func_code FUNC_RESPONSE = 4"
| "func_code FUNC_REQUESTED = 5"

datatype ret_code = RET_READ_DONE | RET_WRITE_DONE

text \<open>The values of \<^verbatim>\<open>cache_record_t::state\<close>, the \<^verbatim>\<open>CACHEL_*\<close> macros.\<close>

datatype cl_state =
  CACHEL_INVALID | CACHEL_MODIFIED | CACHEL_OWNED | CACHEL_EXCLUSIVE | CACHEL_SHARED
  | CACHEL_REQUESTED

text \<open>\<^verbatim>\<open>struct request\<close>; \<^verbatim>\<open>sourceid\<close> is never assigned nor read, and left out.\<close>

record request =
  r_id :: i32
  r_addr :: i32
  r_func :: i32

lemma func_code_inject [simp]: "func_code f = func_code g \<longleftrightarrow> f = g"
  by (cases f; cases g) auto

lemmas cache_consts [model_defs] =
  CACHE_SIZE_def CACHE_SET_SIZE_def MAX_COUNTER_def CACHETAG_MASK_def CACHEINDEX_MASK_def
  CACHETAG_SHIFT_def CACHEINDEX_SHIFT_def

end
