(* ===== verification/Trace_File.thy ===== *)
theory Trace_File
  imports Prelude
begin

text \<open>
  The class \<^verbatim>\<open>TraceFile\<close> of \<^verbatim>\<open>lib/psa.h\<close> and \<^verbatim>\<open>lib/psa.cpp\<close>, and
  \<^verbatim>\<open>init_tracefile\<close>. A trace file is the signature \<^verbatim>\<open>2TRF\<close>, a big-endian CPU count and
  big-endian words, dealt out to the CPUs in turn; the two low bits of a word are the kind of the
  entry, the rest is its address. The file system is a parameter (\<open>fs\<close>, from names to contents), an
  input stream is the content of its file, and a stream position is an \<open>int\<close>. Reads happen only
  after a seek to a position whose four bytes are in the file, so the stream never fails after the
  constructor. The constructor does not initialise \<^verbatim>\<open>m_num_finished\<close>: its first value is the
  parameter \<open>garbage\<close>. Failure of the vector allocation is not modelled.
\<close>

section \<open>Data\<close>

datatype entry_type = ENTRY_TYPE_NOP | ENTRY_TYPE_READ | ENTRY_TYPE_WRITE | ENTRY_TYPE_END

record entry =
  e_type :: entry_type
  e_addr :: u32

record trace_file =
  m_input :: "byte list"
  m_positions :: "int list"
  m_num_finished :: u32
  m_endstream :: int

datatype trace_error =
  Usage | Unable_To_Open | Invalid_Signature | Unable_To_Read | Unexpected_End

definition entry_type_of :: "u32 \<Rightarrow> entry_type" where
  "entry_type_of w =
     (if w = 0 then ENTRY_TYPE_NOP else if w = 1 then ENTRY_TYPE_READ
      else if w = 2 then ENTRY_TYPE_WRITE else ENTRY_TYPE_END)"

definition trf_signature :: "byte list" where
  "trf_signature = [0x32, 0x54, 0x52, 0x46]"

section \<open>Operations\<close>

definition TraceFile_open :: "u32 \<Rightarrow> byte list option \<Rightarrow> trace_error + trace_file" where
  "TraceFile_open garbage file =
     (case file of
        None \<Rightarrow> Inl Unable_To_Open
      | Some bs \<Rightarrow>
          if length bs < 4 \<or> take 4 bs \<noteq> trf_signature then Inl Invalid_Signature
          else if length bs < 8 then Inl Unable_To_Read
          else
            let procs_count = word_at bs 4;
                start = 8;
                endpos = int (length bs)
            in if start + uint (procs_count * 4 + 3) \<ge> endpos then Inl Unexpected_End
               else Inr \<lparr>m_input = bs,
                         m_positions =
                           map (\<lambda>i. start + uint (of_nat i * 4 :: u32)) [0 ..< unat procs_count],
                         m_num_finished = garbage,
                         m_endstream = endpos\<rparr>)"

definition TraceFile_close :: "trace_file \<Rightarrow> trace_file" where
  "TraceFile_close tf = tf\<lparr>m_input := [], m_positions := []\<rparr>"

definition get_proc_count :: "trace_file \<Rightarrow> u32" where
  "get_proc_count tf = of_nat (length (m_positions tf))"

definition TraceFile_next :: "trace_file \<Rightarrow> u32 \<Rightarrow> entry \<Rightarrow> bool \<times> trace_file \<times> entry" where
  "TraceFile_next tf pid e =
     (let cpucount = get_proc_count tf; i = unat pid in
      if pid \<ge> cpucount then (False, tf, e)
      else if m_positions tf ! i \<noteq> 0 then
        if m_positions tf ! i > m_endstream tf - 4 then
          (True,
           tf\<lparr>m_positions := (m_positions tf)[i := 0], m_num_finished := m_num_finished tf + 1\<rparr>,
           e\<lparr>e_type := ENTRY_TYPE_NOP\<rparr>)
        else
          let data = word_at (m_input tf) (nat (m_positions tf ! i));
              tf' = tf\<lparr>m_positions :=
                        (m_positions tf)[i := m_positions tf ! i + int (unat cpucount) * 4]\<rparr>;
              e' = e\<lparr>e_addr := data AND NOT 3, e_type := entry_type_of (data AND 3)\<rparr>
          in if e_type e' = ENTRY_TYPE_END then
               (True,
                tf'\<lparr>m_positions := (m_positions tf')[i := 0],
                    m_num_finished := m_num_finished tf' + 1\<rparr>,
                e'\<lparr>e_type := ENTRY_TYPE_NOP\<rparr>)
             else (True, tf', e')
      else (True, tf, e\<lparr>e_addr := 0, e_type := ENTRY_TYPE_NOP\<rparr>))"

definition TraceFile_eof :: "trace_file \<Rightarrow> bool" where
  "TraceFile_eof tf \<longleftrightarrow> unat (m_num_finished tf) = length (m_positions tf)"

text \<open>
  \<^verbatim>\<open>init_tracefile(&argc, &argv)\<close>: the result is the new \<^verbatim>\<open>argc\<close>, the new \<^verbatim>\<open>argv\<close>
  (without the terminating null pointer), the trace file and the value of \<^verbatim>\<open>num_cpus\<close>.
\<close>

definition init_tracefile ::
    "(string \<Rightarrow> byte list option) \<Rightarrow> u32 \<Rightarrow> int \<Rightarrow> string list
      \<Rightarrow> trace_error + int \<times> string list \<times> trace_file \<times> u32" where
  "init_tracefile fs garbage argc argv =
     (if argc < 2 then Inl Usage
      else case TraceFile_open garbage (fs (argv ! 1)) of
        Inl err \<Rightarrow> Inl err
      | Inr tf \<Rightarrow> Inr (argc - 1, drop 2 argv, tf, get_proc_count tf))"

section \<open>What each CPU should see\<close>

text \<open>The \<open>k\<close>-th word of CPU \<open>i\<close> in a file for \<open>p\<close> CPUs, if the file holds it.\<close>

definition stream_word :: "byte list \<Rightarrow> nat \<Rightarrow> nat \<Rightarrow> nat \<Rightarrow> u32 option" where
  "stream_word bs p i k =
     (let pos = 8 + 4 * i + 4 * p * k in
      if pos + 4 \<le> length bs then Some (word_at bs pos) else None)"

definition live_word :: "byte list \<Rightarrow> nat \<Rightarrow> nat \<Rightarrow> nat \<Rightarrow> bool" where
  "live_word bs p i k =
     (case stream_word bs p i k of None \<Rightarrow> False | Some w \<Rightarrow> entry_type_of (w AND 3) \<noteq> ENTRY_TYPE_END)"

definition live_upto :: "byte list \<Rightarrow> nat \<Rightarrow> nat \<Rightarrow> nat \<Rightarrow> bool" where
  "live_upto bs p i n \<longleftrightarrow> list_all (live_word bs p i) [0 ..< n]"

definition trace_spec :: "byte list \<Rightarrow> nat \<Rightarrow> nat \<Rightarrow> nat \<Rightarrow> entry option" where
  "trace_spec bs p i k =
     (if live_upto bs p i (Suc k)
      then map_option (\<lambda>w. \<lparr>e_type = entry_type_of (w AND 3), e_addr = w AND NOT 3\<rparr>)
             (stream_word bs p i k)
      else None)"

lemma live_upto_0 [simp]: "live_upto bs p i 0"
  by (simp add: live_upto_def)

lemma live_upto_Suc: "live_upto bs p i (Suc n) \<longleftrightarrow> live_upto bs p i n \<and> live_word bs p i n"
  by (simp add: live_upto_def)

section \<open>The reader's invariant\<close>

text \<open>
  \<open>h i\<close> is the number of calls \<^verbatim>\<open>next(i, e)\<close> made so far: while only live words were read,
  the position of CPU \<open>i\<close> is that of its next word, afterwards it is 0 and the CPU is counted in
  \<^verbatim>\<open>m_num_finished\<close>.
\<close>

definition trace_inv :: "byte list \<Rightarrow> nat \<Rightarrow> u32 \<Rightarrow> (nat \<Rightarrow> nat) \<Rightarrow> trace_file \<Rightarrow> bool" where
  "trace_inv bs p n0 h tf \<longleftrightarrow>
     m_input tf = bs \<and> m_endstream tf = int (length bs) \<and> length (m_positions tf) = p \<and>
     p < 2 ^ 32 \<and>
     (\<forall>i<p. m_positions tf ! i =
        (if live_upto bs p i (h i) then int (8 + 4 * i + 4 * p * h i) else 0)) \<and>
     m_num_finished tf = n0 + of_nat (card {i. i < p \<and> \<not> live_upto bs p i (h i)})"

lemma uint_word_offset:
  assumes "i < 2 ^ 30"
  shows "uint (of_nat i * 4 :: u32) = int (4 * i)"
proof -
  have "of_nat i * 4 = (of_nat (4 * i) :: u32)" by simp
  moreover have "take_bit LENGTH(32) (4 * i) = 4 * i"
    using assms by (intro take_bit_nat_eq_self) simp
  ultimately show ?thesis by (simp only: unsigned_of_nat)
qed

lemma TraceFile_open_inv:
  assumes "TraceFile_open n0 (Some bs) = Inr tf" and "unat (word_at bs 4) < 2 ^ 30"
  shows "trace_inv bs (unat (word_at bs 4)) n0 (\<lambda>_. 0) tf"
proof -
  have small: "uint (of_nat i * 4 :: u32) = int (4 * i)" if "i < unat (word_at bs 4)" for i
    using that assms(2) by (intro uint_word_offset) simp
  have "unat (word_at bs 4) < 2 ^ 32" using assms(2) by simp
  then show ?thesis
    using assms(1) by (auto simp: TraceFile_open_def trace_inv_def Let_def small split: if_splits)
qed

lemma beyond_end_iff:
  "m = int x \<Longrightarrow> m > int n - 4 \<longleftrightarrow> (if x + 4 \<le> n then Some w else None) = None"
  by auto

lemma stream_word_in_file:
  "m_positions tf ! i = int (8 + 4 * i + 4 * p * n) \<Longrightarrow>
   m_positions tf ! i > int (length bs) - 4 \<longleftrightarrow> stream_word bs p i n = None"
  unfolding stream_word_def Let_def by (rule beyond_end_iff)

lemma card_finish:
  assumes "pid < p" and "live_upto bs p pid (h pid)" and "\<not> live_word bs p pid (h pid)"
  shows "card {i. i < p \<and> \<not> live_upto bs p i ((h(pid := Suc (h pid))) i)} =
    Suc (card {i. i < p \<and> \<not> live_upto bs p i (h i)})"
  using assms by (intro card_filter_update[of pid]) (auto simp: live_upto_Suc)

lemma card_keep:
  assumes "live_upto bs p pid (h pid) \<longrightarrow> live_word bs p pid (h pid)"
  shows "{i. i < p \<and> \<not> live_upto bs p i ((h(pid := Suc (h pid))) i)} =
    {i. i < p \<and> \<not> live_upto bs p i (h i)}"
  using assms by (auto simp: live_upto_Suc split: if_splits)

text \<open>One call of \<^verbatim>\<open>next\<close> keeps the invariant and delivers the entry of the specification.\<close>

lemma TraceFile_next_finished:
  assumes "trace_inv bs p n0 h tf" and "unat pid < p" and "\<not> live_upto bs p (unat pid) (h (unat pid))"
  shows "TraceFile_next tf pid e = (True, tf, e\<lparr>e_addr := 0, e_type := ENTRY_TYPE_NOP\<rparr>)"
  using assms
  by (auto simp: TraceFile_next_def Let_def trace_inv_def get_proc_count_def word_le_nat_alt
      unsigned_of_nat take_bit_nat_eq_self)

lemma TraceFile_next_live:
  assumes inv: "trace_inv bs p n0 h tf" and pid: "unat pid < p"
    and live: "live_upto bs p (unat pid) (h (unat pid))"
  shows "TraceFile_next tf pid e =
    (case stream_word bs p (unat pid) (h (unat pid)) of
       None \<Rightarrow> (True, tf\<lparr>m_positions := (m_positions tf)[unat pid := 0],
                        m_num_finished := m_num_finished tf + 1\<rparr>, e\<lparr>e_type := ENTRY_TYPE_NOP\<rparr>)
     | Some w \<Rightarrow>
         if entry_type_of (w AND 3) = ENTRY_TYPE_END
         then (True, tf\<lparr>m_positions := (m_positions tf)[unat pid := 0],
                        m_num_finished := m_num_finished tf + 1\<rparr>,
               e\<lparr>e_addr := w AND NOT 3, e_type := ENTRY_TYPE_NOP\<rparr>)
         else (True, tf\<lparr>m_positions := (m_positions tf)
                          [unat pid := int (8 + 4 * unat pid + 4 * p * Suc (h (unat pid)))]\<rparr>,
               e\<lparr>e_addr := w AND NOT 3, e_type := entry_type_of (w AND 3)\<rparr>))"
proof -
  let ?i = "unat pid"
  from inv pid live have pos: "m_positions tf ! ?i = int (8 + 4 * ?i + 4 * p * h ?i)"
    and bs: "m_input tf = bs" "m_endstream tf = int (length bs)" and len: "length (m_positions tf) = p"
    and p: "unat (get_proc_count tf) = p"
    by (auto simp: trace_inv_def get_proc_count_def unsigned_of_nat take_bit_nat_eq_self)
  from pid p have lt: "\<not> get_proc_count tf \<le> pid" by (simp add: word_le_nat_alt)
  define q where "q = int (8 + 4 * ?i + 4 * p * Suc (h ?i))"
  have next_pos: "m_positions tf ! ?i + int p * 4 = q"
    unfolding pos q_def by (simp add: algebra_simps)
  have w: "stream_word bs p ?i (h ?i) = Some w \<Longrightarrow> word_at bs (nat (m_positions tf ! ?i)) = w" for w
    unfolding pos nat_int by (simp add: stream_word_def Let_def split: if_splits)
  have nz: "m_positions tf ! ?i \<noteq> 0" unfolding pos by (simp only: of_nat_eq_0_iff)
  show ?thesis
    unfolding q_def[symmetric]
    using lt nz stream_word_in_file[OF pos, of bs] w next_pos
    by (cases "stream_word bs p ?i (h ?i)") (auto simp: TraceFile_next_def Let_def p bs)
qed

lemma TraceFile_next_inv:
  assumes inv: "trace_inv bs p n0 h tf" and pid: "unat pid < p"
    and nxt: "TraceFile_next tf pid e = (ok, tf', e')"
  shows "trace_inv bs p n0 (h(unat pid := Suc (h (unat pid)))) tf'"
proof (cases "live_upto bs p (unat pid) (h (unat pid))")
  case False
  then show ?thesis
    using inv TraceFile_next_finished[OF inv pid False, of e] nxt card_keep[of bs p "unat pid" h]
    by (auto simp: trace_inv_def live_upto_Suc)
next
  case True
  show ?thesis
  proof (cases "live_word bs p (unat pid) (h (unat pid))")
    case True': True
    then obtain w where "stream_word bs p (unat pid) (h (unat pid)) = Some w"
      and "entry_type_of (w AND 3) \<noteq> ENTRY_TYPE_END"
      by (auto simp: live_word_def split: option.splits)
    then show ?thesis
      using inv TraceFile_next_live[OF inv pid True, of e] nxt True True' card_keep[of bs p "unat pid" h]
      by (auto simp: trace_inv_def live_upto_Suc nth_list_update distrib_left)
  next
    case False
    then have "tf' = tf\<lparr>m_positions := (m_positions tf)[unat pid := 0],
        m_num_finished := m_num_finished tf + 1\<rparr>"
      using TraceFile_next_live[OF inv pid True, of e] nxt
      by (auto simp: live_word_def split: option.splits if_splits)
    then show ?thesis
      using inv True False card_finish[of "unat pid" p bs h]  pid
      by (auto simp: trace_inv_def live_upto_Suc nth_list_update)
  qed
qed

lemma TraceFile_next_entry:
  assumes inv: "trace_inv bs p n0 h tf" and pid: "unat pid < p"
    and nxt: "TraceFile_next tf pid e = (ok, tf', e')"
  shows "ok \<and> (case trace_spec bs p (unat pid) (h (unat pid)) of
            Some ent \<Rightarrow> e_type e' = e_type ent \<and> e_addr e' = e_addr ent
          | None \<Rightarrow> e_type e' = ENTRY_TYPE_NOP)"
proof (cases "live_upto bs p (unat pid) (h (unat pid))")
  case False
  then show ?thesis
    using TraceFile_next_finished[OF inv pid False, of e] nxt by (auto simp: trace_spec_def live_upto_Suc)
next
  case True
  then show ?thesis
    using TraceFile_next_live[OF inv pid True, of e] nxt
    by (auto simp: trace_spec_def live_upto_Suc live_word_def split: option.splits if_splits)
qed

section \<open>Interleaved readers\<close>

text \<open>
  The simulation calls \<^verbatim>\<open>next\<close> for the CPUs in an order the scheduler chooses. \<open>next_run\<close>
  makes the calls of a list of CPU numbers, each into a fresh entry \<open>e0\<close>, and collects the results.
\<close>

fun next_run :: "entry \<Rightarrow> trace_file \<Rightarrow> u32 list \<Rightarrow> trace_file \<times> (bool \<times> entry) list" where
  "next_run e0 tf [] = (tf, [])"
| "next_run e0 tf (pid # pids) =
     (case TraceFile_next tf pid e0 of (ok, tf', e) \<Rightarrow>
        (case next_run e0 tf' pids of (tf'', rs) \<Rightarrow> (tf'', (ok, e) # rs)))"

definition calls_before :: "u32 list \<Rightarrow> nat \<Rightarrow> nat" where
  "calls_before pids j = count_list (take j pids) (pids ! j)"

definition matches_spec :: "entry option \<Rightarrow> bool \<times> entry \<Rightarrow> bool" where
  "matches_spec spec r \<longleftrightarrow> fst r \<and>
     (case spec of Some ent \<Rightarrow> e_type (snd r) = e_type ent \<and> e_addr (snd r) = e_addr ent
      | None \<Rightarrow> e_type (snd r) = ENTRY_TYPE_NOP)"

lemma trace_inv_cong:
  assumes "\<forall>i<p. h i = h' i" and "trace_inv bs p n0 h tf"
  shows "trace_inv bs p n0 h' tf"
proof -
  have "{i. i < p \<and> \<not> live_upto bs p i (h i)} = {i. i < p \<and> \<not> live_upto bs p i (h' i)}"
    using assms(1) by auto
  with assms show ?thesis by (simp add: trace_inv_def)
qed

lemma calls_before_Cons:
  "calls_before (pid # pids) (Suc j) = (if pid = pids ! j then 1 else 0) + calls_before pids j"
  by (simp add: calls_before_def)

lemma eq_of_nat_iff_unat:
  fixes w :: u32
  assumes "i < 2 ^ 32"
  shows "w = of_nat i \<longleftrightarrow> unat w = i"
proof -
  have "unat (of_nat i :: u32) = i" using assms by (simp add: unsigned_of_nat take_bit_nat_eq_self)
  then show ?thesis by (auto simp: word_unat_eq_iff)
qed

lemma next_run_spec:
  assumes "trace_inv bs p n0 h tf" and "\<forall>pid \<in> set pids. unat pid < p" and "next_run e0 tf pids = (tf', rs)"
  shows "trace_inv bs p n0 (\<lambda>i. h i + count_list pids (of_nat i)) tf' \<and> length rs = length pids \<and>
    (\<forall>j < length pids. matches_spec
       (trace_spec bs p (unat (pids ! j)) (h (unat (pids ! j)) + calls_before pids j)) (rs ! j))"
  using assms
proof (induction pids arbitrary: tf h tf' rs)
  case Nil
  then show ?case by simp
next
  case (Cons pid pids)
  obtain ok t e where nx: "TraceFile_next tf pid e0 = (ok, t, e)" by (metis prod_cases3)
  obtain rs' where rs: "next_run e0 t pids = (tf', rs')" "rs = (ok, e) # rs'"
    using Cons.prems(3) nx by (auto split: prod.splits)
  let ?h = "h(unat pid := Suc (h (unat pid)))"
  from Cons.prems(2) have pid: "unat pid < p" and pids: "\<forall>pid \<in> set pids. unat pid < p" by auto
  have p32: "p < 2 ^ 32" using Cons.prems(1) by (simp add: trace_inv_def)
  have inv: "trace_inv bs p n0 ?h t" by (rule TraceFile_next_inv[OF Cons.prems(1) pid nx])
  note IH = Cons.IH[OF inv pids rs(1)]
  have same: "?h i + count_list pids (of_nat i) = h i + count_list (pid # pids) (of_nat i)" if "i < p" for i
    using that p32 by (simp add: eq_of_nat_iff_unat)
  have "trace_inv bs p n0 (\<lambda>i. h i + count_list (pid # pids) (of_nat i)) tf'"
    by (rule trace_inv_cong[OF allI[OF impI[OF same]] conjunct1[OF IH]])
  moreover have "matches_spec (trace_spec bs p (unat ((pid # pids) ! j))
      (h (unat ((pid # pids) ! j)) + calls_before (pid # pids) j)) (rs ! j)"
    if j: "j < length (pid # pids)" for j
  proof (cases j)
    case 0
    then show ?thesis using TraceFile_next_entry[OF Cons.prems(1) pid nx]
      by (simp add: matches_spec_def calls_before_def rs(2) split: option.splits)
  next
    case (Suc k)
    then have "matches_spec (trace_spec bs p (unat (pids ! k)) (?h (unat (pids ! k)) + calls_before pids k))
        (rs' ! k)"
      using IH j by simp
    moreover have "?h (unat (pids ! k)) + calls_before pids k
        = h (unat (pids ! k)) + calls_before (pid # pids) (Suc k)"
      by (simp add: calls_before_Cons word_unat_eq_iff)
    ultimately show ?thesis using Suc rs(2) by simp
  qed
  ultimately show ?case using IH rs(2) by simp
qed

section \<open>Writing and reading back\<close>

text \<open>The file format, as a writer would produce it from the entries in file order.\<close>

fun entry_code :: "entry_type \<Rightarrow> u32" where
  "entry_code ENTRY_TYPE_NOP = 0"
| "entry_code ENTRY_TYPE_READ = 1"
| "entry_code ENTRY_TYPE_WRITE = 2"
| "entry_code ENTRY_TYPE_END = 3"

definition entry_word :: "entry \<Rightarrow> u32" where
  "entry_word e = e_addr e OR entry_code (e_type e)"

definition encode_trf :: "nat \<Rightarrow> entry list \<Rightarrow> byte list" where
  "encode_trf p es = trf_signature @ be32_bytes (of_nat p) @ concat (map be32_bytes (map entry_word es))"

definition proper_entry :: "entry \<Rightarrow> bool" where
  "proper_entry e \<longleftrightarrow> e_addr e AND 3 = 0 \<and> e_type e \<noteq> ENTRY_TYPE_END"

lemma entry_code_low: "entry_code t AND 3 = entry_code t" "entry_code t AND NOT 3 = 0"
  by (cases t; simp)+

lemma entry_type_of_code [simp]: "entry_type_of (entry_code t) = t"
  by (cases t) (auto simp: entry_type_of_def)

lemma entry_word_fields:
  assumes "e_addr e AND 3 = 0"
  shows "entry_word e AND 3 = entry_code (e_type e)" "entry_word e AND NOT 3 = e_addr e"
proof -
  have "e_addr e AND NOT 3 = e_addr e"
  proof (rule bit_word_eqI)
    fix n
    have "bit (e_addr e AND 3) n = bit (0 :: u32) n" using assms by simp
    moreover assume "n < LENGTH(32)"
    ultimately show "bit (e_addr e AND NOT 3) n = bit (e_addr e) n"
      by (auto simp only: bit_and_iff bit_not_iff bit_0_eq bot_apply bot_bool_def possible_bit_word)
  qed
  then show "entry_word e AND 3 = entry_code (e_type e)" "entry_word e AND NOT 3 = e_addr e"
    by (simp_all only: entry_word_def bit.conj_disj_distrib2 entry_code_low assms or.left_neutral
        or.right_neutral)
qed

lemma encode_trf_length: "length (encode_trf p es) = 8 + 4 * length es"
  by (simp add: encode_trf_def trf_signature_def del: map_map)

lemma encode_trf_word:
  assumes "n < length es"
  shows "word_at (encode_trf p es) (8 + 4 * n) = entry_word (es ! n)"
  using word_at_concat[of n "map entry_word es" "trf_signature @ be32_bytes (of_nat p)"] assms
  by (simp add: encode_trf_def trf_signature_def)

lemma encode_trf_header:
  "take 4 (encode_trf p es) = trf_signature" "word_at (encode_trf p es) 4 = of_nat p"
  using word_at_append[of 4 trf_signature "of_nat p" "concat (map be32_bytes (map entry_word es))"]
  by (simp_all add: encode_trf_def trf_signature_def)

lemma encode_trf_stream:
  assumes "i < p" and "i + p * k < length es"
  shows "stream_word (encode_trf p es) p i k = Some (entry_word (es ! (i + p * k)))"
proof -
  have "8 + 4 * i + 4 * p * k = 8 + 4 * (i + p * k)" by simp
  then show ?thesis
    using encode_trf_word[OF assms(2), of p] assms(2)
    by (simp only: stream_word_def Let_def encode_trf_length) simp
qed

lemma encode_trf_live:
  assumes "i < p" and "i + p * k < length es" and "\<forall>e \<in> set es. proper_entry e"
  shows "live_upto (encode_trf p es) p i (Suc k)"
proof -
  have "live_word (encode_trf p es) p i j" if "j \<le> k" for j
  proof -
    have "i + p * j \<le> i + p * k" using that by simp
    then have lt: "i + p * j < length es" using assms(2) by linarith
    then have "proper_entry (es ! (i + p * j))" using assms(3) by simp
    then show ?thesis
      using encode_trf_stream[OF assms(1) lt]
      by (simp add: live_word_def proper_entry_def entry_word_fields)
  qed
  then show ?thesis by (auto simp: live_upto_def list_all_iff less_Suc_eq_le)
qed

lemma encode_trf_spec:
  assumes "i < p" and "i + p * k < length es" and "\<forall>e \<in> set es. proper_entry e"
  shows "trace_spec (encode_trf p es) p i k = Some (es ! (i + p * k))"
proof -
  have "proper_entry (es ! (i + p * k))" using assms(2,3) by simp
  then show ?thesis
    using encode_trf_live[OF assms] encode_trf_stream[OF assms(1,2)]
    by (simp only: trace_spec_def proper_entry_def entry_word_fields if_True option.map entry_type_of_code)
       simp
qed

lemma encode_trf_open:
  assumes "p < 2 ^ 30"
  shows "TraceFile_open n0 (Some (encode_trf p es)) =
    (if length es \<le> p then Inl Unexpected_End
     else Inr \<lparr>m_input = encode_trf p es,
               m_positions = map (\<lambda>i. 8 + uint (of_nat i * 4 :: u32)) [0 ..< p],
               m_num_finished = n0, m_endstream = int (8 + 4 * length es)\<rparr>)"
proof -
  have "unat (of_nat p :: u32) = p"
    using assms by (simp add: unsigned_of_nat take_bit_nat_eq_self)
  moreover have "(of_nat p * 4 + 3 :: u32) = of_nat (4 * p + 3)" by simp
  moreover have "take_bit LENGTH(32) (4 * p + 3) = 4 * p + 3"
    using assms by (intro take_bit_nat_eq_self) simp
  ultimately have "unat (of_nat p :: u32) = p" "uint (of_nat p * 4 + 3 :: u32) = int (4 * p + 3)"
    by (simp_all only: unsigned_of_nat)
  then show ?thesis
    by (auto simp: TraceFile_open_def encode_trf_header encode_trf_length Let_def)
qed

text \<open>A two-entry trace for one CPU, used by the witnesses.\<close>

definition demo_entries :: "entry list" where
  "demo_entries = [\<lparr>e_type = ENTRY_TYPE_READ, e_addr = 4\<rparr>, \<lparr>e_type = ENTRY_TYPE_WRITE, e_addr = 8\<rparr>]"

definition demo_trf :: "byte list" where
  "demo_trf = encode_trf 1 demo_entries"

lemma demo_open: "\<exists>tf. TraceFile_open n0 (Some demo_trf) = Inr tf"
  using encode_trf_open[of 1 n0 demo_entries] by (simp add: demo_trf_def demo_entries_def)

lemma demo_cpus: "unat (word_at demo_trf 4) = 1"
  by (simp add: demo_trf_def encode_trf_header)

lemma demo_proper: "\<forall>e \<in> set demo_entries. proper_entry e"
  by (simp add: demo_entries_def proper_entry_def)

text \<open>C18: however the calls of the CPUs are interleaved, the \<open>k\<close>-th call of \<^verbatim>\<open>next\<close> for a CPU
  succeeds and delivers the \<open>k\<close>-th entry of that CPU's own trace (every \<open>p\<close>-th word of the file,
  starting at its own), up to its end tag or the end of the file, and a NOP from then on.\<close>
theorem traces_read_independently:
  assumes "TraceFile_open n0 (Some bs) = Inr tf" and "unat (word_at bs 4) < 2 ^ 30"
    and "\<forall>pid \<in> set pids. unat pid < unat (word_at bs 4)"
    and "next_run e0 tf pids = (tf', rs)" and "j < length pids"
  shows "matches_spec (trace_spec bs (unat (word_at bs 4)) (unat (pids ! j)) (calls_before pids j)) (rs ! j)"
  using next_run_spec[OF TraceFile_open_inv[OF assms(1,2)] assms(3,4)] assms(5) by simp

theorem traces_read_independently_witness:
  "\<exists>tf tf' rs. TraceFile_open 7 (Some demo_trf) = Inr tf \<and> next_run (hd demo_entries) tf [0, 0] = (tf', rs) \<and>
     matches_spec (Some (demo_entries ! 1)) (rs ! 1)"
proof -
  obtain tf where tf: "TraceFile_open 7 (Some demo_trf) = Inr tf" using demo_open by blast
  obtain tf' rs where run: "next_run (hd demo_entries) tf [0, 0] = (tf', rs)" by fastforce
  have "trace_spec demo_trf 1 0 1 = Some (demo_entries ! 1)"
    using encode_trf_spec[of 0 1 1 demo_entries] demo_proper by (simp add: demo_trf_def demo_entries_def)
  with traces_read_independently[OF tf _ _ run, of 1] tf run show ?thesis
    by (auto simp: demo_cpus calls_before_def)
qed

text \<open>when \<^verbatim>\<open>m_num_finished\<close> happens to start at 0, \<^verbatim>\<open>eof()\<close> holds exactly when every
  CPU has been asked for more entries than its trace has before its end.\<close>
theorem eof_iff_all_finished:
  assumes "TraceFile_open 0 (Some bs) = Inr tf" and "unat (word_at bs 4) < 2 ^ 30"
    and "\<forall>pid \<in> set pids. unat pid < unat (word_at bs 4)"
    and "next_run e0 tf pids = (tf', rs)"
  shows "TraceFile_eof tf' \<longleftrightarrow>
    (\<forall>i < unat (word_at bs 4). \<not> live_upto bs (unat (word_at bs 4)) i (count_list pids (of_nat i)))"
proof -
  let ?p = "unat (word_at bs 4)"
  let ?A = "{i. i < ?p \<and> \<not> live_upto bs ?p i (count_list pids (of_nat i))}"
  have inv: "trace_inv bs ?p 0 (\<lambda>i. count_list pids (of_nat i)) tf'"
    using next_run_spec[OF TraceFile_open_inv[OF assms(1,2)] assms(3,4)] by simp
  have "card ?A \<le> card {..<?p}" by (rule card_mono) auto
  then have "card ?A < 2 ^ 32" using assms(2) by simp
  then have "unat (of_nat (card ?A) :: u32) = card ?A"
    by (simp add: unsigned_of_nat take_bit_nat_eq_self)
  then show ?thesis
    using inv card_less_eq_all[of ?p "\<lambda>i. \<not> live_upto bs ?p i (count_list pids (of_nat i))"]
    by (simp add: TraceFile_eof_def trace_inv_def)
qed

theorem eof_iff_all_finished_witness:
  "\<exists>tf tf' rs. TraceFile_open 0 (Some demo_trf) = Inr tf \<and> next_run (hd demo_entries) tf [0, 0] = (tf', rs) \<and>
     \<not> TraceFile_eof tf'"
proof -
  obtain tf where tf: "TraceFile_open 0 (Some demo_trf) = Inr tf" using demo_open by blast
  obtain tf' rs where run: "next_run (hd demo_entries) tf [0, 0] = (tf', rs)" by fastforce
  have "live_upto demo_trf 1 0 2"
    using encode_trf_live[of 0 1 1 demo_entries] demo_proper
    by (simp add: demo_trf_def demo_entries_def numeral_2_eq_2)
  then have "live_upto demo_trf 1 0 (count_list [0, 0] (of_nat 0 :: u32))" by (simp add: numeral_2_eq_2)
  then have "\<not> TraceFile_eof tf'"
    using eof_iff_all_finished[OF tf _ _ run] by (simp add: demo_cpus)
  with tf run show ?thesis by blast
qed



text \<open>the length check of the constructor rejects a file that holds exactly one entry (or none)
  for every CPU: it demands one word more than the first entry of each CPU.\<close>
theorem one_entry_per_cpu_rejected:
  assumes "p < 2 ^ 30" and "length es = p"
  shows "TraceFile_open n0 (Some (encode_trf p es)) = Inl Unexpected_End"
  using encode_trf_open[OF assms(1), of n0 es] assms(2) by simp

theorem one_entry_per_cpu_rejected_witness:
  "TraceFile_open 7 (Some (encode_trf 2 demo_entries)) = Inl Unexpected_End"
  using one_entry_per_cpu_rejected[of 2 demo_entries 7] by (simp add: demo_entries_def)

text \<open>After a successful \<^verbatim>\<open>init_tracefile\<close> on \<^verbatim>\<open>argc\<close> arguments, \<^verbatim>\<open>argv\<close> has lost
  its first two strings but \<^verbatim>\<open>argc\<close> has only been decremented by one, so it no longer is the
  number of arguments left.\<close>
theorem init_tracefile_argc_off_by_one:
  assumes "init_tracefile fs n0 (int (length argv)) argv = Inr (argc', argv', tf, cpus)"
  shows "argv' = drop 2 argv \<and> argc' = int (length argv') + 1 \<and> cpus = get_proc_count tf"
  using assms by (auto simp: init_tracefile_def split: if_splits sum.splits)

theorem init_tracefile_argc_off_by_one_witness:
  "\<exists>tf. init_tracefile (\<lambda>_. Some demo_trf) 0 3 [''assignment1'', ''a.trf'', ''1''] = Inr (2, [''1''], tf, get_proc_count tf)
     \<and> (2::int) = int (length [''1'']) + 1"
proof -
  obtain tf where tf: "TraceFile_open 0 (Some demo_trf) = Inr tf" using demo_open by blast
  then have "init_tracefile (\<lambda>_. Some demo_trf) 0 (int (length [''assignment1'', ''a.trf'', ''1'']))
      [''assignment1'', ''a.trf'', ''1''] = Inr (2, [''1''], tf, get_proc_count tf)"
    by (simp add: init_tracefile_def)
  from init_tracefile_argc_off_by_one[OF this] this show ?thesis by auto
qed

end
