(* ===== verification/Cpu.thy ===== *)
theory Cpu
  imports Moesi_Types Trace_File
begin

text \<open>
  \<^verbatim>\<open>CPU::execute\<close> of \<^verbatim>\<open>src/assignment_1/CPU.h\<close> as a machine that runs from one
  \<^verbatim>\<open>wait\<close> to the next. The field \<open>sent\<close> records what the thread wrote to
  \<^verbatim>\<open>Port_MemFunc\<close> and \<^verbatim>\<open>Port_MemAddr\<close>, oldest first. The program counter names the
  \<^verbatim>\<open>wait\<close> the thread sleeps in; \<open>CPU_Loop\<close> is the top of the loop at the start of the
  simulation. All CPUs share one \<^verbatim>\<open>TraceFile\<close>.
\<close>

datatype cpu_pc =
  CPU_Loop
| CPU_Write_Clk   \<comment> \<open>the cycle after a write was put on the ports\<close>
| CPU_Mem_Done    \<comment> \<open>waiting for \<^verbatim>\<open>Port_MemDone\<close>\<close>
| CPU_Advance     \<comment> \<open>the cycle at the end of the loop body\<close>
| CPU_Stopped     \<comment> \<open>\<^verbatim>\<open>sc_stop()\<close> was called\<close>
| CPU_Exited      \<comment> \<open>\<^verbatim>\<open>exit(0)\<close> was called\<close>

record cpu =
  cpu_id :: u32
  cpu_pc :: cpu_pc
  cpu_f :: "mem_function option"
  tr_data :: entry
  sent :: "(mem_function \<times> i32) list"

text \<open>The loop from its test to the first \<^verbatim>\<open>wait\<close> of its body.\<close>

definition cpu_issue :: "mem_function \<Rightarrow> cpu \<Rightarrow> cpu" where
  "cpu_issue f c =
     c\<lparr>cpu_f := Some f, sent := sent c @ [(f, e_addr (tr_data c))],
       cpu_pc := (if f = FUNC_WRITE then CPU_Write_Clk else CPU_Mem_Done)\<rparr>"

definition cpu_loop :: "trace_file \<Rightarrow> cpu \<Rightarrow> trace_file \<times> cpu" where
  "cpu_loop tf c =
     (if TraceFile_eof tf then (tf, c\<lparr>cpu_pc := CPU_Stopped\<rparr>)
      else case TraceFile_next tf (cpu_id c) (tr_data c) of
        (False, tf', e) \<Rightarrow> (tf', c\<lparr>tr_data := e, cpu_pc := CPU_Stopped\<rparr>)
      | (True, tf', e) \<Rightarrow>
          (let c' = c\<lparr>tr_data := e\<rparr> in
           case e_type e of
             ENTRY_TYPE_READ \<Rightarrow> (tf', cpu_issue FUNC_READ c')
           | ENTRY_TYPE_WRITE \<Rightarrow> (tf', cpu_issue FUNC_WRITE c')
           | ENTRY_TYPE_NOP \<Rightarrow> (tf', c'\<lparr>cpu_pc := CPU_Advance\<rparr>)
           | ENTRY_TYPE_END \<Rightarrow> (tf', c'\<lparr>cpu_pc := CPU_Exited\<rparr>)))"

definition cpu_resume :: "trace_file \<Rightarrow> cpu \<Rightarrow> trace_file \<times> cpu" where
  "cpu_resume tf c =
     (case cpu_pc c of
        CPU_Loop \<Rightarrow> cpu_loop tf c
      | CPU_Write_Clk \<Rightarrow> (tf, c\<lparr>cpu_pc := CPU_Mem_Done\<rparr>)
      | CPU_Mem_Done \<Rightarrow> (tf, c\<lparr>cpu_pc := CPU_Advance\<rparr>)
      | CPU_Advance \<Rightarrow> cpu_loop tf c
      | CPU_Stopped \<Rightarrow> (tf, c)
      | CPU_Exited \<Rightarrow> (tf, c))"

text \<open>The constructor; the locals \<^verbatim>\<open>f\<close> and \<^verbatim>\<open>tr_data\<close> start uninitialised.\<close>

definition new_cpu :: "entry \<Rightarrow> nat \<Rightarrow> cpu" where
  "new_cpu e i = \<lparr>cpu_id = of_nat i, cpu_pc = CPU_Loop, cpu_f = None, tr_data = e, sent = []\<rparr>"

text \<open>All CPUs, resumed in the order of a schedule.\<close>

fun cpus_run :: "nat list \<Rightarrow> trace_file \<times> (nat \<Rightarrow> cpu) \<Rightarrow> trace_file \<times> (nat \<Rightarrow> cpu)" where
  "cpus_run [] s = s"
| "cpus_run (i # is) (tf, cs) =
     (case cpu_resume tf (cs i) of (tf', c) \<Rightarrow> cpus_run is (tf', cs(i := c)))"

section \<open>The requests of a trace\<close>

definition entry_request :: "entry option \<Rightarrow> (mem_function \<times> i32) list" where
  "entry_request ent =
     (case ent of None \<Rightarrow> []
      | Some e \<Rightarrow> (case e_type e of ENTRY_TYPE_READ \<Rightarrow> [(FUNC_READ, e_addr e)]
                  | ENTRY_TYPE_WRITE \<Rightarrow> [(FUNC_WRITE, e_addr e)] | _ \<Rightarrow> []))"

definition trace_requests :: "byte list \<Rightarrow> nat \<Rightarrow> nat \<Rightarrow> nat \<Rightarrow> (mem_function \<times> i32) list" where
  "trace_requests bs p i n = concat (map (\<lambda>k. entry_request (trace_spec bs p i k)) [0 ..< n])"

lemma trace_requests_0 [simp]: "trace_requests bs p i 0 = []"
  by (simp add: trace_requests_def)

lemma trace_requests_Suc:
  "trace_requests bs p i (Suc n) = trace_requests bs p i n @ entry_request (trace_spec bs p i n)"
  by (simp add: trace_requests_def)

section \<open>The invariant of the CPUs\<close>

definition cpus_inv ::
    "byte list \<Rightarrow> nat \<Rightarrow> (nat \<Rightarrow> nat) \<Rightarrow> trace_file \<times> (nat \<Rightarrow> cpu) \<Rightarrow> bool" where
  "cpus_inv bs p h s \<longleftrightarrow>
     trace_inv bs p 0 h (fst s) \<and>
     (\<forall>i<p. cpu_id (snd s i) = of_nat i \<and> cpu_pc (snd s i) \<noteq> CPU_Exited \<and>
        sent (snd s i) = trace_requests bs p i (h i) \<and>
        (cpu_pc (snd s i) = CPU_Stopped \<longrightarrow> (\<forall>j<p. \<not> live_upto bs p j (h j))))"

lemma live_upto_mono: "live_upto bs p i n \<Longrightarrow> m \<le> n \<Longrightarrow> live_upto bs p i m"
  by (auto simp: live_upto_def list_all_iff)

lemma trace_inv_eof:
  assumes "trace_inv bs p 0 h tf"
  shows "TraceFile_eof tf \<longleftrightarrow> (\<forall>i<p. \<not> live_upto bs p i (h i))"
proof -
  let ?A = "{i. i < p \<and> \<not> live_upto bs p i (h i)}"
  have "card ?A \<le> card {..<p}" by (rule card_mono) auto
  then have "card ?A < 2 ^ 32" using assms by (simp add: trace_inv_def)
  then have "unat (of_nat (card ?A) :: u32) = card ?A"
    by (simp add: unsigned_of_nat take_bit_nat_eq_self)
  then show ?thesis
    using assms card_less_eq_all[of p "\<lambda>i. \<not> live_upto bs p i (h i)"]
    by (simp add: TraceFile_eof_def trace_inv_def)
qed

lemma cpu_loop_inv:
  assumes inv: "cpus_inv bs p h (tf, cs)" and i: "i < p" and loop: "cpu_loop tf (cs i) = (tf', c)"
  shows "\<exists>h'. cpus_inv bs p h' (tf', cs(i := c)) \<and> (\<forall>j. j \<noteq> i \<longrightarrow> h' j = h j)"
proof (cases "TraceFile_eof tf")
  case True
  then show ?thesis
    using inv i loop trace_inv_eof[of bs p h tf]
    by (intro exI[of _ h]) (auto simp: cpus_inv_def cpu_loop_def)
next
  case False
  have tinv: "trace_inv bs p 0 h tf" and id: "cpu_id (cs i) = of_nat i" and "p < 2 ^ 32"
    using inv i by (auto simp: cpus_inv_def trace_inv_def)
  then have pid: "unat (cpu_id (cs i)) = i"
    using i by (simp add: unsigned_of_nat take_bit_nat_eq_self)
  obtain ok t e where nx: "TraceFile_next tf (cpu_id (cs i)) (tr_data (cs i)) = (ok, t, e)"
    by (metis prod_cases3)
  have pid_lt: "unat (cpu_id (cs i)) < p" using pid i by simp
  let ?h = "h(i := Suc (h i))"
  have tinv': "trace_inv bs p 0 ?h t"
    using TraceFile_next_inv[OF tinv pid_lt nx] by (simp add: pid)
  have ent: "ok \<and> (case trace_spec bs p i (h i) of
        Some ent \<Rightarrow> e_type e = e_type ent \<and> e_addr e = e_addr ent | None \<Rightarrow> e_type e = ENTRY_TYPE_NOP)"
    using TraceFile_next_entry[OF tinv pid_lt nx] by (simp add: pid)
  have not_end: "e_type e \<noteq> ENTRY_TYPE_END"
    using ent by (auto simp: trace_spec_def live_upto_Suc live_word_def split: option.splits if_splits)
  have sent: "sent c = sent (cs i) @ entry_request (trace_spec bs p i (h i))"
    and pc: "cpu_pc c \<notin> {CPU_Exited, CPU_Stopped}" and cid: "cpu_id c = cpu_id (cs i)" and "tf' = t"
    using loop False nx ent not_end
    by (auto simp: cpu_loop_def cpu_issue_def entry_request_def Let_def
        split: option.splits entry_type.splits bool.splits)
  moreover have "(\<forall>j<p. \<not> live_upto bs p j (?h j))" if "\<forall>j<p. \<not> live_upto bs p j (h j)"
    using that live_upto_mono[of bs p i "Suc (h i)" "h i"] by auto
  ultimately show ?thesis
    using inv i tinv' by (intro exI[of _ ?h]) (auto simp: cpus_inv_def trace_requests_Suc)
qed

lemma cpu_resume_inv:
  assumes "cpus_inv bs p h (tf, cs)" and "i < p" and "cpu_resume tf (cs i) = (tf', c)"
  shows "\<exists>h'. cpus_inv bs p h' (tf', cs(i := c)) \<and> (\<forall>j. j \<noteq> i \<longrightarrow> h' j = h j)"
proof (cases "cpu_pc (cs i) = CPU_Loop \<or> cpu_pc (cs i) = CPU_Advance")
  case True
  then have "cpu_loop tf (cs i) = (tf', c)" using assms(3) by (auto simp: cpu_resume_def)
  then show ?thesis using cpu_loop_inv assms(1,2) by blast
next
  case False
  then show ?thesis using assms
    by (intro exI[of _ h]) (auto simp: cpus_inv_def cpu_resume_def split: cpu_pc.splits)
qed

lemma cpus_run_inv:
  "cpus_inv bs p h s \<Longrightarrow> \<forall>i \<in> set is. i < p \<Longrightarrow>
     \<exists>h'. cpus_inv bs p h' (cpus_run is s) \<and> (\<forall>j. j \<notin> set is \<longrightarrow> h' j = h j)"
proof (induction "is" arbitrary: h s)
  case (Cons i "is")
  obtain tf cs where s: "s = (tf, cs)" by force
  obtain tf' c where r: "cpu_resume tf (cs i) = (tf', c)" by force
  obtain h' where h': "cpus_inv bs p h' (tf', cs(i := c))" "\<forall>j. j \<noteq> i \<longrightarrow> h' j = h j"
    using cpu_resume_inv[of bs p h tf cs i tf' c] Cons.prems s r by auto
  obtain h2 where "cpus_inv bs p h2 (cpus_run is (tf', cs(i := c)))" "\<forall>j. j \<notin> set is \<longrightarrow> h2 j = h' j"
    using Cons.IH[OF h'(1)] Cons.prems(2) by auto
  then show ?case using h'(2) s r by (intro exI[of _ h2]) simp
qed auto

lemma new_cpus_inv:
  assumes "TraceFile_open 0 (Some bs) = Inr tf" and "unat (word_at bs 4) < 2 ^ 30"
  shows "cpus_inv bs (unat (word_at bs 4)) (\<lambda>_. 0) (tf, new_cpu e)"
  using TraceFile_open_inv[OF assms] by (simp add: cpus_inv_def new_cpu_def)

text \<open>C29: whatever the order in which the CPU threads wake up, every CPU sends to its cache exactly
  the reads and writes of a prefix of its own trace, in order, never meets the internal end tag, and
  if any CPU stops the simulation then every CPU has sent all the requests of its trace (for a trace
  file object whose finished counter starts at 0).\<close>
theorem cpus_send_their_traces:
  assumes "TraceFile_open 0 (Some bs) = Inr tf" and "p = unat (word_at bs 4)" and "p < 2 ^ 30"
    and "\<forall>i \<in> set is. i < p" and "cpus_run is (tf, new_cpu e) = (tf', cs)" and "i < p"
  shows "\<exists>n. sent (cs i) = trace_requests bs p i n \<and> cpu_pc (cs i) \<noteq> CPU_Exited \<and>
    ((\<exists>j<p. cpu_pc (cs j) = CPU_Stopped) \<longrightarrow> \<not> live_upto bs p i n)"
proof -
  obtain h where "cpus_inv bs p h (tf', cs)"
    using cpus_run_inv[OF new_cpus_inv[OF assms(1)]] assms by metis
  then show ?thesis using assms(6) by (intro exI[of _ "h i"]) (auto simp: cpus_inv_def)
qed

theorem cpus_send_their_traces_witness:
  "\<exists>tf tf' cs n. TraceFile_open 0 (Some demo_trf) = Inr tf \<and>
     cpus_run [0, 0, 0] (tf, new_cpu (hd demo_entries)) = (tf', cs) \<and> sent (cs 0) = trace_requests demo_trf 1 0 n"
proof -
  obtain tf where tf: "TraceFile_open 0 (Some demo_trf) = Inr tf" using demo_open by blast
  obtain tf' cs where run: "cpus_run [0, 0, 0] (tf, new_cpu (hd demo_entries)) = (tf', cs)" by fastforce
  from cpus_send_their_traces[OF tf _ _ _ run, of 1 0] tf run show ?thesis
    by (auto simp: demo_cpus)
qed

end
