(* ===== verification/Trace_Stats.thy ===== *)
theory Trace_Stats
  imports Prelude
begin

text \<open>
  The statistics half of \<^verbatim>\<open>lib/psa.cpp\<close>: the per-CPU hit and miss counters behind the static
  pointer \<^verbatim>\<open>stats_percpu\<close>, the four counting functions and the rows that
  \<^verbatim>\<open>stats_print\<close> prints. The pointer has three states: \<^verbatim>\<open>NULL\<close>, an allocated array, and
  dangling after \<^verbatim>\<open>stats_cleanup\<close>, which frees it without resetting it. Every access through
  the dangling pointer is \<open>Undefined\<close>. Formatting of the table is not modelled, and the hit rate
  is the exact quotient (\<open>None\<close> for 0/0, which prints as NaN) instead of a rounded double.
\<close>

record stats =
  writehit :: int
  writemiss :: int
  readhit :: int
  readmiss :: int

datatype stats_ptr = Stats_Null | Stats_Freed | Stats_Array "stats list"

record psa =
  num_cpus :: u32
  stats_percpu :: stats_ptr

datatype psa_error = Alloc_Failed | Stats_Not_Initialized | Undefined

definition psa_static :: psa where
  "psa_static = \<lparr>num_cpus = 0, stats_percpu = Stats_Null\<rparr>"

definition zero_stats :: stats where
  "zero_stats = \<lparr>writehit = 0, writemiss = 0, readhit = 0, readmiss = 0\<rparr>"

text \<open>\<open>malloc_ok\<close> says whether \<^verbatim>\<open>malloc\<close> returned memory.\<close>

definition stats_init :: "bool \<Rightarrow> psa \<Rightarrow> psa_error + psa" where
  "stats_init malloc_ok g =
     (if \<not> malloc_ok then Inl Alloc_Failed
      else Inr (g\<lparr>stats_percpu := Stats_Array (replicate (unat (num_cpus g)) zero_stats)\<rparr>))"

definition stats_cleanup :: "psa \<Rightarrow> psa_error + psa" where
  "stats_cleanup g =
     (case stats_percpu g of
        Stats_Freed \<Rightarrow> Inl Undefined
      | Stats_Null \<Rightarrow> Inr g
      | Stats_Array _ \<Rightarrow> Inr (g\<lparr>stats_percpu := Stats_Freed\<rparr>))"

text \<open>The guard and the array access that the four counting functions share.\<close>

definition stats_update :: "(stats \<Rightarrow> stats) \<Rightarrow> u32 \<Rightarrow> psa \<Rightarrow> psa_error + psa" where
  "stats_update upd cpuid g =
     (if cpuid < num_cpus g \<and> stats_percpu g \<noteq> Stats_Null then
        (case stats_percpu g of
           Stats_Array a \<Rightarrow>
             (if unat cpuid < length a
              then Inr (g\<lparr>stats_percpu := Stats_Array (a[unat cpuid := upd (a ! unat cpuid)])\<rparr>)
              else Inl Undefined)
         | _ \<Rightarrow> Inl Undefined)
      else Inr g)"

definition stats_writehit :: "u32 \<Rightarrow> psa \<Rightarrow> psa_error + psa" where
  "stats_writehit = stats_update (\<lambda>s. s\<lparr>writehit := writehit s + 1\<rparr>)"

definition stats_writemiss :: "u32 \<Rightarrow> psa \<Rightarrow> psa_error + psa" where
  "stats_writemiss = stats_update (\<lambda>s. s\<lparr>writemiss := writemiss s + 1\<rparr>)"

definition stats_readhit :: "u32 \<Rightarrow> psa \<Rightarrow> psa_error + psa" where
  "stats_readhit = stats_update (\<lambda>s. s\<lparr>readhit := readhit s + 1\<rparr>)"

definition stats_readmiss :: "u32 \<Rightarrow> psa \<Rightarrow> psa_error + psa" where
  "stats_readmiss = stats_update (\<lambda>s. s\<lparr>readmiss := readmiss s + 1\<rparr>)"

text \<open>One row of the table of \<^verbatim>\<open>stats_print\<close>.\<close>

record stats_row =
  row_cpu :: nat
  row_reads :: int
  row_rhit :: int
  row_rmiss :: int
  row_writes :: int
  row_whit :: int
  row_wmiss :: int
  row_hitrate :: "rat option"

definition stats_row_of :: "nat \<Rightarrow> stats \<Rightarrow> stats_row" where
  "stats_row_of i s =
     (let writes = writehit s + writemiss s;
          reads = readhit s + readmiss s;
          hitrate = (if writes + reads = 0 then None
                     else Some (of_int (writehit s + readhit s) / of_int (writes + reads) * 100))
      in \<lparr>row_cpu = i, row_reads = reads, row_rhit = readhit s, row_rmiss = readmiss s,
          row_writes = writes, row_whit = writehit s, row_wmiss = writemiss s,
          row_hitrate = hitrate\<rparr>)"

definition stats_print :: "psa \<Rightarrow> psa_error + stats_row list" where
  "stats_print g =
     (case stats_percpu g of
        Stats_Null \<Rightarrow> Inl Stats_Not_Initialized
      | Stats_Freed \<Rightarrow> Inl Undefined
      | Stats_Array a \<Rightarrow>
          (if unat (num_cpus g) \<le> length a
           then Inr (map (\<lambda>i. stats_row_of i (a ! i)) [0 ..< unat (num_cpus g)])
           else Inl Undefined))"

section \<open>Runs of counting calls\<close>

datatype stat_event = Write_Hit | Write_Miss | Read_Hit | Read_Miss

fun stats_event :: "stat_event \<Rightarrow> u32 \<Rightarrow> psa \<Rightarrow> psa_error + psa" where
  "stats_event Write_Hit = stats_writehit"
| "stats_event Write_Miss = stats_writemiss"
| "stats_event Read_Hit = stats_readhit"
| "stats_event Read_Miss = stats_readmiss"

fun stats_run :: "(stat_event \<times> u32) list \<Rightarrow> psa \<Rightarrow> psa_error + psa" where
  "stats_run [] g = Inr g"
| "stats_run ((e, c) # es) g =
     (case stats_event e c g of Inl x \<Rightarrow> Inl x | Inr g' \<Rightarrow> stats_run es g')"

definition num_events :: "stat_event \<Rightarrow> nat \<Rightarrow> (stat_event \<times> u32) list \<Rightarrow> int" where
  "num_events e i es = int (length (filter (\<lambda>(e', c). e' = e \<and> unat c = i) es))"

definition counted :: "nat \<Rightarrow> (stat_event \<times> u32) list \<Rightarrow> stats" where
  "counted i es =
     \<lparr>writehit = num_events Write_Hit i es, writemiss = num_events Write_Miss i es,
      readhit = num_events Read_Hit i es, readmiss = num_events Read_Miss i es\<rparr>"

definition stats_ok :: "psa \<Rightarrow> bool" where
  "stats_ok g = (case stats_percpu g of Stats_Array a \<Rightarrow> length a = unat (num_cpus g) | _ \<Rightarrow> False)"

lemmas stats_event_defs =
  stats_writehit_def stats_writemiss_def stats_readhit_def stats_readmiss_def stats_update_def

definition bump :: "stat_event \<Rightarrow> stats \<Rightarrow> stats" where
  "bump e s =
     (case e of Write_Hit \<Rightarrow> s\<lparr>writehit := writehit s + 1\<rparr>
      | Write_Miss \<Rightarrow> s\<lparr>writemiss := writemiss s + 1\<rparr>
      | Read_Hit \<Rightarrow> s\<lparr>readhit := readhit s + 1\<rparr>
      | Read_Miss \<Rightarrow> s\<lparr>readmiss := readmiss s + 1\<rparr>)"

lemma stats_event_array:
  assumes "stats_percpu g = Stats_Array a" and "length a = unat (num_cpus g)"
  shows "stats_event e c g =
     Inr (g\<lparr>stats_percpu := Stats_Array (if c < num_cpus g then a[unat c := bump e (a ! unat c)] else a)\<rparr>)"
  using assms by (cases e) (auto simp: stats_event_defs bump_def word_less_nat_alt)

lemma counted_snoc:
  "counted i (es @ [(e, c)]) = (if unat c = i then bump e (counted i es) else counted i es)"
  by (cases e) (auto simp: counted_def num_events_def bump_def)

lemma stats_run_append:
  "stats_run (es @ fs) g = (case stats_run es g of Inl x \<Rightarrow> Inl x | Inr g' \<Rightarrow> stats_run fs g')"
  by (induction es g rule: stats_run.induct) (auto split: sum.splits)

lemma replicate_2: "replicate 2 x = [x, x]"
  by (simp add: numeral_2_eq_2)

lemma list_update_map_upt:
  "(map f [0 ..< n])[k := v] = map (\<lambda>i. if k = i then v else f i) [0 ..< n]"
  by (rule nth_equalityI) (auto simp: nth_list_update)

lemma stats_run_counts:
  assumes "stats_init True g = Inr g0"
  shows "stats_run es g0 =
    Inr (g0\<lparr>stats_percpu := Stats_Array (map (\<lambda>i. counted i es) [0 ..< unat (num_cpus g)])\<rparr>)"
proof (induction es rule: rev_induct)
  case Nil
  show ?case using assms
    by (auto simp: stats_init_def counted_def num_events_def zero_stats_def map_replicate_const)
next
  case (snoc x es)
  obtain e c where x: "x = (e, c)" by force
  have "num_cpus g0 = num_cpus g" using assms by (auto simp: stats_init_def)
  then show ?case
    by (simp add: stats_run_append snoc x stats_event_array)
       (auto simp: counted_snoc word_less_nat_alt list_update_map_upt cong: if_cong)
qed

text \<open>after \<^verbatim>\<open>stats_init\<close>, any sequence of counting calls (whatever the CPU numbers they pass)
  succeeds, and \<^verbatim>\<open>stats_print\<close> then shows for every CPU exactly the number of calls of each kind made
  for it, with reads and writes as the sums of their hits and misses; calls for CPUs that do not
  exist are ignored.\<close>
theorem stats_table_correct:
  assumes "stats_init True g = Inr g0"
  shows "\<exists>g'. stats_run es g0 = Inr g' \<and>
    stats_print g' = Inr (map (\<lambda>i. stats_row_of i (counted i es)) [0 ..< unat (num_cpus g)])"
  using stats_run_counts[OF assms, of es] assms
  by (auto simp: stats_print_def stats_init_def)

theorem stats_table_correct_witness:
  "\<exists>g'. stats_run [(Write_Hit, 1), (Read_Miss, 1), (Read_Hit, 7)]
          \<lparr>num_cpus = 2, stats_percpu = Stats_Array [zero_stats, zero_stats]\<rparr> = Inr g' \<and>
    stats_print g' = Inr (map (\<lambda>i. stats_row_of i
       (counted i [(Write_Hit, 1), (Read_Miss, 1), (Read_Hit, 7)])) [0 ..< 2])"
proof -
  have "stats_init True \<lparr>num_cpus = 2, stats_percpu = Stats_Null\<rparr>
      = Inr \<lparr>num_cpus = 2, stats_percpu = Stats_Array [zero_stats, zero_stats]\<rparr>"
    by (simp add: stats_init_def replicate_2)
  from stats_table_correct[OF this, of "[(Write_Hit, 1), (Read_Miss, 1), (Read_Hit, 7)]"]
  show ?thesis by simp
qed

lemma percent_bounds: "(x::rat) \<le> 1 \<Longrightarrow> 0 \<le> x \<Longrightarrow> 0 \<le> x * 100 \<and> x * 100 \<le> 100"
  by auto

lemma hitrate_bounds:
  assumes "row_hitrate (stats_row_of i (counted i es)) = Some r"
  shows "0 \<le> r \<and> r \<le> 100"
proof -
  let ?s = "counted i es"
  let ?h = "writehit ?s + readhit ?s"
  let ?t = "writehit ?s + writemiss ?s + (readhit ?s + readmiss ?s)"
  have nn: "0 \<le> writehit ?s" "0 \<le> writemiss ?s" "0 \<le> readhit ?s" "0 \<le> readmiss ?s"
    by (auto simp: counted_def num_events_def)
  from assms have r: "r = of_int ?h / of_int ?t * 100" and nz: "?t \<noteq> 0"
    by (auto simp: stats_row_of_def Let_def split: if_splits)
  from nn nz have pos: "(0::rat) < of_int ?t" by (metis add_nonneg_nonneg of_int_0_less_iff order_less_le)
  have "(of_int ?h :: rat) \<le> of_int ?t" using nn by (simp only: of_int_le_iff)
  with pos have "(of_int ?h :: rat) / of_int ?t \<le> 1" by simp
  moreover have "0 \<le> (of_int ?h :: rat) / of_int ?t"
    using nn pos by (intro divide_nonneg_pos) (simp_all only: of_int_0_le_iff add_nonneg_nonneg)
  ultimately show ?thesis unfolding r by (intro percent_bounds)
qed

lemma stats_after_cleanup_undefined:
  "stats_percpu g = Stats_Array a \<Longrightarrow> stats_cleanup g = Inr g' \<Longrightarrow> c < num_cpus g \<Longrightarrow>
   stats_event e c g' = Inl Undefined"
  by (cases e) (auto simp: stats_cleanup_def stats_event_defs)

end
