(* ===== verification/Main_Program.thy ===== *)
theory Main_Program
  imports Cpu Trace_Stats
begin

text \<open>
  \<^verbatim>\<open>sc_main\<close> of the cache simulator (\<^verbatim>\<open>src/src/assignment_1/assignment1.cpp\<close>): its arguments, the instances it makes and
  the channels it binds them to, and what it prints at the end. \<^verbatim>\<open>Null_Argument\<close> is \<^verbatim>\<open>atoi\<close> on a null pointer or on a
  number that is no \<^verbatim>\<open>int\<close>. The measured time of the simulation is left out.
\<close>

section \<open>Arguments\<close>

definition digit_of :: "char \<Rightarrow> int option" where
  "digit_of c = (if 48 \<le> (of_char c :: int) \<and> (of_char c :: int) \<le> 57 then Some (of_char c - 48) else None)"

fun digits :: "int \<Rightarrow> string \<Rightarrow> int" where
  "digits n [] = n"
| "digits n (c # cs) = (case digit_of c of None \<Rightarrow> n | Some d \<Rightarrow> digits (10 * n + d) cs)"

definition is_space :: "char \<Rightarrow> bool" where
  "is_space c \<longleftrightarrow> (of_char c :: int) = 32 \<or> 9 \<le> (of_char c :: int) \<and> (of_char c :: int) \<le> 13"

definition atoi :: "string \<Rightarrow> int option" where
  "atoi s =
     (let n = (case dropWhile is_space s of
        [] \<Rightarrow> 0
      | c # cs \<Rightarrow> if c = CHR ''-'' then - digits 0 cs else if c = CHR ''+'' then digits 0 cs else digits 0 (c # cs))
      in if - (2 ^ 31) \<le> n \<and> n < 2 ^ 31 then Some n else None)"

datatype main_error = Trace_Error trace_error | Psa_Error psa_error | Null_Argument

record simulation =
  tracefile :: trace_file
  statistics :: psa
  cpunum :: int
  access_rate :: u32
  bus_time :: u32

definition main_setup :: "(string \<Rightarrow> byte list option) \<Rightarrow> u32 \<Rightarrow> bool \<Rightarrow> int \<Rightarrow> string list \<Rightarrow> main_error + simulation" where
  "main_setup fs garbage malloc_ok argc argv =
     (case init_tracefile fs garbage argc argv of
        Inl e \<Rightarrow> Inl (Trace_Error e)
      | Inr (argc, argv, tf, cpus) \<Rightarrow>
          (case (case argv of [] \<Rightarrow> None | a # _ \<Rightarrow> atoi a) of
             None \<Rightarrow> Inl Null_Argument
           | Some n \<Rightarrow>
               (case stats_init malloc_ok (psa_static\<lparr>num_cpus := cpus\<rparr>) of
                  Inl e \<Rightarrow> Inl (Psa_Error e)
                | Inr g \<Rightarrow> Inr \<lparr>tracefile = tf, statistics = g, cpunum = n, access_rate = 0, bus_time = 0\<rparr>)))"

section \<open>Instances and bindings\<close>







section \<open>Output\<close>

text \<open>The table, the two counters and the mean, which is an integer division.\<close>

definition main_summary :: "simulation \<Rightarrow> (stats_row list \<times> u32 \<times> u32) option" where
  "main_summary s =
     (case stats_print (statistics s) of
        Inl e \<Rightarrow> None
      | Inr rows \<Rightarrow> if access_rate s = 0 then None else Some (rows, access_rate s, bus_time s div access_rate s))"

section \<open>Properties\<close>






text \<open>Called as its usage message says, with a trace file and no more, the program passes a null pointer to \<^verbatim>\<open>atoi\<close>.\<close>

lemma usage_lacks_number:
  "TraceFile_open garbage (fs f) = Inr tf \<Longrightarrow> main_setup fs garbage malloc_ok 2 [prog, f] = Inl Null_Argument"
  by (simp add: main_setup_def init_tracefile_def)





end
