(* ===== verification/Tutorial.thy ===== *)
theory Tutorial
  imports Prelude "HOL-Library.Monad_Syntax"
begin

text \<open>
  The memory and the processor of the tutorial (\<^verbatim>\<open>src/src/tutorial/tutorial.cpp\<close>): two threads, cut at their waits,
  that talk over signals. A cycle of the clock runs the threads that wait for its edge, then updates the signals, then
  runs the threads that wait for an event of a signal. In each of the two phases every signal has one writer and no
  thread reads what another one writes in the same phase. \<open>None\<close> is an access outside the array, or a number read
  from a data bus that nobody or two drivers drive. The values of \<^verbatim>\<open>rand()\<close> are arguments.
\<close>

section \<open>State\<close>

datatype tutor_function = FUNC_READ | FUNC_WRITE

datatype tutor_ret_code = RET_READ_DONE | RET_WRITE_DONE

datatype memory_thread =
  Power_Up
| Wait_Func
| Delay nat tutor_function i32 i32     \<comment> \<open>edges left of \<open>wait(100)\<close>, function, address, data\<close>
| Hold                                   \<comment> \<open>the cycle in which the data read is on the bus\<close>

datatype cpu_thread = Issue | Release | Wait_Done

record tutor =
  mem_thread :: memory_thread
  cpu_thread :: cpu_thread
  m_data :: "i32 list"
  sig_func :: tutor_function
  func_event :: bool
  sig_done :: tutor_ret_code
  done_event :: bool
  sig_addr :: i32
  cpu_drives :: "i32 option"
  mem_drives :: "i32 option"

definition TUTOR_MEM_SIZE :: i32 where
  "TUTOR_MEM_SIZE = 512"

text \<open>The members before the first edge; the contents of the array are whatever was in memory.\<close>

definition power_on :: "i32 list \<Rightarrow> tutor" where
  "power_on d = \<lparr>mem_thread = Power_Up, cpu_thread = Issue, m_data = d, sig_func = FUNC_READ, func_event = False,
     sig_done = RET_READ_DONE, done_event = False, sig_addr = 0, cpu_drives = None, mem_drives = None\<rparr>"

text \<open>The resolved bus: a driver that does not drive has written \<^verbatim>\<open>Z\<close>.\<close>

definition data_bus :: "tutor \<Rightarrow> i32 option" where
  "data_bus s = (case (cpu_drives s, mem_drives s) of (Some v, None) \<Rightarrow> Some v | (None, Some v) \<Rightarrow> Some v | _ \<Rightarrow> None)"

section \<open>The memory\<close>

definition mem_read :: "i32 \<Rightarrow> i32 list \<Rightarrow> i32 option" where
  "mem_read addr d = (if sint addr < sint TUTOR_MEM_SIZE then if sint addr < 0 then None else Some (d ! nat (sint addr)) else Some 0)"

definition mem_write :: "i32 \<Rightarrow> i32 \<Rightarrow> i32 list \<Rightarrow> i32 list option" where
  "mem_write addr v d = (if sint addr < sint TUTOR_MEM_SIZE then if sint addr < 0 then None else Some (d[nat (sint addr) := v]) else Some d)"

definition mem_edge :: "tutor \<Rightarrow> tutor option" where
  "mem_edge s =
     (case mem_thread s of
        Power_Up \<Rightarrow> Some (s\<lparr>mem_thread := Wait_Func\<rparr>)
      | Wait_Func \<Rightarrow> Some s
      | Delay n f addr v \<Rightarrow>
          if n > 1 then Some (s\<lparr>mem_thread := Delay (n - 1) f addr v\<rparr>)
          else if f = FUNC_READ then do {
            v \<leftarrow> mem_read addr (m_data s);
            Some (s\<lparr>mem_drives := Some v, sig_done := RET_READ_DONE, done_event := True, mem_thread := Hold\<rparr>)
          } else do {
            d \<leftarrow> mem_write addr v (m_data s);
            Some (s\<lparr>m_data := d, sig_done := RET_WRITE_DONE, done_event := True, mem_thread := Wait_Func\<rparr>)
          }
      | Hold \<Rightarrow> Some (s\<lparr>mem_drives := None, mem_thread := Wait_Func\<rparr>))"

definition mem_func_event :: "tutor \<Rightarrow> tutor option" where
  "mem_func_event s =
     (if mem_thread s = Wait_Func \<and> func_event s then do {
        v \<leftarrow> (if sig_func s = FUNC_WRITE then data_bus s else Some 0);
        Some (s\<lparr>mem_thread := Delay 100 (sig_func s) (sig_addr s) v\<rparr>)
      } else Some s)"

section \<open>The processor\<close>

definition cpu_request :: "nat \<times> nat \<times> nat \<Rightarrow> tutor_function \<times> i32 \<times> i32" where
  "cpu_request r = (case r of (r1, r2, r3) \<Rightarrow>
     (if r1 mod 10 < 5 then FUNC_READ else FUNC_WRITE, of_nat (r2 mod unat TUTOR_MEM_SIZE), of_nat r3))"

definition cpu_edge :: "nat \<times> nat \<times> nat \<Rightarrow> tutor \<Rightarrow> tutor" where
  "cpu_edge r s =
     (case cpu_thread s of
        Issue \<Rightarrow>
          (case cpu_request r of (f, addr, v) \<Rightarrow>
             let s = s\<lparr>sig_addr := addr, sig_func := f, func_event := True\<rparr> in
             if f = FUNC_WRITE then s\<lparr>cpu_drives := Some v, cpu_thread := Release\<rparr> else s\<lparr>cpu_thread := Wait_Done\<rparr>)
      | Release \<Rightarrow> s\<lparr>cpu_drives := None, cpu_thread := Wait_Done\<rparr>
      | Wait_Done \<Rightarrow> s)"

definition cpu_event :: "tutor \<Rightarrow> tutor" where
  "cpu_event s = (if cpu_thread s = Wait_Done \<and> done_event s then s\<lparr>cpu_thread := Issue\<rparr> else s)"

section \<open>Cycles\<close>

definition tutor_cycle :: "nat \<times> nat \<times> nat \<Rightarrow> tutor \<Rightarrow> tutor option" where
  "tutor_cycle r s = do {
     s \<leftarrow> mem_edge s;
     s \<leftarrow> mem_func_event (cpu_edge r s);
     Some ((cpu_event s)\<lparr>func_event := False, done_event := False\<rparr>)
   }"

text \<open>The numbers drawn in cycle \<open>k\<close> are \<open>rs k\<close>, if the processor draws any.\<close>

fun tutor_run :: "(nat \<Rightarrow> nat \<times> nat \<times> nat) \<Rightarrow> nat \<Rightarrow> nat \<Rightarrow> tutor \<Rightarrow> tutor option" where
  "tutor_run rs k 0 s = Some s"
| "tutor_run rs k (Suc n) s = do { s \<leftarrow> tutor_cycle (rs k) s; tutor_run rs (Suc k) n s }"


section \<open>One request\<close>

text \<open>The threads are ready for the next request, or the memory works on one and has \<open>k\<close> edges to wait for.\<close>

definition tutor_ready :: "i32 list \<Rightarrow> tutor \<Rightarrow> bool" where
  "tutor_ready M s \<longleftrightarrow> mem_thread s \<in> {Power_Up, Wait_Func, Hold} \<and> (mem_thread s \<noteq> Hold \<longrightarrow> mem_drives s = None) \<and>
     cpu_thread s = Issue \<and> cpu_drives s = None \<and> m_data s = M \<and> \<not> func_event s \<and> \<not> done_event s"

definition tutor_busy :: "nat \<Rightarrow> tutor_function \<times> i32 \<times> i32 \<Rightarrow> i32 list \<Rightarrow> tutor \<Rightarrow> bool" where
  "tutor_busy k req M s \<longleftrightarrow>
     mem_thread s = (case req of (f, addr, v) \<Rightarrow> Delay k f addr (if f = FUNC_WRITE then v else 0)) \<and> mem_drives s = None \<and>
     cpu_thread s \<in> {Release, Wait_Done} \<and> (cpu_thread s = Wait_Done \<longrightarrow> cpu_drives s = None) \<and> (k < 100 \<longrightarrow> cpu_thread s = Wait_Done) \<and>
     m_data s = M \<and> \<not> func_event s \<and> \<not> done_event s"

lemmas tutor_defs = tutor_cycle_def mem_edge_def mem_func_event_def cpu_edge_def cpu_event_def data_bus_def

lemma request_starts:
  assumes "tutor_ready M s"
  shows "\<exists>s'. tutor_cycle r s = Some s' \<and> tutor_busy 100 (cpu_request r) M s'"
proof -
  obtain f a v where r: "cpu_request r = (f, a, v)" by (cases "cpu_request r")
  show ?thesis
    using assms r by (cases f) (auto simp: tutor_ready_def tutor_busy_def tutor_defs Let_def)
qed

lemma request_goes_on:
  assumes "tutor_busy (Suc (Suc k)) req M s" and "Suc (Suc k) \<le> 100"
  shows "\<exists>s'. tutor_cycle r s = Some s' \<and> tutor_busy (Suc k) req M s'"
proof -
  obtain f a v where r: "req = (f, a, v)" by (cases req)
  have e: "mem_edge s = Some (s\<lparr>mem_thread := Delay (Suc k) f a (if f = FUNC_WRITE then v else 0)\<rparr>)"
    using assms r by (simp add: tutor_busy_def mem_edge_def)
  show ?thesis
  proof (cases "cpu_thread s")
    case Release
    then show ?thesis using assms r e by (simp add: tutor_busy_def tutor_cycle_def mem_func_event_def cpu_edge_def cpu_event_def)
  next
    case Wait_Done
    then show ?thesis using assms r e by (simp add: tutor_busy_def tutor_cycle_def mem_func_event_def cpu_edge_def cpu_event_def)
  qed (use assms r in \<open>simp add: tutor_busy_def split: prod.splits\<close>)
qed

lemma request_waits: "tutor_busy (Suc k) req M s \<Longrightarrow> Suc k \<le> 100 \<Longrightarrow> \<exists>s'. tutor_run rs j k s = Some s' \<and> tutor_busy 1 req M s'"
proof (induction k arbitrary: j s)
  case (Suc k)
  obtain s1 where "tutor_cycle (rs j) s = Some s1" "tutor_busy (Suc k) req M s1" using request_goes_on Suc.prems by blast
  with Suc.IH[of s1 "Suc j"] Suc.prems(2) show ?case by auto
qed auto

text \<open>What a memory of 512 words does with a request.\<close>

fun array_after :: "tutor_function \<times> i32 \<times> i32 \<Rightarrow> i32 list \<Rightarrow> i32 list" where
  "array_after (f, addr, v) M = (if f = FUNC_WRITE then M[unat addr := v] else M)"

definition answered :: "tutor_function \<times> i32 \<times> i32 \<Rightarrow> i32 list \<Rightarrow> tutor \<Rightarrow> bool" where
  "answered req M s \<longleftrightarrow> (case req of (f, addr, v) \<Rightarrow>
     if f = FUNC_WRITE then sig_done s = RET_WRITE_DONE else sig_done s = RET_READ_DONE \<and> data_bus s = Some (M ! unat addr))"

lemma request_address: "cpu_request r = (f, addr, v) \<Longrightarrow> sint addr = int (unat addr) \<and> unat addr < 512"
proof -
  assume "cpu_request r = (f, addr, v)"
  then obtain n where n: "addr = of_nat n" "n < 512" by (auto simp: cpu_request_def TUTOR_MEM_SIZE_def split: prod.splits)
  then have u: "unat addr = n" by (simp add: unat_of_nat)
  with n show ?thesis using sint_small[of addr] by simp
qed

lemma request_ends:
  assumes "tutor_busy 1 (cpu_request r) M s" and "length M = 512"
  shows "\<exists>s'. tutor_cycle r' s = Some s' \<and> tutor_ready (array_after (cpu_request r) M) s' \<and> answered (cpu_request r) M s'"
proof -
  obtain f a v where r: "cpu_request r = (f, a, v)" by (cases "cpu_request r")
  note a = request_address[OF r]
  then have "sint a < 512" "0 \<le> sint a" "nat (sint a) = unat a" by linarith+
  then have u: "nat (sint a) = unat a" "0 \<le> sint a" "sint a < sint TUTOR_MEM_SIZE" by (simp_all add: TUTOR_MEM_SIZE_def)
  have c: "cpu_thread s = Wait_Done" "cpu_drives s = None" "mem_drives s = None" "m_data s = M" "\<not> func_event s"
    using assms by (auto simp: tutor_busy_def)
  show ?thesis
  proof (cases f)
    case FUNC_READ
    then have "mem_edge s = Some (s\<lparr>mem_drives := Some (M ! unat a), sig_done := RET_READ_DONE, done_event := True, mem_thread := Hold\<rparr>)"
      using assms r c u by (simp add: tutor_busy_def mem_edge_def mem_read_def)
    then show ?thesis using FUNC_READ r c
      by (simp add: tutor_cycle_def mem_func_event_def cpu_edge_def cpu_event_def tutor_ready_def answered_def data_bus_def)
  next
    case FUNC_WRITE
    then have "mem_edge s = Some (s\<lparr>m_data := M[unat a := v], sig_done := RET_WRITE_DONE, done_event := True, mem_thread := Wait_Func\<rparr>)"
      using assms r c u by (simp add: tutor_busy_def mem_edge_def mem_write_def)
    then show ?thesis using FUNC_WRITE r c
      by (simp add: tutor_cycle_def mem_func_event_def cpu_edge_def cpu_event_def tutor_ready_def answered_def)
  qed
qed

lemma run_append: "tutor_run rs k (m + n) s = tutor_run rs k m s \<bind> tutor_run rs (k + m) n"
proof (induction m arbitrary: k s)
  case (Suc m)
  then show ?case by (cases "tutor_cycle (rs k) s") simp_all
qed simp

lemma request_served:
  assumes "tutor_ready M s" and "length M = 512"
  shows "\<exists>s'. tutor_run rs k 101 s = Some s' \<and> tutor_ready (array_after (cpu_request (rs k)) M) s' \<and> answered (cpu_request (rs k)) M s'"
proof -
  obtain s1 where s1: "tutor_cycle (rs k) s = Some s1" "tutor_busy 100 (cpu_request (rs k)) M s1"
    using request_starts[OF assms(1)] by blast
  obtain s2 where s2: "tutor_run rs (k + 1) 99 s1 = Some s2" "tutor_busy 1 (cpu_request (rs k)) M s2"
    using request_waits[of 99 "cpu_request (rs k)" M s1 rs "k + 1"] s1(2) by auto
  obtain s3 where s3: "tutor_cycle (rs (k + 100)) s2 = Some s3" "tutor_ready (array_after (cpu_request (rs k)) M) s3"
    "answered (cpu_request (rs k)) M s3" using request_ends[OF s2(2) assms(2)] by blast
  have "tutor_run rs (k + 1) 100 s1 = Some s3" using run_append[of rs "k + 1" 99 1 s1] s2(1) s3(1) by (simp add: add.commute)
  then have "tutor_run rs k 101 s = Some s3" using run_append[of rs k 1 100 s] s1(1) by simp
  with s3 show ?thesis by blast
qed

section \<open>Properties\<close>

text \<open>The bound check of the memory has no lower limit; the processor of the tutorial never draws a negative address.\<close>

lemma negative_address_unchecked: "sint addr < 0 \<Longrightarrow> mem_read addr d = None \<and> mem_write addr v d = None"
  by (simp add: mem_read_def mem_write_def TUTOR_MEM_SIZE_def)

text \<open>The array after the first \<open>n\<close> requests; the processor draws a request every 101 cycles.\<close>

fun array_of :: "(nat \<Rightarrow> nat \<times> nat \<times> nat) \<Rightarrow> i32 list \<Rightarrow> nat \<Rightarrow> i32 list" where
  "array_of rs d 0 = d"
| "array_of rs d (Suc n) = array_after (cpu_request (rs (101 * n))) (array_of rs d n)"

lemma array_length [simp]: "length (array_of rs d n) = length d"
proof (induction n)
  case (Suc n)
  then show ?case by (cases "cpu_request (rs (101 * n))") simp
qed simp

lemma array_refined:
  "length d = 512 \<Longrightarrow> \<exists>s. tutor_run rs 0 (101 * n) (power_on d) = Some s \<and> tutor_ready (array_of rs d n) s"
proof (induction n)
  case 0
  then show ?case by (simp add: tutor_ready_def power_on_def)
next
  case (Suc n)
  then obtain s where s: "tutor_run rs 0 (101 * n) (power_on d) = Some s" "tutor_ready (array_of rs d n) s" by blast
  have "101 * Suc n = 101 * n + 101" by simp
  then have "tutor_run rs 0 (101 * Suc n) (power_on d) = tutor_run rs (101 * n) 101 s"
    using run_append[of rs 0 "101 * n" 101 "power_on d"] s(1) by (simp add: add.commute)
  with request_served[OF s(2), of rs "101 * n"] Suc.prems show ?case by auto
qed

text \<open>C31: The memory and the processor of the tutorial serve a request in exactly 101 cycles, for ever and whatever is drawn:
  no request or answer is lost, the two never drive the bus at once, no address is outside the array, the array
  holds the values written last, and at the end of a read the bus shows the word at its address.\<close>

theorem tutorial_memory_serves:
  assumes "length d = 512"
  shows "\<exists>s s'. tutor_run rs 0 (101 * n) (power_on d) = Some s \<and> m_data s = array_of rs d n \<and>
    tutor_run rs (101 * n) 101 s = Some s' \<and> m_data s' = array_of rs d (Suc n) \<and>
    (case cpu_request (rs (101 * n)) of (f, addr, v) \<Rightarrow>
       if f = FUNC_WRITE then sig_done s' = RET_WRITE_DONE
       else sig_done s' = RET_READ_DONE \<and> data_bus s' = Some (m_data s ! unat addr))"
proof -
  obtain s where s: "tutor_run rs 0 (101 * n) (power_on d) = Some s" "tutor_ready (array_of rs d n) s"
    using array_refined[OF assms] by blast
  with request_served[OF s(2), of rs "101 * n"] assms show ?thesis
    by (auto simp: tutor_ready_def answered_def)
qed

lemma tutorial_memory_serves_witness:
  "\<exists>s s'. tutor_run (\<lambda>k. if k = 0 then (7, 5, 42) else (0, 5, 0)) 0 101 (power_on (replicate 512 0)) = Some s \<and>
     tutor_run (\<lambda>k. if k = 0 then (7, 5, 42) else (0, 5, 0)) 101 101 s = Some s' \<and> data_bus s' = Some 42"
proof -
  let ?rs = "\<lambda>k. if k = (0::nat) then (7, 5, 42) else (0, 5, 0) :: nat \<times> nat \<times> nat"
  have "length (replicate 512 (0 :: i32)) = 512" by simp
  from tutorial_memory_serves[OF this, of ?rs 1] show ?thesis
    by (auto simp: cpu_request_def TUTOR_MEM_SIZE_def unat_of_nat)
qed

end
