(* ===== verification/Cache_Lines.thy ===== *)
theory Cache_Lines
  imports Moesi_Types
begin

text \<open>
  The line array of \<^verbatim>\<open>SingleCache\<close> (\<^verbatim>\<open>src/assignment_1/Cache.h\<close>): address
  decomposition, the lookup scan with its victim choice and ageing, the lookup of the snooping
  thread, and the address of a write-back. The array is a function from indices to records; the
  bounds lemma shows that only indices below \<open>CACHE_SIZE\<close> are used. Addresses and shifts are
  32-bit, with the arithmetic shift that \<^verbatim>\<open>>>\<close> is on \<^verbatim>\<open>int\<close>; the bit field
  \<^verbatim>\<open>tag : 24\<close> is a 24-bit word read back with sign extension.
\<close>

section \<open>Data\<close>

record cache_record =
  counter :: int
  state :: cl_state
  tag :: "24 word"
  data :: "i32 list"

type_synonym cachelines = "nat \<Rightarrow> cache_record"

text \<open>The constructor clears the array with \<^verbatim>\<open>memset\<close>.\<close>

definition zero_line :: cache_record where
  "zero_line = \<lparr>counter = 0, state = CACHEL_INVALID, tag = 0, data = replicate 8 0\<rparr>"

definition init_lines :: cachelines where
  "init_lines = (\<lambda>_. zero_line)"

section \<open>Addresses\<close>

definition addr_to_index :: "i32 \<Rightarrow> nat" where
  "addr_to_index addr =
     nat (c_rem (sint (signed_drop_bit CACHEINDEX_SHIFT (addr AND CACHEINDEX_MASK)) * CACHE_SET_SIZE)
            CACHE_SIZE)"

definition addr_tag :: "i32 \<Rightarrow> i32" where
  "addr_tag addr = signed_drop_bit CACHETAG_SHIFT (addr AND CACHETAG_MASK)"

text \<open>Reading the bit field promotes it to \<^verbatim>\<open>int\<close>; writing it keeps the low 24 bits.\<close>

definition get_tag :: "cache_record \<Rightarrow> i32" where
  "get_tag r = scast (tag r)"

definition line_present :: "cache_record \<Rightarrow> i32 \<Rightarrow> bool" where
  "line_present r addr \<longleftrightarrow> state r \<noteq> CACHEL_INVALID \<and> get_tag r = addr_tag addr"

definition line_addr :: "i32 \<Rightarrow> i32" where
  "line_addr addr = addr AND NOT 0x1F"

section \<open>The lookup scan of the execute thread\<close>

text \<open>The loop after the label \<^verbatim>\<open>check_the_cachelinestat\<close>, with its four variables.\<close>

record scan_state =
  s_lines :: cachelines
  s_rindex :: int
  s_min_id :: nat
  s_min_val :: int

definition scan_body :: "i32 \<Rightarrow> nat \<Rightarrow> scan_state \<Rightarrow> scan_state" where
  "scan_body addr i s =
     (let r = s_lines s i in
      if line_present r addr then s\<lparr>s_rindex := int i\<rparr>
      else
        (let s' = (if state r = CACHEL_INVALID then s\<lparr>s_min_id := i, s_min_val := -1\<rparr>
                   else if counter r < s_min_val s then s\<lparr>s_min_val := counter r, s_min_id := i\<rparr>
                   else s)
         in s'\<lparr>s_lines := (s_lines s)(i := r\<lparr>counter := max 0 (counter r - 1)\<rparr>)\<rparr>))"

definition scan_lines :: "i32 \<Rightarrow> cachelines \<Rightarrow> scan_state" where
  "scan_lines addr cl =
     (let index = addr_to_index addr in
      fold (scan_body addr) [index ..< index + nat CACHE_SET_SIZE]
        \<lparr>s_lines = cl, s_rindex = -1, s_min_id = index, s_min_val = MAX_COUNTER + 2\<rparr>)"

section \<open>The lookup of the snooping thread\<close>

definition snoop_lookup :: "i32 \<Rightarrow> cachelines \<Rightarrow> int" where
  "snoop_lookup addr cl =
     (let index = addr_to_index addr in
      fold (\<lambda>i rindex. if line_present (cl i) addr then int i else rindex)
        [index ..< index + nat CACHE_SET_SIZE] (-1))"

text \<open>The address of the victim line that is written back (\<^verbatim>\<open>wbaddr\<close>).\<close>

definition writeback_addr :: "cache_record \<Rightarrow> i32 \<Rightarrow> i32" where
  "writeback_addr r addr =
     push_bit CACHETAG_SHIFT (get_tag r) OR (addr AND (NOT CACHETAG_MASK AND NOT 0x1F))"

section \<open>Facts about addresses\<close>

lemma bit_masks:
  fixes n :: nat
  shows "bit (0xFFF :: i32) n \<longleftrightarrow> n < 12" and "bit (0x1F :: i32) n \<longleftrightarrow> n < 5"
    and "bit (0xFE0 :: i32) n \<longleftrightarrow> 5 \<le> n \<and> n < 12"
proof -
  have eqs: "(0xFFF :: i32) = mask 12" "(0x1F :: i32) = mask 5"
      "(0xFE0 :: i32) = mask 12 AND NOT (mask 5)"
    by (simp_all add: mask_eq_exp_minus_1)
  show "bit (0xFFF :: i32) n \<longleftrightarrow> n < 12" "bit (0x1F :: i32) n \<longleftrightarrow> n < 5"
    "bit (0xFE0 :: i32) n \<longleftrightarrow> 5 \<le> n \<and> n < 12"
    unfolding eqs by (auto simp only: bit_mask_iff bit_and_iff bit_not_iff possible_bit_word
        len_of_numeral_defs min_def split: if_splits)
qed

lemma bit_index_mask: "bit CACHEINDEX_MASK n \<longleftrightarrow> 5 \<le> n \<and> n < 12"
  by (simp only: CACHEINDEX_MASK_def bit_masks)

lemma bit_tag_mask: "bit CACHETAG_MASK n \<longleftrightarrow> 12 \<le> n \<and> n < 32"
  by (auto simp only: CACHETAG_MASK_def bit_masks bit_not_iff possible_bit_word) (simp_all)

lemma bit_not_line: "bit (NOT 0x1F :: i32) n \<longleftrightarrow> 5 \<le> n \<and> n < 32"
  by (auto simp only: bit_masks bit_not_iff possible_bit_word) (simp_all)

lemma bit_line_addr: "bit (line_addr a) n \<longleftrightarrow> bit a n \<and> 5 \<le> n \<and> n < 32"
  by (simp only: line_addr_def bit_and_iff bit_not_line)

text \<open>The index is bits 5 to 11 of the address as a number, times the set size.\<close>

definition set_bits :: "i32 \<Rightarrow> i32" where
  "set_bits addr = take_bit 7 (drop_bit 5 addr)"

lemma index_bits: "signed_drop_bit 5 (addr AND CACHEINDEX_MASK) = set_bits addr"
  by (rule bit_word_eqI)
     (auto simp: set_bits_def bit_signed_drop_bit_iff bit_drop_bit_eq bit_take_bit_iff bit_and_iff
       bit_index_mask min_def)

lemma set_bits_small: "unat (set_bits addr) < 128"
  using take_bit_nat_less_exp[of 7 "unat (drop_bit 5 addr)"]
  by (simp add: set_bits_def unsigned_take_bit_eq)

lemma index_eq: "addr_to_index addr = 8 * unat (set_bits addr)"
proof -
  have u: "unat (set_bits addr) < 128" by (rule set_bits_small)
  then have "sint (set_bits addr) = int (unat (set_bits addr))" by (intro sint_small) simp
  then have "addr_to_index addr = nat (c_rem (int (8 * unat (set_bits addr))) 8192)"
    by (simp add: addr_to_index_def CACHEINDEX_SHIFT_def index_bits CACHE_SIZE_def CACHE_SET_SIZE_def
        mult.commute)
  also have "\<dots> = 8 * unat (set_bits addr)"
    using u by (simp add: c_rem_nonneg del: of_nat_mult)
  finally show ?thesis .
qed

lemma index_bound: "addr_to_index addr + 8 \<le> 1024"
  using set_bits_small[of addr] by (simp add: index_eq)

lemma index_aligned: "addr_to_index addr mod 8 = 0"
  by (simp add: index_eq)

lemma bit_set_bits: "bit (set_bits a) n \<longleftrightarrow> n < 7 \<and> bit a (n + 5)"
  by (auto simp: set_bits_def bit_take_bit_iff bit_drop_bit_eq add.commute)

lemma same_index_bits:
  assumes "addr_to_index a = addr_to_index b" and "5 \<le> n" and "n < 12"
  shows "bit a n = bit b n"
proof -
  have "set_bits a = set_bits b" using assms(1) by (simp add: index_eq word_unat_eq_iff)
  then have "bit (set_bits a) (n - 5) = bit (set_bits b) (n - 5)" by simp
  moreover have "n - 5 < 7" using assms(2,3) by linarith
  ultimately show ?thesis using assms(2) by (simp add: bit_set_bits)
qed

lemma bit_addr_tag: "n < 32 \<Longrightarrow> bit (addr_tag addr) n \<longleftrightarrow> bit addr (if n < 20 then n + 12 else 31)"
proof -
  assume n: "n < 32"
  have "bit (addr_tag addr) n = bit (addr AND CACHETAG_MASK) (if n < 20 then 12 + n else 31)"
    using n by (cases "n = 19") (auto simp: addr_tag_def CACHETAG_SHIFT_def bit_signed_drop_bit_iff)
  then show ?thesis using n by (simp add: bit_and_iff bit_tag_mask add.commute)
qed

lemma tag_roundtrip: "(scast (ucast (addr_tag addr) :: 24 word) :: i32) = addr_tag addr"
  by (rule bit_word_eqI) (auto simp: bit_signed_iff bit_ucast_iff bit_addr_tag min_def)

text \<open>Two addresses are in the same memory line exactly when set index and tag agree.\<close>

lemma same_line_iff:
  "line_addr a = line_addr b \<longleftrightarrow> addr_to_index a = addr_to_index b \<and> addr_tag a = addr_tag b"
proof
  assume eq: "line_addr a = line_addr b"
  have bits: "bit a n = bit b n" if "5 \<le> n" "n < 32" for n
    using arg_cong[OF eq, of "\<lambda>w. bit w n"] that by (simp add: bit_line_addr)
  have "set_bits a = set_bits b" by (rule bit_word_eqI) (auto simp: bit_set_bits bits)
  moreover have "addr_tag a = addr_tag b" by (rule bit_word_eqI) (auto simp: bit_addr_tag bits)
  ultimately show "addr_to_index a = addr_to_index b \<and> addr_tag a = addr_tag b" by (simp add: index_eq)
next
  assume eq: "addr_to_index a = addr_to_index b \<and> addr_tag a = addr_tag b"
  have hi: "bit a n = bit b n" if "12 \<le> n" "n < 32" for n
    using arg_cong[OF conjunct2[OF eq], of "\<lambda>w. bit w (n - 12)"] that
    by (simp add: bit_addr_tag split: if_splits)
  show "line_addr a = line_addr b"
  proof (rule bit_word_eqI)
    fix n assume "n < LENGTH(32)"
    then show "bit (line_addr a) n = bit (line_addr b) n"
      using hi[of n] same_index_bits[of a b n] eq by (cases "n < 12") (auto simp: bit_line_addr)
  qed
qed

lemma bit_offset_mask: "bit (NOT CACHETAG_MASK AND NOT 0x1F :: i32) n \<longleftrightarrow> 5 \<le> n \<and> n < 12"
  by (simp only: bit_and_iff bit_not_iff possible_bit_word bit_tag_mask bit_masks) auto

lemma writeback_addr_line:
  assumes "get_tag r = addr_tag a" and "addr_to_index addr = addr_to_index a"
  shows "writeback_addr r addr = line_addr a"
proof (rule bit_word_eqI)
  fix n assume n: "n < LENGTH(32)"
  have "writeback_addr r addr = push_bit 12 (addr_tag a) OR (addr AND (NOT CACHETAG_MASK AND NOT 0x1F))"
    by (simp only: writeback_addr_def assms CACHETAG_SHIFT_def)
  then have "bit (writeback_addr r addr) n \<longleftrightarrow>
      12 \<le> n \<and> bit (addr_tag a) (n - 12) \<or> bit addr n \<and> 5 \<le> n \<and> n < 12"
    using n by (simp only: bit_or_iff bit_push_bit_iff bit_and_iff[of addr] bit_offset_mask
        possible_bit_word simp_thms)
  then show "bit (writeback_addr r addr) n = bit (line_addr a) n"
    using n same_index_bits[OF assms(2), of n]
    by (cases "n < 12") (auto simp: bit_line_addr bit_addr_tag)
qed

section \<open>The scan as a whole\<close>

text \<open>
  What the loop computes, over the eight lines of the set: the last present line, the victim and
  the aged counters.
\<close>

definition set_lines :: "i32 \<Rightarrow> nat list" where
  "set_lines addr = [addr_to_index addr ..< addr_to_index addr + 8]"

definition age_line :: "i32 \<Rightarrow> cache_record \<Rightarrow> cache_record" where
  "age_line addr r = (if line_present r addr then r else r\<lparr>counter := max 0 (counter r - 1)\<rparr>)"

definition victim_ok :: "i32 \<Rightarrow> cachelines \<Rightarrow> nat list \<Rightarrow> nat \<Rightarrow> bool" where
  "victim_ok addr cl is v \<longleftrightarrow> v \<in> set is \<and> \<not> line_present (cl v) addr \<and>
     (if \<exists>i \<in> set is. state (cl i) = CACHEL_INVALID then state (cl v) = CACHEL_INVALID
      else \<forall>i \<in> set is. \<not> line_present (cl i) addr \<longrightarrow> counter (cl v) \<le> counter (cl i))"

lemma set_lines_iff: "i \<in> set (set_lines addr) \<longleftrightarrow> addr_to_index addr \<le> i \<and> i < addr_to_index addr + 8"
  by (auto simp: set_lines_def)

lemma set_lines_bound: "i \<in> set (set_lines addr) \<Longrightarrow> int i < CACHE_SIZE"
  using index_bound[of addr] by (auto simp: set_lines_iff CACHE_SIZE_def)

definition scan_start :: "cachelines \<Rightarrow> nat \<Rightarrow> scan_state" where
  "scan_start cl index = \<lparr>s_lines = cl, s_rindex = -1, s_min_id = index, s_min_val = MAX_COUNTER + 2\<rparr>"

lemma scan_lines_fold: "scan_lines addr cl = fold (scan_body addr) (set_lines addr) (scan_start cl (addr_to_index addr))"
  by (simp add: scan_lines_def set_lines_def scan_start_def CACHE_SET_SIZE_def Let_def)

definition min_inv :: "i32 \<Rightarrow> cachelines \<Rightarrow> nat \<Rightarrow> nat list \<Rightarrow> scan_state \<Rightarrow> bool" where
  "min_inv addr cl index is s \<longleftrightarrow>
     (if \<forall>i \<in> set is. line_present (cl i) addr
      then s_min_id s = index \<and> s_min_val s = MAX_COUNTER + 2
      else victim_ok addr cl is (s_min_id s) \<and>
           s_min_val s = (if state (cl (s_min_id s)) = CACHEL_INVALID then -1
                          else counter (cl (s_min_id s))))"

definition scan_inv :: "i32 \<Rightarrow> cachelines \<Rightarrow> nat \<Rightarrow> nat list \<Rightarrow> scan_state \<Rightarrow> bool" where
  "scan_inv addr cl index is s \<longleftrightarrow>
     s_lines s = (\<lambda>i. if i \<in> set is then age_line addr (cl i) else cl i) \<and>
     (if \<exists>i \<in> set is. line_present (cl i) addr
      then \<exists>i \<in> set is. s_rindex s = int i \<and> line_present (cl i) addr
      else s_rindex s = -1) \<and>
     min_inv addr cl index is s"

definition counters_ok :: "cachelines \<Rightarrow> bool" where
  "counters_ok cl \<longleftrightarrow> (\<forall>i. 0 \<le> counter (cl i) \<and> counter (cl i) \<le> MAX_COUNTER)"

lemma not_present_invalid [simp]: "state r = CACHEL_INVALID \<Longrightarrow> \<not> line_present r addr"
  by (simp add: line_present_def)

lemma present_valid: "line_present r addr \<Longrightarrow> state r \<noteq> CACHEL_INVALID"
  by (simp add: line_present_def)

lemma min_step_present:
  "min_inv addr cl index is s \<Longrightarrow> line_present (cl k) addr \<Longrightarrow>
   min_inv addr cl index (is @ [k]) (s\<lparr>s_rindex := int k\<rparr>)"
  by (auto simp: min_inv_def victim_ok_def dest: present_valid split: if_splits)

lemma min_step_invalid:
  "state (cl k) = CACHEL_INVALID \<Longrightarrow>
   min_inv addr cl index (is @ [k]) (s\<lparr>s_min_id := k, s_min_val := -1, s_lines := l\<rparr>)"
  by (auto simp: min_inv_def victim_ok_def)

lemma min_step_smaller:
  assumes "min_inv addr cl index is s" and "\<not> line_present (cl k) addr"
    and "state (cl k) \<noteq> CACHEL_INVALID" and "counter (cl k) < s_min_val s" and "0 \<le> counter (cl k)"
  shows "min_inv addr cl index (is @ [k]) (s\<lparr>s_min_val := counter (cl k), s_min_id := k, s_lines := l\<rparr>)"
proof -
  have "\<forall>i \<in> set is. \<not> line_present (cl i) addr \<longrightarrow>
      state (cl i) \<noteq> CACHEL_INVALID \<and> counter (cl k) \<le> counter (cl i)"
    using assms(1,4,5) by (auto simp: min_inv_def victim_ok_def split: if_splits)
  then have "\<forall>i \<in> set is. state (cl i) \<noteq> CACHEL_INVALID \<and>
      (\<not> line_present (cl i) addr \<longrightarrow> counter (cl k) \<le> counter (cl i))"
    by auto
  then show ?thesis using assms(2,3) by (auto simp: min_inv_def victim_ok_def)
qed

lemma min_step_keep:
  assumes "min_inv addr cl index is s" and "\<not> line_present (cl k) addr"
    and "state (cl k) \<noteq> CACHEL_INVALID" and "\<not> counter (cl k) < s_min_val s"
    and "counter (cl k) \<le> MAX_COUNTER"
  shows "min_inv addr cl index (is @ [k]) (s\<lparr>s_lines := l\<rparr>)"
  using assms by (auto simp: min_inv_def victim_ok_def split: if_splits)

lemma scan_body_inv:
  assumes inv: "scan_inv addr cl index is s" and k: "k \<notin> set is" and ok: "counters_ok cl"
  shows "scan_inv addr cl index (is @ [k]) (scan_body addr k s)"
proof -
  have sk: "s_lines s k = cl k" and m: "min_inv addr cl index is s" using inv k by (simp_all add: scan_inv_def)
  have pos: "0 \<le> counter (cl k)" "counter (cl k) \<le> MAX_COUNTER" using ok by (auto simp: counters_ok_def)
  have "min_inv addr cl index (is @ [k]) (scan_body addr k s)"
    using min_step_present[OF m, of k] min_step_invalid[where cl = cl and k = k and s = s]
      min_step_smaller[OF m, of k] min_step_keep[OF m, of k] pos
    by (simp add: scan_body_def Let_def sk)
  moreover have "s_lines (scan_body addr k s) = (\<lambda>i. if i \<in> set (is @ [k]) then age_line addr (cl i) else cl i)"
    using inv k by (auto simp: scan_inv_def scan_body_def Let_def sk age_line_def fun_eq_iff)
  moreover have "s_rindex (scan_body addr k s) = (if line_present (cl k) addr then int k else s_rindex s)"
    by (simp add: scan_body_def Let_def sk)
  ultimately show ?thesis using inv by (auto simp: scan_inv_def)
qed

lemma scan_fold_inv:
  assumes "counters_ok cl" and "distinct is"
  shows "scan_inv addr cl index is (fold (scan_body addr) is (scan_start cl index))"
  using assms(2)
proof (induction "is" rule: rev_induct)
  case Nil
  show ?case by (simp add: scan_inv_def min_inv_def scan_start_def)
next
  case (snoc k "is")
  then show ?case using scan_body_inv[OF _ _ assms(1)] by simp
qed

lemma scan_lines_inv:
  "counters_ok cl \<Longrightarrow> scan_inv addr cl (addr_to_index addr) (set_lines addr) (scan_lines addr cl)"
  unfolding scan_lines_fold by (rule scan_fold_inv) (auto simp: set_lines_def)

lemma scan_found:
  assumes "counters_ok cl"
  shows "s_rindex (scan_lines addr cl) > -1 \<longleftrightarrow> (\<exists>i \<in> set (set_lines addr). line_present (cl i) addr)"
    and "s_rindex (scan_lines addr cl) > -1 \<Longrightarrow>
      nat (s_rindex (scan_lines addr cl)) \<in> set (set_lines addr) \<and>
      line_present (cl (nat (s_rindex (scan_lines addr cl)))) addr"
  using scan_lines_inv[OF assms, of addr] by (auto simp: scan_inv_def split: if_splits)

lemma scan_not_found: "s_rindex (scan_lines addr cl) > -1 \<or> s_rindex (scan_lines addr cl) = -1"
  if "counters_ok cl"
  using scan_lines_inv[OF that, of addr] by (auto simp: scan_inv_def split: if_splits)

lemma set_lines_not_empty: "set (set_lines addr) \<noteq> {}"
  by (simp add: set_lines_def)

lemma scan_victim:
  assumes "counters_ok cl" and "s_rindex (scan_lines addr cl) = -1"
  shows "victim_ok addr cl (set_lines addr) (s_min_id (scan_lines addr cl))"
  using scan_lines_inv[OF assms(1), of addr] assms(2) set_lines_not_empty[of addr]
  by (auto simp: scan_inv_def min_inv_def split: if_splits)

lemma scan_result_lines:
  "counters_ok cl \<Longrightarrow> s_lines (scan_lines addr cl) =
     (\<lambda>i. if i \<in> set (set_lines addr) then age_line addr (cl i) else cl i)"
  using scan_lines_inv[of cl addr] by (simp add: scan_inv_def)

lemma age_line_fields [simp]:
  "state (age_line addr r) = state r" "tag (age_line addr r) = tag r"
  "line_present (age_line addr r) a = line_present r a"
  by (simp_all add: age_line_def line_present_def get_tag_def)

lemma scan_keeps [simp]:
  assumes "counters_ok cl"
  shows "state (s_lines (scan_lines addr cl) i) = state (cl i)"
    and "tag (s_lines (scan_lines addr cl) i) = tag (cl i)"
    and "line_present (s_lines (scan_lines addr cl) i) a = line_present (cl i) a"
  by (simp_all add: scan_result_lines[OF assms])

lemma max_counter_pos: "0 \<le> MAX_COUNTER"
  by (simp add: MAX_COUNTER_def)

lemma scan_counters_ok:
  assumes "counters_ok cl"
  shows "counters_ok (s_lines (scan_lines addr cl))"
proof -
  have "counter (cl i) - 1 \<le> MAX_COUNTER" "counter (cl i) \<le> MAX_COUNTER" "0 \<le> counter (cl i)" for i
    using assms[unfolded counters_ok_def, rule_format, of i] by auto
  then show ?thesis
    unfolding counters_ok_def scan_result_lines[OF assms] using max_counter_pos by (auto simp: age_line_def)
qed

text \<open>the cache index of an address always denotes eight lines inside the array, but only ever
  lines below 1024 of the 8192 lines that \<^verbatim>\<open>CACHE_SIZE\<close> allocates: seven eighths of the cache are
  never used.\<close>
theorem only_first_1024_lines_used:
  "addr_to_index addr mod nat CACHE_SET_SIZE = 0 \<and> addr_to_index addr + nat CACHE_SET_SIZE \<le> 1024 \<and>
   8 * 1024 = CACHE_SIZE"
  using index_bound[of addr] index_aligned[of addr] by (simp add: CACHE_SIZE_def CACHE_SET_SIZE_def)

text \<open>the write-back address computed for a victim is the line address of the memory line that the
  victim holds, when the victim lies in the set of the requested address.\<close>
theorem writeback_goes_to_the_line_held:
  assumes "line_present r a" and "addr_to_index addr = addr_to_index a"
  shows "writeback_addr r addr = line_addr a"
  using assms writeback_addr_line[of r a addr] by (simp add: line_present_def)

theorem writeback_goes_to_the_line_held_witness:
  "writeback_addr \<lparr>counter = 0, state = CACHEL_MODIFIED, tag = 0x12345, data = []\<rparr> 0x6C =
     line_addr 0x12345074"
proof -
  have "line_present \<lparr>counter = 0, state = CACHEL_MODIFIED, tag = 0x12345, data = []\<rparr> 0x12345074"
    by code_simp
  moreover have "addr_to_index 0x6C = addr_to_index 0x12345074" by code_simp
  ultimately show ?thesis by (rule writeback_goes_to_the_line_held)
qed

section \<open>The snoop lookup finds what the scan finds\<close>

lemma scan_body_rindex:
  "s_rindex (scan_body addr k s) = (if line_present (s_lines s k) addr then int k else s_rindex s)"
  by (simp add: scan_body_def Let_def)

lemma snoop_fold:
  assumes "counters_ok cl" and "distinct is"
  shows "fold (\<lambda>i r. if line_present (cl i) addr then int i else r) is (-1) =
    s_rindex (fold (scan_body addr) is (scan_start cl index))"
  using assms(2)
proof (induction "is" rule: rev_induct)
  case Nil
  show ?case by (simp add: scan_start_def)
next
  case (snoc k "is")
  let ?s = "fold (scan_body addr) is (scan_start cl index)"
  have "s_lines ?s k = cl k"
    using scan_fold_inv[OF assms(1), of "is" addr index] snoc.prems by (simp add: scan_inv_def)
  then show ?case using snoc by (simp add: scan_body_rindex)
qed

lemma snoop_lookup_eq_scan: "counters_ok cl \<Longrightarrow> snoop_lookup addr cl = s_rindex (scan_lines addr cl)"
  using snoop_fold[of cl "set_lines addr" addr "addr_to_index addr"]
  by (simp add: snoop_lookup_def scan_lines_fold Let_def CACHE_SET_SIZE_def) (simp add: set_lines_def)

section \<open>Least recently used replacement\<close>

text \<open>The updates of the hit path (line 141) and of a completed fill (lines 226 to 229).\<close>

definition use_line :: "nat \<Rightarrow> cachelines \<Rightarrow> cachelines" where
  "use_line r cl = cl(r := (cl r)\<lparr>counter := MAX_COUNTER\<rparr>)"

definition fill_line :: "nat \<Rightarrow> i32 \<Rightarrow> cl_state \<Rightarrow> cachelines \<Rightarrow> cachelines" where
  "fill_line r addr st cl =
     cl(r := (cl r)\<lparr>state := st, tag := ucast (addr_tag addr), counter := MAX_COUNTER\<rparr>)"

definition unique_tags :: "cachelines \<Rightarrow> bool" where
  "unique_tags cl \<longleftrightarrow> (\<forall>addr. \<forall>i \<in> set (set_lines addr). \<forall>j \<in> set (set_lines addr).
     line_present (cl i) addr \<longrightarrow> line_present (cl j) addr \<longrightarrow> i = j)"

text \<open>
  The history of one set: \<open>h\<close> lists the lines used, the last one first. Between two accesses the
  snooping thread may change the state of a valid line.
\<close>

inductive set_history :: "nat \<Rightarrow> nat list \<Rightarrow> cachelines \<Rightarrow> bool" for idx where
  empty: "set_history idx [] init_lines"
| hit: "set_history idx h cl \<Longrightarrow> addr_to_index addr = idx \<Longrightarrow> scan_lines addr cl = s \<Longrightarrow>
    s_rindex s > -1 \<Longrightarrow> set_history idx (nat (s_rindex s) # h) (use_line (nat (s_rindex s)) (s_lines s))"
| miss: "set_history idx h cl \<Longrightarrow> addr_to_index addr = idx \<Longrightarrow> scan_lines addr cl = s \<Longrightarrow>
    \<not> s_rindex s > -1 \<Longrightarrow> st \<noteq> CACHEL_INVALID \<Longrightarrow>
    set_history idx (s_min_id s # h) (fill_line (s_min_id s) addr st (s_lines s))"
| snoop: "set_history idx h cl \<Longrightarrow> state (cl i) \<noteq> CACHEL_INVALID \<Longrightarrow>
    set_history idx h (cl(i := (cl i)\<lparr>state := st\<rparr>))"

definition age :: "nat list \<Rightarrow> nat \<Rightarrow> nat" where
  "age h i = length (takeWhile (\<lambda>j. j \<noteq> i) h)"

definition ages_ok :: "nat \<Rightarrow> nat list \<Rightarrow> cachelines \<Rightarrow> bool" where
  "ages_ok idx h cl \<longleftrightarrow> (\<forall>i. idx \<le> i \<and> i < idx + 8 \<longrightarrow>
     (state (cl i) \<noteq> CACHEL_INVALID \<longrightarrow> i \<in> set h) \<and>
     (i \<in> set h \<longrightarrow> counter (cl i) = max 0 (MAX_COUNTER - int (age h i))))"

lemma age_Cons: "age (r # h) i = (if i = r then 0 else Suc (age h i))"
  by (simp add: age_def)

lemma fill_present:
  "line_present (fill_line r addr st cl i) a \<longleftrightarrow>
     (if i = r then st \<noteq> CACHEL_INVALID \<and> addr_tag a = addr_tag addr else line_present (cl i) a)"
  by (auto simp: fill_line_def line_present_def get_tag_def tag_roundtrip)

lemma block_index: "8 * x \<le> i \<Longrightarrow> i < 8 * x + 8 \<Longrightarrow> x = i div (8::nat)"
  using div_nat_eqI[of 8 x i] by simp

lemma set_lines_same_set:
  assumes "i \<in> set (set_lines a)" and "i \<in> set (set_lines b)"
  shows "addr_to_index a = addr_to_index b"
proof -
  have "unat (set_bits a) = i div 8" "unat (set_bits b) = i div 8"
    using assms unfolding set_lines_iff index_eq by (blast intro: block_index)+
  then show ?thesis by (simp only: index_eq)
qed

lemma unique_tags_mono:
  assumes "unique_tags cl" and "\<And>i a. line_present (cl' i) a \<Longrightarrow> line_present (cl i) a"
  shows "unique_tags cl'"
  using assms unfolding unique_tags_def by blast

lemma unique_tags_fill:
  assumes "unique_tags cl" and "r \<in> set (set_lines addr)"
    and none: "\<forall>i \<in> set (set_lines addr). \<not> line_present (cl i) addr"
  shows "unique_tags (fill_line r addr st cl)"
proof -
  have absent: "\<not> line_present (cl k) a"
    if "k \<in> set (set_lines a)" "r \<in> set (set_lines a)" "addr_tag a = addr_tag addr" for k a
  proof -
    have "addr_to_index a = addr_to_index addr" using that(2) assms(2) by (rule set_lines_same_set)
    then have "k \<in> set (set_lines addr)" using that(1) by (simp add: set_lines_iff)
    with none that(3) show ?thesis by (auto simp: line_present_def)
  qed
  have "i = j" if "i \<in> set (set_lines a)" "j \<in> set (set_lines a)"
    "line_present (fill_line r addr st cl i) a" "line_present (fill_line r addr st cl j) a" for a i j
  proof (cases "i = r \<or> j = r")
    case True
    with that absent[of i a] absent[of j a] show ?thesis by (auto simp: fill_present split: if_splits)
  next
    case False
    with that assms(1) show ?thesis by (simp add: fill_present unique_tags_def)
  qed
  then show ?thesis unfolding unique_tags_def by blast
qed

lemma unique_tags_state: "unique_tags cl \<Longrightarrow> state (cl i) \<noteq> CACHEL_INVALID \<Longrightarrow>
    unique_tags (cl(i := (cl i)\<lparr>state := st\<rparr>))"
  by (erule unique_tags_mono) (auto simp: line_present_def get_tag_def split: if_splits)

lemma unique_tags_scan: "counters_ok cl \<Longrightarrow> unique_tags cl \<Longrightarrow> unique_tags (s_lines (scan_lines addr cl))"
  by (erule unique_tags_mono) simp

lemma unique_tags_use: "unique_tags cl \<Longrightarrow> unique_tags (use_line r cl)"
  by (erule unique_tags_mono) (auto simp: line_present_def get_tag_def use_line_def split: if_splits)

lemma unique_tags_init: "unique_tags init_lines"
  by (simp add: unique_tags_def init_lines_def zero_line_def line_present_def)

lemma counters_ok_simps [simp]:
  "counters_ok init_lines"
  "counters_ok cl \<Longrightarrow> counters_ok (use_line r cl)"
  "counters_ok cl \<Longrightarrow> counters_ok (fill_line r addr st cl)"
  "counters_ok cl \<Longrightarrow> counters_ok (cl(i := (cl i)\<lparr>state := st\<rparr>))"
  using max_counter_pos
  by (auto simp: counters_ok_def use_line_def fill_line_def init_lines_def zero_line_def)

lemma scan_counter:
  assumes "counters_ok cl" and "i \<in> set (set_lines addr)" and "\<not> line_present (cl i) addr"
  shows "counter (s_lines (scan_lines addr cl) i) = max 0 (counter (cl i) - 1)"
  using assms by (simp add: scan_result_lines age_line_def)

text \<open>One more access ages every line of the set but the one used.\<close>

lemma ages_ok_access:
  assumes ages: "ages_ok idx h cl" and ok: "counters_ok cl" and idx: "addr_to_index addr = idx"
    and others: "\<And>i. i \<in> set (set_lines addr) \<Longrightarrow> line_present (cl i) addr \<Longrightarrow> i = r"
    and cl': "counter (cl' r) = MAX_COUNTER" "\<And>i. i \<noteq> r \<Longrightarrow> cl' i = s_lines (scan_lines addr cl) i"
  shows "ages_ok idx (r # h) cl'"
proof -
  have "(state (cl' i) \<noteq> CACHEL_INVALID \<longrightarrow> i \<in> set (r # h)) \<and>
     (i \<in> set (r # h) \<longrightarrow> counter (cl' i) = max 0 (MAX_COUNTER - int (age (r # h) i)))"
    if "idx \<le> i" "i < idx + 8" for i
  proof (cases "i = r")
    case True
    then show ?thesis using cl'(1) max_counter_pos by (simp add: age_Cons)
  next
    case False
    have "i \<in> set (set_lines addr)" using that idx by (simp add: set_lines_iff)
    moreover from this have "\<not> line_present (cl i) addr" using False others by blast
    ultimately have "counter (cl' i) = max 0 (counter (cl i) - 1)" "state (cl' i) = state (cl i)"
      using cl'(2)[OF False] ok by (simp_all add: scan_counter)
    then show ?thesis using ages that False by (auto simp: ages_ok_def age_Cons)
  qed
  then show ?thesis unfolding ages_ok_def by blast
qed

lemma set_history_inv:
  "set_history idx h cl \<Longrightarrow> counters_ok cl \<and> unique_tags cl \<and> ages_ok idx h cl"
proof (induction rule: set_history.induct)
  case empty
  show ?case by (simp add: unique_tags_init ages_ok_def) (simp add: init_lines_def zero_line_def)
next
  case (hit h cl addr s)
  let ?r = "nat (s_rindex s)"
  have ok: "counters_ok cl" and u: "unique_tags cl" using hit by auto
  have r: "?r \<in> set (set_lines addr)" "line_present (cl ?r) addr"
    using scan_found(2)[OF ok, of addr] hit by auto
  have "i = ?r" if "i \<in> set (set_lines addr)" "line_present (cl i) addr" for i
    using u r that by (auto simp: unique_tags_def)
  then have "ages_ok idx (?r # h) (use_line ?r (s_lines s))"
    using hit by (intro ages_ok_access[of idx h cl addr]) (auto simp: use_line_def)
  then show ?case
    using hit by (auto simp: unique_tags_use unique_tags_scan scan_counters_ok)
next
  case (miss h cl addr s st)
  let ?r = "s_min_id s"
  have ok: "counters_ok cl" and u: "unique_tags cl" using miss by auto
  have none: "\<forall>i \<in> set (set_lines addr). \<not> line_present (cl i) addr"
    using scan_found(1)[OF ok, of addr] miss by auto
  have "s_rindex (scan_lines addr cl) = -1" using scan_not_found[OF ok, of addr] miss by auto
  then have r: "?r \<in> set (set_lines addr)" using scan_victim[OF ok, of addr] miss by (simp add: victim_ok_def)
  have "ages_ok idx (?r # h) (fill_line ?r addr st (s_lines s))"
    using miss none by (intro ages_ok_access[of idx h cl addr]) (auto simp: fill_line_def)
  moreover have "unique_tags (fill_line ?r addr st (s_lines s))"
    using unique_tags_fill[OF unique_tags_scan[OF ok u] r] none ok miss by auto
  ultimately show ?case using miss by (auto simp: scan_counters_ok)
next
  case (snoop h cl i st)
  have "ages_ok idx h (cl(i := (cl i)\<lparr>state := st\<rparr>))" using snoop by (simp add: ages_ok_def)
  then show ?case using snoop unique_tags_state counters_ok_simps(4) by blast
qed

text \<open>C38: on a miss in a full set, the line chosen for replacement is a least recently used one among
  the lines used within the last \<open>MAX_COUNTER\<close> accesses to the set, whatever the snooping thread did to
  the states in between (older lines have all reached counter 0 and are indistinguishable).\<close>
theorem victim_least_recently_used:
  assumes "set_history idx h cl" and "addr_to_index addr = idx" and "s_rindex (scan_lines addr cl) = -1"
    and "\<forall>i \<in> set (set_lines addr). state (cl i) \<noteq> CACHEL_INVALID"
    and "i \<in> set (set_lines addr)" and "int (age h i) < MAX_COUNTER"
  shows "age h i \<le> age h (s_min_id (scan_lines addr cl))"
proof -
  let ?v = "s_min_id (scan_lines addr cl)"
  have inv: "counters_ok cl" "ages_ok idx h cl" using set_history_inv[OF assms(1)] by auto
  have "victim_ok addr cl (set_lines addr) ?v" using scan_victim inv assms(3) by auto
  moreover have "\<not> line_present (cl i) addr" using scan_found(1)[OF inv(1), of addr] assms(3,5) by auto
  ultimately have le: "counter (cl ?v) \<le> counter (cl i)" and v: "?v \<in> set (set_lines addr)"
    using assms(4,5) by (auto simp: victim_ok_def)
  have "counter (cl k) = max 0 (MAX_COUNTER - int (age h k))" if "k \<in> set (set_lines addr)" for k
    using inv(2) assms(2,4) that by (auto simp: ages_ok_def set_lines_iff)
  from this[OF v] this[OF assms(5)] le assms(6) show ?thesis by linarith
qed

section \<open>A set filled by eight misses\<close>

text \<open>
  The witness of the replacement theorem: starting from the cleared array, one read of each of the
  first eight multiples of the page size fills set 0.
\<close>

lemma demo_tags: "k < 9 \<Longrightarrow> addr_tag (of_nat k * 0x1000) = of_nat k \<and> addr_to_index (of_nat k * 0x1000) = 0"
proof -
  have "list_all (\<lambda>k. addr_tag (of_nat k * 0x1000) = of_nat k \<and> addr_to_index (of_nat k * 0x1000) = 0) [0 ..< 9]"
    by code_simp
  then show "k < 9 \<Longrightarrow> addr_tag (of_nat k * 0x1000) = of_nat k \<and> addr_to_index (of_nat k * 0x1000) = 0"
    by (simp add: list_all_iff)
qed
lemma small_word_eq: "k < 9 \<Longrightarrow> n < 9 \<Longrightarrow> (of_nat k :: i32) = of_nat n \<longleftrightarrow> k = n"
  by (simp add: word_unat_eq_iff unsigned_of_nat take_bit_nat_eq_self)

definition demo_filled :: "nat \<Rightarrow> nat list \<Rightarrow> cachelines \<Rightarrow> bool" where
  "demo_filled n h cl \<longleftrightarrow> set_history 0 h cl \<and>
     n \<le> card {i. i < 8 \<and> state (cl i) \<noteq> CACHEL_INVALID} \<and>
     (\<forall>i<8. state (cl i) \<noteq> CACHEL_INVALID \<longrightarrow> (\<exists>k<n. get_tag (cl i) = of_nat k))"

lemma demo_set: "n < 9 \<Longrightarrow> set (set_lines (of_nat n * 0x1000)) = {0..<8}"
  by (simp add: set_lines_def demo_tags)

lemma demo_miss:
  assumes "demo_filled n h cl" and "n < 9"
  shows "s_rindex (scan_lines (of_nat n * 0x1000) cl) = -1"
proof -
  have ok: "counters_ok cl" using assms(1) set_history_inv by (auto simp: demo_filled_def)
  have "\<not> line_present (cl i) (of_nat n * 0x1000)" if "i < 8" for i
    using assms that small_word_eq[of _ n] by (fastforce simp: demo_filled_def line_present_def demo_tags)
  then show ?thesis
    using scan_found(1)[OF ok, of "of_nat n * 0x1000"] scan_not_found[OF ok, of "of_nat n * 0x1000"]
    by (auto simp: demo_set assms(2))
qed

lemma demo_fill_step:
  assumes d: "demo_filled n h cl" and n: "n < 8" and st: "st \<noteq> CACHEL_INVALID"
    and s: "s = scan_lines (of_nat n * 0x1000) cl"
  shows "demo_filled (Suc n) (s_min_id s # h) (fill_line (s_min_id s) (of_nat n * 0x1000) st (s_lines s))"
proof -
  let ?a = "of_nat n * 0x1000 :: i32"
  let ?s = "scan_lines ?a cl"
  let ?v = "s_min_id ?s"
  let ?cl = "fill_line ?v ?a st (s_lines ?s)"
  let ?V = "\<lambda>cl. {i. i < 8 \<and> state (cl i) \<noteq> CACHEL_INVALID}"
  have ok: "counters_ok cl" using d set_history_inv by (auto simp: demo_filled_def)
  have tg: "addr_tag ?a = of_nat n" using demo_tags[of n] n by simp
  have miss: "s_rindex ?s = -1" using demo_miss[OF d] n by simp
  have vic: "victim_ok ?a cl [0..<8] ?v"
    using scan_victim[OF ok miss] n by (simp add: set_lines_def demo_tags)
  then have v: "?v < 8" by (simp add: victim_ok_def)
  have hist: "set_history 0 (?v # h) ?cl"
    using d miss n st by (intro set_history.miss[OF _ _ refl]) (auto simp: demo_filled_def demo_tags)
  have V: "?V ?cl = insert ?v (?V cl)" using v ok st by (auto simp: fill_line_def)
  have "Suc n \<le> card (?V ?cl)"
  proof (cases "?v \<in> ?V cl")
    case True
    then have "\<not> (\<exists>i<8. state (cl i) = CACHEL_INVALID)" using vic by (auto simp: victim_ok_def split: if_splits)
    then have "?V ?cl = {..<8}" using V v by auto
    then show ?thesis using n by simp
  next
    case False
    then show ?thesis unfolding V using d by (simp add: demo_filled_def)
  qed
  moreover have "get_tag (?cl i) = (if i = ?v then of_nat n else get_tag (cl i))" for i
    using tag_roundtrip[of ?a] ok by (simp add: fill_line_def get_tag_def tg)
  ultimately show ?thesis
    using d hist ok unfolding demo_filled_def s
    by (auto simp: less_Suc_eq) (auto simp: fill_line_def split: if_splits)
qed

lemma demo_full: "n \<le> 8 \<Longrightarrow> \<exists>h cl. demo_filled n h cl"
proof (induction n)
  case 0
  have "demo_filled 0 [] init_lines"
    by (simp add: demo_filled_def set_history.empty) (simp add: init_lines_def zero_line_def)
  then show ?case by blast
next
  case (Suc n)
  then show ?case using demo_fill_step[of n _ _ CACHEL_SHARED] by fastforce
qed

lemma demo_full_set: "\<exists>h cl. demo_filled 8 h cl \<and> (\<forall>i<8. state (cl i) \<noteq> CACHEL_INVALID)"
proof -
  obtain h cl where d: "demo_filled 8 h cl" using demo_full[of 8] by auto
  have "card {i. i < 8 \<and> state (cl i) \<noteq> CACHEL_INVALID} \<le> card {..<8::nat}" by (rule card_mono) auto
  then have "card {i. i < 8 \<and> state (cl i) \<noteq> CACHEL_INVALID} = 8" using d by (simp add: demo_filled_def)
  then show ?thesis using d by (auto simp: card_less_eq_all)
qed

lemma set_history_head:
  "set_history idx (r # h) cl \<Longrightarrow> idx \<le> r \<and> r < idx + 8"
proof (induction "r # h" cl arbitrary: r h rule: set_history.induct)
  case (hit h' cl addr s)
  then show ?case using scan_found(2)[of cl addr] set_history_inv[OF hit(1)] by (auto simp: set_lines_iff)
next
  case (miss h' cl addr s st)
  then show ?case using scan_victim[of cl addr] scan_not_found[of cl addr] set_history_inv[OF miss(1)]
    by (auto simp: victim_ok_def set_lines_iff)
qed simp

theorem victim_least_recently_used_witness:
  "\<exists>h cl. set_history 0 h cl \<and> s_rindex (scan_lines 0x8000 cl) = -1 \<and> 
     age h (hd h) \<le> age h (s_min_id (scan_lines 0x8000 cl))"
proof -
  obtain h cl where d: "demo_filled 8 h cl" and full: "\<forall>i<8. state (cl i) \<noteq> CACHEL_INVALID"
    using demo_full_set by blast
  have hist: "set_history 0 h cl" using d by (simp add: demo_filled_def)
  have set: "set (set_lines 0x8000) = {0..<8}" "addr_to_index 0x8000 = 0"
    using demo_set[of 8] demo_tags[of 8] by simp_all
  have miss: "s_rindex (scan_lines 0x8000 cl) = -1" using demo_miss[OF d] by simp
  have "0 \<in> set h" using set_history_inv[OF hist] full by (auto simp: ages_ok_def)
  then have hd: "h = hd h # tl h" by (cases h) auto
  then have "hd h < 8" using set_history_head[of 0 "hd h" "tl h" cl] hist by auto
  moreover have "age h (hd h) = 0" using hd by (metis age_Cons)
  ultimately have "age h (hd h) \<le> age h (s_min_id (scan_lines 0x8000 cl))"
    using victim_least_recently_used[OF hist set(2) miss, of "hd h"] full set(1)
    by (simp add: MAX_COUNTER_def)
  then show ?thesis using hist miss by blast
qed

end
