(* ===== verification/Bus.thy ===== *)
theory Bus
  imports Moesi_Types
begin

text \<open>
  \<^verbatim>\<open>src/assignment_1/Bus.h\<close>. The wires hold \<open>None\<close> while they carry the string of
  \<^verbatim>\<open>Z\<close>s and \<open>Some v\<close> while a thread drives \<open>v\<close>; the number that \<^verbatim>\<open>to_int()\<close> of the
  SystemC library yields for an undriven wire is the parameter \<open>z\<close>. Every bus method that sleeps is
  cut at its \<^verbatim>\<open>wait\<close>s: \<open>..._begin\<close> is the part up to the first \<^verbatim>\<open>wait\<close>, \<open>..._end\<close>
  the part after the last. The methods that watch the wires are recursions over the list of bus
  states seen at their successive wake-ups; \<open>None\<close> means that the thread still sleeps. The
  \<^verbatim>\<open>std::mutex\<close> is a flag (\<^verbatim>\<open>try_lock\<close> succeeds exactly when it is free).
\<close>

type_synonym wire = "i32 option"

record bus =
  Port_BusAddr :: wire
  Port_BusFunc :: wire
  Port_ProcID :: wire
  Port_SourceID :: wire
  bus_mutex :: bool
  intended :: bool
  c2c_intended :: bool

definition new_bus :: bus where
  "new_bus = \<lparr>Port_BusAddr = None, Port_BusFunc = None, Port_ProcID = None, Port_SourceID = None,
     bus_mutex = False, intended = False, c2c_intended = False\<rparr>"

definition to_int :: "i32 \<Rightarrow> wire \<Rightarrow> i32" where
  "to_int z w = (case w of None \<Rightarrow> z | Some v \<Rightarrow> v)"

section \<open>Sending requests\<close>

text \<open>\<^verbatim>\<open>read\<close>, \<^verbatim>\<open>write\<close> and \<^verbatim>\<open>cacheline_invalidate\<close> up to their \<^verbatim>\<open>wait\<close>.\<close>

definition drive :: "mem_function \<Rightarrow> i32 \<Rightarrow> i32 \<Rightarrow> bus \<Rightarrow> bus" where
  "drive f proc_id addr b =
     b\<lparr>Port_BusAddr := Some addr, Port_BusFunc := Some (func_code f), Port_ProcID := Some proc_id\<rparr>"

definition bus_busy :: "bus \<Rightarrow> bool" where
  "bus_busy b \<longleftrightarrow> c2c_intended b \<or> intended b \<or> bus_mutex b"

definition read_begin :: "i32 \<Rightarrow> i32 \<Rightarrow> bus \<Rightarrow> bool \<times> bus" where
  "read_begin proc_id addr b =
     (if bus_busy b then (False, b) else (True, drive FUNC_READ proc_id addr (b\<lparr>bus_mutex := True\<rparr>)))"

definition write_begin :: "i32 \<Rightarrow> i32 \<Rightarrow> bus \<Rightarrow> bool \<times> bus" where
  "write_begin proc_id addr b =
     (if bus_busy b then (False, b) else (True, drive FUNC_WRITE proc_id addr (b\<lparr>bus_mutex := True\<rparr>)))"

definition cacheline_invalidate_begin :: "i32 \<Rightarrow> i32 \<Rightarrow> bus \<Rightarrow> bool \<times> bus" where
  "cacheline_invalidate_begin addr proc_id b =
     (if bus_busy b then (False, b)
      else (True, drive FUNC_INVALIDATE proc_id addr (b\<lparr>bus_mutex := True\<rparr>)))"

text \<open>The common end of the three: release the wires (not \<^verbatim>\<open>Port_SourceID\<close>), then the mutex.\<close>

definition request_end :: "bus \<Rightarrow> bus" where
  "request_end b =
     b\<lparr>Port_BusAddr := None, Port_ProcID := None, Port_BusFunc := None, bus_mutex := False\<rparr>"

section \<open>Responses\<close>

text \<open>\<^verbatim>\<open>cache_to_cache\<close>: the flag, the attempt to lock, the transfer and the new state of the line.\<close>

definition c2c_begin :: "bus \<Rightarrow> bus" where
  "c2c_begin b = b\<lparr>c2c_intended := True\<rparr>"

definition c2c_clstate :: "cl_state \<Rightarrow> cl_state" where
  "c2c_clstate st =
     (case st of CACHEL_MODIFIED \<Rightarrow> CACHEL_OWNED | CACHEL_EXCLUSIVE \<Rightarrow> CACHEL_SHARED | _ \<Rightarrow> st)"

definition c2c_try :: "i32 \<Rightarrow> i32 \<Rightarrow> i32 \<Rightarrow> cl_state \<Rightarrow> bus \<Rightarrow> (bus \<times> cl_state) option" where
  "c2c_try proc_id source_id addr clstate b =
     (if bus_mutex b then None
      else Some
        ((drive (if clstate = CACHEL_REQUESTED then FUNC_REQUESTED else FUNC_RESPONSE) proc_id addr
            (b\<lparr>bus_mutex := True\<rparr>))\<lparr>Port_SourceID := Some source_id\<rparr>,
         c2c_clstate clstate))"

definition c2c_end :: "bus \<Rightarrow> bus" where
  "c2c_end b =
     b\<lparr>Port_BusAddr := None, Port_ProcID := None, Port_SourceID := None, Port_BusFunc := None,
       bus_mutex := False, c2c_intended := False\<rparr>"

text \<open>
  \<^verbatim>\<open>memory_response\<close>: wait until no cache-to-cache transfer is announced, announce the
  response, wait for the mutex, transfer.
\<close>

definition mem_announce :: "bus \<Rightarrow> bus option" where
  "mem_announce b = (if c2c_intended b then None else Some (b\<lparr>intended := True\<rparr>))"

definition mem_try :: "i32 \<Rightarrow> i32 \<Rightarrow> bus \<Rightarrow> bus \<times> bool" where
  "mem_try proc_id addr b =
     (if bus_mutex b then (b\<lparr>intended := True\<rparr>, False)
      else ((drive FUNC_RESPONSE proc_id addr (b\<lparr>bus_mutex := True\<rparr>))
              \<lparr>Port_SourceID := Some DRAM_IDENTIFIER\<rparr>, True))"

definition mem_end :: "bus \<Rightarrow> bus" where
  "mem_end b =
     b\<lparr>Port_BusAddr := None, Port_ProcID := None, Port_SourceID := None, Port_BusFunc := None,
       bus_mutex := False, intended := False\<rparr>"

section \<open>Watching the wires\<close>

definition func_is :: "i32 \<Rightarrow> bus \<Rightarrow> mem_function \<Rightarrow> bool" where
  "func_is z b f \<longleftrightarrow> to_int z (Port_BusFunc b) = func_code f"

text \<open>The two nested loops of \<^verbatim>\<open>wait_for_response\<close>; \<open>res\<close> is its local variable.\<close>

fun wfr_loop :: "i32 \<Rightarrow> i32 \<Rightarrow> i32 \<Rightarrow> cl_state \<Rightarrow> bus list \<Rightarrow> (cl_state \<times> bus list) option" where
  "wfr_loop z proc_id addr res [] = None"
| "wfr_loop z proc_id addr res (b # bs) =
     (if to_int z (Port_BusAddr b) \<noteq> addr \<or> to_int z (Port_ProcID b) \<noteq> proc_id \<or>
         \<not> func_is z b FUNC_RESPONSE \<and> \<not> func_is z b FUNC_REQUESTED
      then wfr_loop z proc_id addr res bs
      else if func_is z b FUNC_REQUESTED then wfr_loop z proc_id addr CACHEL_SHARED bs
      else if to_int z (Port_SourceID b) \<noteq> DRAM_IDENTIFIER then Some (CACHEL_SHARED, bs)
      else Some (res, bs))"

definition wait_for_response :: "i32 \<Rightarrow> i32 \<Rightarrow> i32 \<Rightarrow> bus list \<Rightarrow> (cl_state \<times> bus list) option" where
  "wait_for_response z proc_id addr = wfr_loop z proc_id addr CACHEL_EXCLUSIVE"

definition wires_request :: "i32 \<Rightarrow> bus \<Rightarrow> request" where
  "wires_request z b =
     \<lparr>r_id = to_int z (Port_ProcID b), r_addr = to_int z (Port_BusAddr b),
      r_func = to_int z (Port_BusFunc b)\<rparr>"

fun wait_for_any :: "i32 \<Rightarrow> i32 \<Rightarrow> bus list \<Rightarrow> (request \<times> bus list) option" where
  "wait_for_any z proc_id [] = None"
| "wait_for_any z proc_id (b # bs) =
     (if \<not> func_is z b FUNC_INVALIDATE \<and> \<not> func_is z b FUNC_WRITE \<and> \<not> func_is z b FUNC_READ \<or>
         to_int z (Port_ProcID b) = proc_id
      then wait_for_any z proc_id bs
      else Some (wires_request z b, bs))"

fun get_next_request :: "i32 \<Rightarrow> bus list \<Rightarrow> (request \<times> bus list) option" where
  "get_next_request z [] = None"
| "get_next_request z (b # bs) =
     (if func_is z b FUNC_RESPONSE \<or> func_is z b FUNC_NOTHING then get_next_request z bs
      else Some (wires_request z b, bs))"

section \<open>What the watchers see\<close>

definition reply_for :: "i32 \<Rightarrow> i32 \<Rightarrow> i32 \<Rightarrow> mem_function \<Rightarrow> bus \<Rightarrow> bool" where
  "reply_for z proc_id addr f b \<longleftrightarrow>
     to_int z (Port_BusAddr b) = addr \<and> to_int z (Port_ProcID b) = proc_id \<and> func_is z b f"

definition from_dram :: "i32 \<Rightarrow> bus \<Rightarrow> bool" where
  "from_dram z b \<longleftrightarrow> to_int z (Port_SourceID b) = DRAM_IDENTIFIER"

lemma func_is_unique: "func_is z b f \<Longrightarrow> func_is z b g \<Longrightarrow> f = g"
  by (simp add: func_is_def)

lemma wfr_loop_Some:
  assumes "wfr_loop z proc_id addr res bs = Some (st, rest)" and "res \<in> {CACHEL_EXCLUSIVE, CACHEL_SHARED}"
  shows "\<exists>pre b. bs = pre @ b # rest \<and> reply_for z proc_id addr FUNC_RESPONSE b \<and>
    (\<forall>c \<in> set pre. \<not> reply_for z proc_id addr FUNC_RESPONSE c) \<and>
    st = (if res = CACHEL_EXCLUSIVE \<and> from_dram z b \<and>
             (\<forall>c \<in> set pre. \<not> reply_for z proc_id addr FUNC_REQUESTED c)
          then CACHEL_EXCLUSIVE else CACHEL_SHARED)"
  using assms
proof (induction z proc_id addr res bs rule: wfr_loop.induct)
  case (2 z proc_id addr res b bs)
  consider (skip) "\<not> reply_for z proc_id addr FUNC_RESPONSE b" "\<not> reply_for z proc_id addr FUNC_REQUESTED b"
    | (notify) "reply_for z proc_id addr FUNC_REQUESTED b"
    | (reply) "reply_for z proc_id addr FUNC_RESPONSE b"
    by blast
  then show ?case
  proof cases
    case skip
    then have "wfr_loop z proc_id addr res bs = Some (st, rest)"
      using 2(3) by (auto simp: reply_for_def split: if_splits)
    moreover have "to_int z (Port_BusAddr b) \<noteq> addr \<or> to_int z (Port_ProcID b) \<noteq> proc_id \<or>
         \<not> func_is z b FUNC_RESPONSE \<and> \<not> func_is z b FUNC_REQUESTED"
      using skip by (auto simp: reply_for_def)
    ultimately obtain pre c where "bs = pre @ c # rest" "reply_for z proc_id addr FUNC_RESPONSE c"
      "\<forall>c \<in> set pre. \<not> reply_for z proc_id addr FUNC_RESPONSE c"
      "st = (if res = CACHEL_EXCLUSIVE \<and> from_dram z c \<and>
             (\<forall>c \<in> set pre. \<not> reply_for z proc_id addr FUNC_REQUESTED c)
          then CACHEL_EXCLUSIVE else CACHEL_SHARED)"
      using 2(1) 2(4) by blast
    with skip show ?thesis by (intro exI[of _ "b # pre"] exI[of _ c]) auto
  next
    case notify
    then have f: "\<not> (to_int z (Port_BusAddr b) \<noteq> addr \<or> to_int z (Port_ProcID b) \<noteq> proc_id \<or>
         \<not> func_is z b FUNC_RESPONSE \<and> \<not> func_is z b FUNC_REQUESTED)" "func_is z b FUNC_REQUESTED"
      by (auto simp: reply_for_def)
    then have "wfr_loop z proc_id addr CACHEL_SHARED bs = Some (st, rest)" using 2(3) by simp
    then obtain pre c where "bs = pre @ c # rest" "reply_for z proc_id addr FUNC_RESPONSE c"
      "\<forall>c \<in> set pre. \<not> reply_for z proc_id addr FUNC_RESPONSE c" "st = CACHEL_SHARED"
      using 2(2)[OF f] by auto
    moreover have "\<not> reply_for z proc_id addr FUNC_RESPONSE b"
      using f(2) func_is_unique[of z b FUNC_REQUESTED FUNC_RESPONSE] by (auto simp: reply_for_def)
    ultimately show ?thesis using notify by (intro exI[of _ "b # pre"] exI[of _ c]) auto
  next
    case reply
    then have "\<not> func_is z b FUNC_REQUESTED"
      using func_is_unique[of z b FUNC_REQUESTED FUNC_RESPONSE] by (auto simp: reply_for_def)
    with reply 2(3,4) show ?thesis
      by (intro exI[of _ "[]"] exI[of _ b]) (auto simp: reply_for_def from_dram_def split: if_splits)
  qed
qed simp

lemma wfr_loop_None: "wfr_loop z proc_id addr res bs = None \<longleftrightarrow>
    (\<forall>b \<in> set bs. \<not> reply_for z proc_id addr FUNC_RESPONSE b)"
  by (induction z proc_id addr res bs rule: wfr_loop.induct)
     (auto simp: reply_for_def dest: func_is_unique)

text \<open>\<^verbatim>\<open>wait_for_response\<close> returns as soon as a response for the caller's processor and address
  is on the bus, and its result is EXCLUSIVE exactly when that response comes from the DRAM and no
  other cache has announced before that it requested the line too; otherwise it is SHARED.\<close>
theorem wait_for_response_state:
  "(wait_for_response z proc_id addr bs = None \<longleftrightarrow>
      (\<forall>b \<in> set bs. \<not> reply_for z proc_id addr FUNC_RESPONSE b)) \<and>
   (\<forall>st rest. wait_for_response z proc_id addr bs = Some (st, rest) \<longrightarrow>
      (\<exists>pre b. bs = pre @ b # rest \<and> reply_for z proc_id addr FUNC_RESPONSE b \<and>
         (\<forall>c \<in> set pre. \<not> reply_for z proc_id addr FUNC_RESPONSE c) \<and>
         st = (if from_dram z b \<and> (\<forall>c \<in> set pre. \<not> reply_for z proc_id addr FUNC_REQUESTED c)
               then CACHEL_EXCLUSIVE else CACHEL_SHARED)))"
  using wfr_loop_Some[of z proc_id addr CACHEL_EXCLUSIVE bs]
  by (simp add: wait_for_response_def wfr_loop_None)

theorem wait_for_response_state_witness:
  "let b = drive FUNC_RESPONSE 1 0x40 new_bus;
       dram = b\<lparr>Port_SourceID := Some DRAM_IDENTIFIER\<rparr>;
       told = (drive FUNC_REQUESTED 1 0x40 new_bus)\<lparr>Port_SourceID := Some 2\<rparr>
   in wait_for_response 0 1 0x40 [new_bus, dram] = Some (CACHEL_EXCLUSIVE, []) \<and>
      (\<exists>pre c. [new_bus, told, dram] = pre @ c # [] \<and> reply_for 0 1 0x40 FUNC_RESPONSE c \<and>
        CACHEL_SHARED = (if from_dram 0 c \<and> (\<forall>d \<in> set pre. \<not> reply_for 0 1 0x40 FUNC_REQUESTED d)
               then CACHEL_EXCLUSIVE else CACHEL_SHARED))"
proof -
  let ?dram = "(drive FUNC_RESPONSE 1 0x40 new_bus)\<lparr>Port_SourceID := Some DRAM_IDENTIFIER\<rparr>"
  let ?told = "(drive FUNC_REQUESTED 1 0x40 new_bus)\<lparr>Port_SourceID := Some 2\<rparr>"
  have 1: "wait_for_response 0 1 0x40 [new_bus, ?dram] = Some (CACHEL_EXCLUSIVE, [])"
    and 2: "wait_for_response 0 1 0x40 [new_bus, ?told, ?dram] = Some (CACHEL_SHARED, [])"
    by code_simp+
  from wait_for_response_state[of 0 1 "0x40" "[new_bus, ?told, ?dram]"] 2
  obtain pre c where "[new_bus, ?told, ?dram] = pre @ c # []" "reply_for 0 1 0x40 FUNC_RESPONSE c"
      "CACHEL_SHARED = (if from_dram 0 c \<and> (\<forall>d \<in> set pre. \<not> reply_for 0 1 0x40 FUNC_REQUESTED d)
               then CACHEL_EXCLUSIVE else CACHEL_SHARED)"
    by blast
  with 1 show ?thesis unfolding Let_def by blast
qed

lemma wait_for_any_Some:
  "wait_for_any z proc_id bs = Some (r, rest) \<Longrightarrow>
   r_id r \<noteq> proc_id \<and> r_func r \<in> func_code ` {FUNC_READ, FUNC_WRITE, FUNC_INVALIDATE}"
  by (induction z proc_id bs rule: wait_for_any.induct)
     (auto simp: wires_request_def func_is_def split: if_splits)

lemma get_next_request_first:
  "(\<forall>c \<in> set pre. func_is z c FUNC_RESPONSE \<or> func_is z c FUNC_NOTHING) \<Longrightarrow>
   \<not> func_is z b FUNC_RESPONSE \<Longrightarrow> \<not> func_is z b FUNC_NOTHING \<Longrightarrow>
   get_next_request z (pre @ b # rest) = Some (wires_request z b, rest)"
  by (induction pre) auto

end
