(* ===== verification/Cache_Execute.thy ===== *)
theory Cache_Execute
  imports Cache_Lines Bus Trace_Stats
begin

text \<open>
  The two threads of \<^verbatim>\<open>SingleCache\<close> (\<^verbatim>\<open>src/assignment_1/Cache.h\<close>). The snooping
  thread is the handler \<open>snoop_handle\<close> for one request seen on the bus. The execute thread is a
  machine that runs from one \<^verbatim>\<open>wait\<close> to the next: \<open>exec_resume\<close> is one wake-up, given the
  bus as the thread finds it. The names of the program points follow the lines of the source; the
  \<^verbatim>\<open>goto\<close>s are calls of \<open>x_check\<close> and \<open>x_post_writeback\<close>. The fields \<open>done_log\<close>,
  \<open>stat_log\<close> and \<open>access_rate\<close> record the writes to \<^verbatim>\<open>Port_Done\<close>, the statistics calls and the
  increments of \<^verbatim>\<open>_main_memory_access_rate\<close>. Console output, \<^verbatim>\<open>sched_yield\<close> and the
  measurement of host time are left out.
\<close>

section \<open>The snooping thread\<close>

text \<open>The arguments of a spawned \<^verbatim>\<open>cache_to_cache\<close>, with the line whose state it may change.\<close>

record c2c_job =
  j_proc_id :: i32
  j_source_id :: i32
  j_addr :: i32
  j_line :: nat

definition set_state :: "nat \<Rightarrow> cl_state \<Rightarrow> cachelines \<Rightarrow> cachelines" where
  "set_state k st cl = cl(k := (cl k)\<lparr>state := st\<rparr>)"

definition snoop_handle :: "i32 \<Rightarrow> request \<Rightarrow> cachelines \<Rightarrow> cachelines \<times> c2c_job option" where
  "snoop_handle cid req cl =
     (let rindex = snoop_lookup (r_addr req) cl; k = nat rindex in
      if rindex > -1 then
        if r_func req = func_code FUNC_WRITE \<or> r_func req = func_code FUNC_INVALIDATE
        then (set_state k CACHEL_INVALID cl, None)
        else if r_func req = func_code FUNC_READ
        then (if state (cl k) = CACHEL_REQUESTED then set_state k CACHEL_SHARED cl else cl,
              Some \<lparr>j_proc_id = r_id req, j_source_id = cid, j_addr = r_addr req, j_line = k\<rparr>)
        else (cl, None)
      else (cl, None))"

section \<open>The execute thread\<close>

datatype exec_pc =
  X_Func                 \<comment> \<open>97: waiting for the CPU\<close>
| X_Lookup               \<comment> \<open>138: the cycle of the lookup\<close>
| X_Hit_Inv_Drive        \<comment> \<open>152: inside \<^verbatim>\<open>cacheline_invalidate\<close>, which has the bus\<close>
| X_Hit_Inv_Clk          \<comment> \<open>153\<close>
| X_Hit_Inv_Neg          \<comment> \<open>154\<close>
| X_Read_Neg             \<comment> \<open>175\<close>
| X_Rescan               \<comment> \<open>159 and 179, before \<^verbatim>\<open>goto check_the_cachelinestat\<close>\<close>
| X_Wb_Drive             \<comment> \<open>202: inside \<^verbatim>\<open>write\<close>, which has the bus\<close>
| X_Wb_Clk               \<comment> \<open>204\<close>
| X_Wb_Wait cl_state     \<comment> \<open>211: inside \<^verbatim>\<open>wait_for_response\<close> with its \<^verbatim>\<open>res\<close>\<close>
| X_Rd_Drive             \<comment> \<open>221: inside \<^verbatim>\<open>read\<close>, which has the bus\<close>
| X_Rd_Clk               \<comment> \<open>221\<close>
| X_Rd_Wait cl_state     \<comment> \<open>226\<close>
| X_Miss_Inv_Drive       \<comment> \<open>235\<close>
| X_Miss_Inv_Clk         \<comment> \<open>236\<close>
| X_Miss_Inv_Neg         \<comment> \<open>237\<close>
| X_Refetch              \<comment> \<open>241, before \<^verbatim>\<open>goto _post_writeback\<close>\<close>
| X_Done                 \<comment> \<open>173, 186, 251 and 257: the cycle after \<^verbatim>\<open>Port_Done\<close>\<close>

record core =
  core_id :: i32
  lines :: cachelines
  x_pc :: exec_pc
  x_f :: mem_function
  x_addr :: i32
  x_rindex :: int
  x_min_id :: nat
  x_wbaddr :: i32
  done_log :: "ret_code list"
  stat_log :: "stat_event list"
  access_rate :: u32

definition new_core :: "i32 \<Rightarrow> core" where
  "new_core cid =
     \<lparr>core_id = cid, lines = init_lines, x_pc = X_Func, x_f = FUNC_NOTHING, x_addr = 0, x_rindex = -1,
      x_min_id = 0, x_wbaddr = 0, done_log = [], stat_log = [], access_rate = 0\<rparr>"

definition line_state :: "core \<Rightarrow> nat \<Rightarrow> cl_state" where
  "line_state c k = state (lines c k)"

definition finish :: "ret_code \<Rightarrow> stat_event \<Rightarrow> core \<Rightarrow> core" where
  "finish rc ev c =
     c\<lparr>stat_log := stat_log c @ [ev], done_log := done_log c @ [rc], x_pc := X_Done\<rparr>"

text \<open>The scan at the label \<^verbatim>\<open>check_the_cachelinestat\<close>.\<close>

definition x_check :: "core \<Rightarrow> core" where
  "x_check c =
     (let s = scan_lines (x_addr c) (lines c) in
      c\<lparr>lines := s_lines s, x_rindex := s_rindex s, x_min_id := s_min_id s, x_pc := X_Lookup\<rparr>)"

definition x_start :: "mem_function \<Rightarrow> i32 \<Rightarrow> core \<Rightarrow> core" where
  "x_start f addr c = x_check (c\<lparr>x_f := f, x_addr := addr\<rparr>)"

text \<open>One attempt to broadcast the invalidation, on the hit path and on the miss path.\<close>

definition x_hit_inv :: "bus \<Rightarrow> core \<Rightarrow> bus \<times> core" where
  "x_hit_inv b c =
     (case cacheline_invalidate_begin (x_addr c) (core_id c) b of (ok, b') \<Rightarrow>
        (b', c\<lparr>x_pc := (if ok then X_Hit_Inv_Drive else X_Hit_Inv_Clk)\<rparr>))"

definition x_miss_inv :: "bus \<Rightarrow> core \<Rightarrow> bus \<times> core" where
  "x_miss_inv b c =
     (case cacheline_invalidate_begin (x_addr c) (core_id c) b of (ok, b') \<Rightarrow>
        (b', c\<lparr>x_pc := (if ok then X_Miss_Inv_Drive else X_Miss_Inv_Clk)\<rparr>))"

definition x_wb_try :: "bus \<Rightarrow> core \<Rightarrow> bus \<times> core" where
  "x_wb_try b c =
     (case write_begin (core_id c) (x_wbaddr c) b of (ok, b') \<Rightarrow>
        (b', c\<lparr>x_pc := (if ok then X_Wb_Drive else X_Wb_Clk)\<rparr>))"

definition x_rd_try :: "bus \<Rightarrow> core \<Rightarrow> bus \<times> core" where
  "x_rd_try b c =
     (case read_begin (core_id c) (line_addr (x_addr c)) b of (ok, b') \<Rightarrow>
        (b', c\<lparr>x_pc := (if ok then X_Rd_Drive else X_Rd_Clk)\<rparr>))"

text \<open>From the label \<^verbatim>\<open>_post_writeback\<close> to the read request.\<close>

definition x_post_writeback :: "bus \<Rightarrow> core \<Rightarrow> bus \<times> core" where
  "x_post_writeback b c =
     x_rd_try b (c\<lparr>access_rate := access_rate c + 1,
                    lines := set_state (x_min_id c) CACHEL_REQUESTED (lines c)\<rparr>)"

definition dirty :: "cl_state \<Rightarrow> bool" where
  "dirty st \<longleftrightarrow> st = CACHEL_MODIFIED \<or> st = CACHEL_OWNED"

text \<open>After the lookup cycle: lines 139 to 152 on a hit, 191 to 202 on a miss.\<close>

definition x_hit :: "bus \<Rightarrow> core \<Rightarrow> bus \<times> core" where
  "x_hit b c =
     (let c' = c\<lparr>lines := use_line (nat (x_rindex c)) (lines c)\<rparr> in
      if x_f c = FUNC_WRITE then x_hit_inv b c' else (b, c'\<lparr>x_pc := X_Read_Neg\<rparr>))"

definition x_miss :: "bus \<Rightarrow> core \<Rightarrow> bus \<times> core" where
  "x_miss b c =
     (if dirty (line_state c (x_min_id c)) then
        x_wb_try b (c\<lparr>x_wbaddr := writeback_addr (lines c (x_min_id c)) (x_addr c),
                       access_rate := access_rate c + 1\<rparr>)
      else x_post_writeback b c)"

definition x_write_done :: "core \<Rightarrow> core" where
  "x_write_done c =
     finish RET_WRITE_DONE Write_Miss
       (c\<lparr>lines := set_state (x_min_id c) CACHEL_MODIFIED (lines c)\<rparr>)"

text \<open>The line has arrived with state \<open>st\<close>: lines 226 to 257.\<close>

definition x_fill :: "bus \<Rightarrow> cl_state \<Rightarrow> core \<Rightarrow> bus \<times> core" where
  "x_fill b st c =
     (let c' = c\<lparr>lines := fill_line (x_min_id c) (x_addr c) st (lines c)\<rparr> in
      if x_f c = FUNC_WRITE then
        if st = CACHEL_SHARED then x_miss_inv b c' else (b, x_write_done c')
      else (b, finish RET_READ_DONE Read_Miss c'))"

text \<open>One wake-up inside \<^verbatim>\<open>wait_for_response\<close>: the new \<^verbatim>\<open>res\<close>, or the result.\<close>

definition wfr_sample :: "i32 \<Rightarrow> i32 \<Rightarrow> i32 \<Rightarrow> cl_state \<Rightarrow> bus \<Rightarrow> cl_state + cl_state" where
  "wfr_sample z proc_id addr res b =
     (if to_int z (Port_BusAddr b) \<noteq> addr \<or> to_int z (Port_ProcID b) \<noteq> proc_id \<or>
         \<not> func_is z b FUNC_RESPONSE \<and> \<not> func_is z b FUNC_REQUESTED
      then Inl res
      else if func_is z b FUNC_REQUESTED then Inl CACHEL_SHARED
      else if to_int z (Port_SourceID b) \<noteq> DRAM_IDENTIFIER then Inr CACHEL_SHARED
      else Inr res)"

definition exec_resume :: "i32 \<Rightarrow> bus \<Rightarrow> core \<Rightarrow> bus \<times> core" where
  "exec_resume z b c =
     (case x_pc c of
        X_Func \<Rightarrow> (b, c)
      | X_Lookup \<Rightarrow> (if x_rindex c > -1 then x_hit b c else x_miss b c)
      | X_Hit_Inv_Drive \<Rightarrow>
          (request_end b,
           finish RET_WRITE_DONE Write_Hit
             (c\<lparr>lines := set_state (nat (x_rindex c)) CACHEL_MODIFIED (lines c)\<rparr>))
      | X_Hit_Inv_Clk \<Rightarrow> (b, c\<lparr>x_pc := X_Hit_Inv_Neg\<rparr>)
      | X_Hit_Inv_Neg \<Rightarrow>
          (if line_state c (nat (x_rindex c)) = CACHEL_INVALID then (b, c\<lparr>x_pc := X_Rescan\<rparr>)
           else x_hit_inv b c)
      | X_Read_Neg \<Rightarrow>
          (if line_state c (nat (x_rindex c)) = CACHEL_INVALID then (b, c\<lparr>x_pc := X_Rescan\<rparr>)
           else (b, finish RET_READ_DONE Read_Hit c))
      | X_Rescan \<Rightarrow> (b, x_check c)
      | X_Wb_Drive \<Rightarrow> (request_end b, c\<lparr>x_pc := X_Wb_Wait CACHEL_EXCLUSIVE\<rparr>)
      | X_Wb_Clk \<Rightarrow>
          (if \<not> dirty (line_state c (x_min_id c)) then x_post_writeback b c else x_wb_try b c)
      | X_Wb_Wait res \<Rightarrow>
          (case wfr_sample z (core_id c) (x_wbaddr c) res b of
             Inl res' \<Rightarrow> (b, c\<lparr>x_pc := X_Wb_Wait res'\<rparr>)
           | Inr _ \<Rightarrow> x_post_writeback b c)
      | X_Rd_Drive \<Rightarrow>
          (if line_state c (x_min_id c) = CACHEL_REQUESTED
           then (request_end b, c\<lparr>x_pc := X_Rd_Wait CACHEL_EXCLUSIVE\<rparr>)
           else x_fill (request_end b) (line_state c (x_min_id c)) c)
      | X_Rd_Clk \<Rightarrow> x_rd_try b c
      | X_Rd_Wait res \<Rightarrow>
          (case wfr_sample z (core_id c) (line_addr (x_addr c)) res b of
             Inl res' \<Rightarrow> (b, c\<lparr>x_pc := X_Rd_Wait res'\<rparr>)
           | Inr st \<Rightarrow> x_fill b st c)
      | X_Miss_Inv_Drive \<Rightarrow> (request_end b, x_write_done c)
      | X_Miss_Inv_Clk \<Rightarrow> (b, c\<lparr>x_pc := X_Miss_Inv_Neg\<rparr>)
      | X_Miss_Inv_Neg \<Rightarrow>
          (if line_state c (x_min_id c) = CACHEL_INVALID then (b, c\<lparr>x_pc := X_Refetch\<rparr>)
           else x_miss_inv b c)
      | X_Refetch \<Rightarrow> x_post_writeback b c
      | X_Done \<Rightarrow> (b, c\<lparr>x_pc := X_Func\<rparr>))"

lemmas exec_defs [step_defs] =
  exec_resume_def x_hit_def x_miss_def x_hit_inv_def x_miss_inv_def x_wb_try_def x_rd_try_def
  x_post_writeback_def x_fill_def x_write_done_def finish_def

text \<open>The samples of one call of \<^verbatim>\<open>wait_for_response\<close> give its result.\<close>

lemma wfr_loop_sample:
  "wfr_loop z proc_id addr res (b # bs) =
     (case wfr_sample z proc_id addr res b of
        Inl res' \<Rightarrow> wfr_loop z proc_id addr res' bs | Inr st \<Rightarrow> Some (st, bs))"
  by (simp add: wfr_sample_def)

end
