(* ===== verification/Cache_Invariant.thy ===== *)
theory Cache_Invariant
  imports Cache_Execute
begin

text \<open>
  The invariant of one core of \<^verbatim>\<open>src/assignment_1/Cache.h\<close> under any interference: whatever
  the bus carries and whatever the snooper is asked, the counters stay in range, no address is held by
  two lines, and at every program point of the execute thread the lines are as its code expects
  (\<open>at_pc\<close>).
\<close>

section \<open>One core in an arbitrary environment\<close>

text \<open>
  The steps of one core whatever the rest of the system does: the CPU starts an access, the execute
  thread wakes up and finds any bus, the snooper handles any request, and a spawned
  \<^verbatim>\<open>cache_to_cache\<close> changes the state of any line.
\<close>

definition set_lines_of :: "core \<Rightarrow> nat set" where
  "set_lines_of c = set (set_lines (x_addr c))"

inductive core_step :: "i32 \<Rightarrow> core \<Rightarrow> core \<Rightarrow> bool" for z where
  start: "x_pc c = X_Func \<Longrightarrow> core_step z c (x_start f addr c)"
| resume: "exec_resume z b c = (b', c') \<Longrightarrow> core_step z c c'"
| snoop: "snoop_handle (core_id c) req (lines c) = (cl, job) \<Longrightarrow> core_step z c (c\<lparr>lines := cl\<rparr>)"
| transfer: "core_step z c (c\<lparr>lines := set_state k (c2c_clstate (line_state c k)) (lines c)\<rparr>)"

definition core_init :: "core \<Rightarrow> bool" where
  "core_init c \<longleftrightarrow> (\<exists>i. c = new_core i)"

text \<open>The line that waits for its data still carries its old tag.\<close>

fun pending_pc :: "exec_pc \<Rightarrow> bool" where
  "pending_pc X_Rd_Drive = True"
| "pending_pc X_Rd_Clk = True"
| "pending_pc (X_Rd_Wait st) = True"
| "pending_pc _ = False"

definition hit_inv :: "core \<Rightarrow> bool" where
  "hit_inv c \<longleftrightarrow> nat (x_rindex c) \<in> set_lines_of c \<and>
     get_tag (lines c (nat (x_rindex c))) = addr_tag (x_addr c) \<and>
     (\<forall>i \<in> set_lines_of c - {nat (x_rindex c)}. \<not> line_present (lines c i) (x_addr c))"

definition absent_but :: "nat set \<Rightarrow> core \<Rightarrow> bool" where
  "absent_but K c \<longleftrightarrow> x_min_id c \<in> set_lines_of c \<and>
     (\<forall>i \<in> set_lines_of c - K. \<not> line_present (lines c i) (x_addr c))"

definition wb_inv :: "core \<Rightarrow> bool" where
  "wb_inv c \<longleftrightarrow> absent_but {} c \<and> x_wbaddr c = writeback_addr (lines c (x_min_id c)) (x_addr c)"

definition pending_inv :: "core \<Rightarrow> bool" where
  "pending_inv c \<longleftrightarrow> absent_but {x_min_id c} c \<and>
     line_state c (x_min_id c) \<in> {CACHEL_REQUESTED, CACHEL_SHARED, CACHEL_INVALID}"

definition miss_inv :: "core \<Rightarrow> bool" where
  "miss_inv c \<longleftrightarrow> absent_but {x_min_id c} c \<and>
     get_tag (lines c (x_min_id c)) = addr_tag (x_addr c) \<and>
     line_state c (x_min_id c) \<in> {CACHEL_SHARED, CACHEL_INVALID}"

fun at_pc :: "exec_pc \<Rightarrow> core \<Rightarrow> bool" where
  "at_pc X_Lookup c = (if x_rindex c > -1 then hit_inv c else absent_but {} c)"
| "at_pc X_Hit_Inv_Drive c = (hit_inv c \<and> x_f c = FUNC_WRITE)"
| "at_pc X_Hit_Inv_Clk c = (hit_inv c \<and> x_f c = FUNC_WRITE)"
| "at_pc X_Hit_Inv_Neg c = (hit_inv c \<and> x_f c = FUNC_WRITE)"
| "at_pc X_Read_Neg c = (hit_inv c \<and> x_f c \<noteq> FUNC_WRITE)"
| "at_pc X_Wb_Drive c = wb_inv c"
| "at_pc X_Wb_Clk c = wb_inv c"
| "at_pc (X_Wb_Wait st) c = wb_inv c"
| "at_pc X_Rd_Drive c = pending_inv c"
| "at_pc X_Rd_Clk c = pending_inv c"
| "at_pc (X_Rd_Wait st) c = (pending_inv c \<and> st \<in> {CACHEL_EXCLUSIVE, CACHEL_SHARED})"
| "at_pc X_Miss_Inv_Drive c = (miss_inv c \<and> x_f c = FUNC_WRITE)"
| "at_pc X_Miss_Inv_Clk c = (miss_inv c \<and> x_f c = FUNC_WRITE)"
| "at_pc X_Miss_Inv_Neg c = (miss_inv c \<and> x_f c = FUNC_WRITE)"
| "at_pc X_Refetch c = (miss_inv c \<and> x_f c = FUNC_WRITE \<and> line_state c (x_min_id c) = CACHEL_INVALID)"
| "at_pc X_Func c = True"
| "at_pc X_Done c = True"
| "at_pc X_Rescan c = True"

text \<open>No address is held twice, the waiting line left aside.\<close>

definition no_duplicates :: "nat set \<Rightarrow> cachelines \<Rightarrow> bool" where
  "no_duplicates K cl \<longleftrightarrow> (\<forall>addr. \<forall>i \<in> set (set_lines addr) - K. \<forall>j \<in> set (set_lines addr) - K.
     line_present (cl i) addr \<longrightarrow> line_present (cl j) addr \<longrightarrow> i = j)"

definition waiting_line :: "core \<Rightarrow> nat set" where
  "waiting_line c = (if pending_pc (x_pc c) then {x_min_id c} else {})"

definition core_inv :: "core \<Rightarrow> bool" where
  "core_inv c \<longleftrightarrow> counters_ok (lines c) \<and> no_duplicates (waiting_line c) (lines c) \<and>
     at_pc (x_pc c) c"

text \<open>Changes by the snooper and the transfers: states move, valid lines stay or become invalid.\<close>

definition state_change :: "cachelines \<Rightarrow> cachelines \<Rightarrow> bool" where
  "state_change cl cl' \<longleftrightarrow> (\<forall>i. counter (cl' i) = counter (cl i) \<and> tag (cl' i) = tag (cl i) \<and>
     (state (cl' i) = state (cl i) \<or> state (cl' i) = CACHEL_INVALID \<or>
      (state (cl i), state (cl' i)) \<in> {(CACHEL_REQUESTED, CACHEL_SHARED),
         (CACHEL_MODIFIED, CACHEL_OWNED), (CACHEL_EXCLUSIVE, CACHEL_SHARED)}))"

lemma snoop_state_change:
  "snoop_handle cid req cl = (cl', job) \<Longrightarrow> state_change cl cl'"
  by (auto simp: snoop_handle_def Let_def state_change_def set_state_def split: if_splits)

lemma transfer_state_change: "state_change cl (set_state k (c2c_clstate (state (cl k))) cl)"
  by (auto simp: state_change_def set_state_def c2c_clstate_def split: cl_state.splits)

lemma state_change_at:
  "state_change cl cl' \<Longrightarrow> tag (cl' i) = tag (cl i) \<and> (state (cl' i) \<noteq> CACHEL_INVALID \<longrightarrow> state (cl i) \<noteq> CACHEL_INVALID)"
  unfolding state_change_def by (drule spec[of _ i]) auto

lemma state_change_present:
  "state_change cl cl' \<Longrightarrow> line_present (cl' i) a \<Longrightarrow> line_present (cl i) a"
  by (drule state_change_at[of _ _ i]) (auto simp: line_present_def get_tag_def)

lemma state_change_core_inv:
  assumes ch: "state_change (lines c) cl" and inv: "core_inv c"
  shows "core_inv (c\<lparr>lines := cl\<rparr>)"
proof -
  have cnt: "counters_ok cl" using ch inv by (simp add: core_inv_def state_change_def counters_ok_def)
  have dup: "no_duplicates (waiting_line c) cl"
    using inv state_change_present[OF ch] unfolding core_inv_def no_duplicates_def by blast
  have tag: "get_tag (cl i) = get_tag (lines c i)" for i using ch by (simp add: state_change_def get_tag_def)
  then have wb: "writeback_addr (cl i) a = writeback_addr (lines c i) a" for i a by (simp only: writeback_addr_def)
  have ab: "absent_but K c \<Longrightarrow> absent_but K (c\<lparr>lines := cl\<rparr>)" for K
    using state_change_present[OF ch] by (auto simp: absent_but_def set_lines_of_def)
  have hit: "hit_inv c \<Longrightarrow> hit_inv (c\<lparr>lines := cl\<rparr>)"
    using state_change_present[OF ch] by (auto simp: hit_inv_def tag set_lines_of_def)
  have st: "state (cl i) \<in> {CACHEL_INVALID, line_state c i} \<or>
      (line_state c i, state (cl i)) \<in> {(CACHEL_REQUESTED, CACHEL_SHARED),
         (CACHEL_MODIFIED, CACHEL_OWNED), (CACHEL_EXCLUSIVE, CACHEL_SHARED)}" for i
    using ch by (auto simp: state_change_def line_state_def)
  have pend: "pending_inv c \<Longrightarrow> pending_inv (c\<lparr>lines := cl\<rparr>)"
    using ab st[of "x_min_id c"] by (auto simp: pending_inv_def line_state_def)
  have miss: "miss_inv c \<Longrightarrow> miss_inv (c\<lparr>lines := cl\<rparr>)"
    using ab st[of "x_min_id c"] by (auto simp: miss_inv_def line_state_def tag)
  have wbi: "wb_inv c \<Longrightarrow> wb_inv (c\<lparr>lines := cl\<rparr>)"
    using ab by (auto simp: wb_inv_def wb)
  have inval: "line_state c i = CACHEL_INVALID \<Longrightarrow> state (cl i) = CACHEL_INVALID" for i
    using st[of i] by auto
  have "at_pc (x_pc c) c" using inv by (simp add: core_inv_def)
  then have "at_pc (x_pc c) (c\<lparr>lines := cl\<rparr>)"
    by (cases "x_pc c") (simp_all add: ab hit wbi pend miss inval line_state_def split: if_splits)
  then show ?thesis using cnt dup by (auto simp: core_inv_def waiting_line_def split: if_splits)
qed


lemma no_duplicates_mono: "no_duplicates K cl \<Longrightarrow> K \<subseteq> K' \<Longrightarrow> no_duplicates K' cl"
  unfolding no_duplicates_def by blast

lemma no_duplicates_lines:
  "no_duplicates K cl \<Longrightarrow> (\<And>i a. i \<notin> K \<Longrightarrow> line_present (cl' i) a \<Longrightarrow> line_present (cl i) a) \<Longrightarrow>
   no_duplicates K cl'"
  unfolding no_duplicates_def by blast

lemma no_duplicates_fill:
  assumes "no_duplicates {r} cl" and "r \<in> set (set_lines addr)"
    and none: "\<forall>i \<in> set (set_lines addr) - {r}. \<not> line_present (cl i) addr"
  shows "no_duplicates {} (fill_line r addr st cl)"
proof -
  have absent: "\<not> line_present (cl k) a"
    if "k \<in> set (set_lines a)" "r \<in> set (set_lines a)" "addr_tag a = addr_tag addr" "k \<noteq> r" for k a
  proof -
    have "addr_to_index a = addr_to_index addr" using that(2) assms(2) by (rule set_lines_same_set)
    then have "k \<in> set (set_lines addr)" using that(1) by (simp add: set_lines_iff)
    with none that(3,4) show ?thesis by (auto simp: line_present_def)
  qed
  have "i = j" if "i \<in> set (set_lines a)" "j \<in> set (set_lines a)"
    "line_present (fill_line r addr st cl i) a" "line_present (fill_line r addr st cl j) a" for a i j
  proof (cases "i = r \<or> j = r")
    case True
    with that absent[of i a] absent[of j a] show ?thesis by (auto simp: fill_present split: if_splits)
  next
    case False
    with that assms(1) show ?thesis by (auto simp: fill_present no_duplicates_def)
  qed
  then show ?thesis unfolding no_duplicates_def by blast
qed

lemma set_state_counters [simp]: "counters_ok cl \<Longrightarrow> counters_ok (set_state k st cl)"
  by (simp add: set_state_def)

lemma set_state_simps [simp]:
  "state (set_state k st cl i) = (if i = k then st else state (cl i))"
  "tag (set_state k st cl i) = tag (cl i)"
  by (simp_all add: set_state_def)

lemma set_state_present:
  "line_present (set_state k st cl i) a \<longleftrightarrow>
     (if i = k then st \<noteq> CACHEL_INVALID \<and> get_tag (cl i) = addr_tag a else line_present (cl i) a)"
  by (simp add: set_state_def line_present_def get_tag_def)

lemma get_tag_set_state [simp]: "get_tag (set_state k st cl i) = get_tag (cl i)"
  by (simp add: get_tag_def)

lemma use_line_present [simp]:
  "line_present (use_line r cl i) a = line_present (cl i) a"
  "get_tag (use_line r cl i) = get_tag (cl i)" "state (use_line r cl i) = state (cl i)"
  by (simp_all add: use_line_def line_present_def get_tag_def)

lemma x_check_inv:
  assumes "counters_ok (lines c)" and "no_duplicates {} (lines c)"
  shows "core_inv (x_check c)"
proof -
  let ?s = "scan_lines (x_addr c) (lines c)"
  have dup: "no_duplicates {} (s_lines ?s)"
    by (rule no_duplicates_lines[OF assms(2)]) (simp add: assms(1))
  have "hit_inv (x_check c)" if h: "s_rindex ?s > -1"
  proof -
    have r: "nat (s_rindex ?s) \<in> set (set_lines (x_addr c))" "line_present (lines c (nat (s_rindex ?s))) (x_addr c)"
      using scan_found(2)[OF assms(1) h] by auto
    moreover have "\<forall>i \<in> set (set_lines (x_addr c)) - {nat (s_rindex ?s)}. \<not> line_present (lines c i) (x_addr c)"
      using r assms(2) unfolding no_duplicates_def by blast
    ultimately show ?thesis
      using assms(1) by (auto simp: hit_inv_def x_check_def Let_def set_lines_of_def get_tag_def line_present_def)
  qed
  moreover have "absent_but {} (x_check c)" if "\<not> s_rindex ?s > -1"
    using scan_found(1)[OF assms(1), of "x_addr c"] scan_victim[OF assms(1), of "x_addr c"]
      scan_not_found[OF assms(1), of "x_addr c"] assms(1) that
    by (auto simp: x_check_def Let_def absent_but_def set_lines_of_def victim_ok_def)
  ultimately have "at_pc X_Lookup (x_check c)"
    by (simp add: x_check_def Let_def)
  then show ?thesis
    using dup scan_counters_ok[OF assms(1)]
    by (simp add: core_inv_def x_check_def Let_def waiting_line_def)
qed

lemma x_rd_try_inv:
  assumes "counters_ok (lines c)" and "no_duplicates {x_min_id c} (lines c)" and "pending_inv c"
  shows "core_inv (snd (x_rd_try b c))"
  using assms by (auto simp: x_rd_try_def core_inv_def waiting_line_def pending_inv_def absent_but_def
      set_lines_of_def line_state_def split: prod.split)

lemma x_post_writeback_inv:
  assumes "counters_ok (lines c)" and "no_duplicates {x_min_id c} (lines c)" and "absent_but {x_min_id c} c"
  shows "core_inv (snd (x_post_writeback b c))"
  unfolding x_post_writeback_def
proof (rule x_rd_try_inv)
  show "no_duplicates {x_min_id (c\<lparr>access_rate := access_rate c + 1,
      lines := set_state (x_min_id c) CACHEL_REQUESTED (lines c)\<rparr>)}
     (lines (c\<lparr>access_rate := access_rate c + 1, lines := set_state (x_min_id c) CACHEL_REQUESTED (lines c)\<rparr>))"
    using assms(2) by simp (erule no_duplicates_lines, simp add: set_state_present)
qed (use assms in \<open>auto simp: pending_inv_def absent_but_def set_lines_of_def line_state_def set_state_present\<close>)

lemma set_state_fill: "set_state r st' (fill_line r addr st cl) = fill_line r addr st' cl"
  by (rule ext) (simp add: set_state_def fill_line_def)

lemma x_fill_inv:
  assumes "counters_ok (lines c)" and "no_duplicates {x_min_id c} (lines c)" and "absent_but {x_min_id c} c"
  shows "core_inv (snd (x_fill b st c))"
proof -
  let ?cl = "fill_line (x_min_id c) (x_addr c) st (lines c)"
  have r: "x_min_id c \<in> set (set_lines (x_addr c))"
    "\<forall>i \<in> set (set_lines (x_addr c)) - {x_min_id c}. \<not> line_present (lines c i) (x_addr c)"
    using assms(3) by (auto simp: absent_but_def set_lines_of_def)
  have dup: "no_duplicates {} ?cl" using assms(2) r by (rule no_duplicates_fill)
  have dup': "no_duplicates {} (set_state (x_min_id c) CACHEL_MODIFIED ?cl)"
    using no_duplicates_fill[OF assms(2) r, of CACHEL_MODIFIED] by (simp add: set_state_fill)
  have "miss_inv (c\<lparr>lines := ?cl, x_pc := pc\<rparr>)" if "st = CACHEL_SHARED" for pc
    using r that by (auto simp: miss_inv_def absent_but_def set_lines_of_def fill_present line_state_def)
       (auto simp: fill_line_def get_tag_def tag_roundtrip)
  then show ?thesis
    using dup dup' assms(1)
    by (auto simp: x_fill_def Let_def x_miss_inv_def x_write_done_def finish_def core_inv_def waiting_line_def
        split: prod.split)
qed


lemma x_wb_try_inv:
  assumes "counters_ok (lines c)" and "no_duplicates {} (lines c)" and "wb_inv c"
  shows "core_inv (snd (x_wb_try b c))"
  using assms by (auto simp: x_wb_try_def core_inv_def waiting_line_def wb_inv_def absent_but_def
      set_lines_of_def split: prod.split)

lemma x_hit_inv_inv:
  assumes "counters_ok (lines c)" and "no_duplicates {} (lines c)" and "hit_inv c" and "x_f c = FUNC_WRITE"
  shows "core_inv (snd (x_hit_inv b c))"
  using assms by (auto simp: x_hit_inv_def core_inv_def waiting_line_def hit_inv_def
      set_lines_of_def split: prod.split)

lemma x_miss_inv_inv:
  assumes "counters_ok (lines c)" and "no_duplicates {} (lines c)" and "miss_inv c" and "x_f c = FUNC_WRITE"
  shows "core_inv (snd (x_miss_inv b c))"
  using assms by (auto simp: x_miss_inv_def core_inv_def waiting_line_def miss_inv_def absent_but_def
      line_state_def set_lines_of_def split: prod.split)

lemma absent_but_mono: "absent_but K c \<Longrightarrow> K \<subseteq> K' \<Longrightarrow> absent_but K' c"
  unfolding absent_but_def by blast

lemma x_miss_inv_step:
  assumes "counters_ok (lines c)" and "no_duplicates {} (lines c)" and "absent_but {} c"
  shows "core_inv (snd (x_miss b c))"
proof (cases "dirty (line_state c (x_min_id c))")
  case True
  with assms show ?thesis
    by (auto simp: x_miss_def wb_inv_def absent_but_def set_lines_of_def intro!: x_wb_try_inv)
next
  case False
  with assms show ?thesis
    using no_duplicates_mono absent_but_mono by (auto simp: x_miss_def intro!: x_post_writeback_inv) blast+
qed

lemma x_hit_step:
  assumes "counters_ok (lines c)" and "no_duplicates {} (lines c)" and "hit_inv c"
  shows "core_inv (snd (x_hit b c))"
proof -
  have dup: "no_duplicates {} (use_line (nat (x_rindex c)) (lines c))"
    using assms(2) by (rule no_duplicates_lines) simp
  have hit: "hit_inv (c\<lparr>lines := use_line (nat (x_rindex c)) (lines c)\<rparr>)"
    using assms(3) by (simp add: hit_inv_def set_lines_of_def)
  show ?thesis
  proof (cases "x_f c = FUNC_WRITE")
    case True
    then show ?thesis using dup hit assms by (auto simp: x_hit_def Let_def intro!: x_hit_inv_inv)
  next
    case False
    then show ?thesis
      using dup assms by (simp add: x_hit_def Let_def core_inv_def waiting_line_def hit_inv_def set_lines_of_def)
  qed
qed

lemma modified_line_inv:
  assumes "no_duplicates {} (lines c)" and "hit_inv c"
  shows "no_duplicates {} (set_state (nat (x_rindex c)) CACHEL_MODIFIED (lines c))"
proof -
  let ?k = "nat (x_rindex c)"
  have "no_duplicates {} (fill_line ?k (x_addr c) CACHEL_MODIFIED (lines c))"
    using assms no_duplicates_mono[OF assms(1)]
    by (intro no_duplicates_fill) (auto simp: hit_inv_def set_lines_of_def)
  then show ?thesis
    using assms(2) by (auto elim!: no_duplicates_lines simp: fill_present set_state_present hit_inv_def)
qed


text \<open>Steps that only move the program counter, to a point whose condition holds already.\<close>

lemma at_pc_update [simp]: "at_pc p (c\<lparr>x_pc := q\<rparr>) = at_pc p c"
  by (cases p) (simp_all add: hit_inv_def absent_but_def wb_inv_def pending_inv_def miss_inv_def
      set_lines_of_def line_state_def)

lemma core_inv_jump:
  assumes "core_inv c" and "pending_pc p = pending_pc (x_pc c)" and "at_pc p c"
  shows "core_inv (c\<lparr>x_pc := p\<rparr>)"
  using assms by (simp add: core_inv_def waiting_line_def split: if_splits)

lemma wfr_sample_result:
  "wfr_sample z i a res b = Inr st \<Longrightarrow> st \<in> {res, CACHEL_SHARED}"
  "wfr_sample z i a res b = Inl res' \<Longrightarrow> res' \<in> {res, CACHEL_SHARED}"
  by (auto simp: wfr_sample_def split: if_splits)

lemma finish_inv:
  "counters_ok (lines c) \<Longrightarrow> no_duplicates {} (lines c) \<Longrightarrow> core_inv (finish rc ev c)"
  by (simp add: finish_def core_inv_def waiting_line_def)

lemma exec_resume_inv:
  assumes "core_inv c"
  shows "core_inv (snd (exec_resume z b c))"
proof -
  have cnt: "counters_ok (lines c)" and at: "at_pc (x_pc c) c"
    and dup: "no_duplicates (waiting_line c) (lines c)" using assms by (simp_all add: core_inv_def)
  have pend: "absent_but {x_min_id c} c" if "pending_inv c \<or> miss_inv c"
    using that by (auto simp: pending_inv_def miss_inv_def)
  have dup1: "no_duplicates {x_min_id c} (lines c)"
    using dup by (auto simp: waiting_line_def split: if_splits elim: no_duplicates_mono)
  have jump: "core_inv (c\<lparr>x_pc := p\<rparr>)" if "pending_pc p = pending_pc (x_pc c)" "at_pc p c" for p
    using assms that by (rule core_inv_jump)
  show ?thesis
  proof (cases "x_pc c")
    case X_Lookup
    with at cnt dup show ?thesis
      by (auto simp: exec_resume_def waiting_line_def split: if_splits intro: x_hit_step x_miss_inv_step)
  next
    case X_Hit_Inv_Drive
    then show ?thesis
      using at dup cnt modified_line_inv[of c]
      by (auto simp: exec_resume_def waiting_line_def intro!: finish_inv)
  next
    case X_Hit_Inv_Neg
    then show ?thesis
      using at dup cnt jump[of X_Rescan] by (auto simp: exec_resume_def waiting_line_def intro!: x_hit_inv_inv)
  next
    case X_Read_Neg
    then show ?thesis
      using at dup cnt jump[of X_Rescan] by (auto simp: exec_resume_def waiting_line_def intro!: finish_inv)
  next
    case X_Rescan
    then show ?thesis using dup cnt by (simp add: exec_resume_def waiting_line_def x_check_inv)
  next
    case X_Wb_Clk
    then show ?thesis
      using at dup cnt dup1
      by (auto simp: exec_resume_def waiting_line_def wb_inv_def
          intro!: x_post_writeback_inv x_wb_try_inv elim: absent_but_mono)
  next
    case (X_Wb_Wait res)
    then show ?thesis
      using at dup cnt dup1 jump
      by (auto simp: exec_resume_def waiting_line_def wb_inv_def split: sum.split
          intro!: x_post_writeback_inv elim: absent_but_mono)
  next
    case X_Rd_Drive
    then show ?thesis
      using at cnt dup1 pend jump by (auto simp: exec_resume_def intro!: x_fill_inv)
  next
    case X_Rd_Clk
    then show ?thesis
      using at cnt dup1 by (auto simp: exec_resume_def intro!: x_rd_try_inv)
  next
    case (X_Rd_Wait res)
    then show ?thesis
      using at cnt dup1 pend jump wfr_sample_result(2)[of z "core_id c" "line_addr (x_addr c)" res b]
      by (auto simp: exec_resume_def split: sum.split intro!: x_fill_inv)
  next
    case X_Miss_Inv_Drive
    then have "no_duplicates {} (set_state (x_min_id c) CACHEL_MODIFIED (lines c))"
      using at no_duplicates_fill[OF dup1, of "x_addr c" CACHEL_MODIFIED]
      by (auto elim!: no_duplicates_lines simp: fill_present set_state_present miss_inv_def absent_but_def
          set_lines_of_def)
    then show ?thesis
      using X_Miss_Inv_Drive cnt by (auto simp: exec_resume_def x_write_done_def intro!: finish_inv)
  next
    case X_Miss_Inv_Neg
    then show ?thesis
      using at dup cnt jump[of X_Refetch] by (auto simp: exec_resume_def waiting_line_def intro!: x_miss_inv_inv)
  next
    case X_Refetch
    then show ?thesis
      using at cnt dup1 pend by (auto simp: exec_resume_def intro!: x_post_writeback_inv)
  qed (use assms at jump in \<open>simp_all add: exec_resume_def\<close>)
qed

lemma core_step_inv:
  assumes "core_step z c c'" and "core_inv c"
  shows "core_inv c'"
  using assms
proof cases
  case (start f addr)
  have "counters_ok (lines c)" "no_duplicates {} (lines c)"
    using assms(2) start by (simp_all add: core_inv_def waiting_line_def)
  then show ?thesis using start by (simp add: x_start_def x_check_inv)
next
  case (resume b b')
  then show ?thesis using exec_resume_inv[OF assms(2), of z b] by simp
next
  case (snoop req cl job)
  then show ?thesis using assms(2) by (simp add: snoop_state_change state_change_core_inv)
next
  case (transfer k)
  then show ?thesis
    using state_change_core_inv[OF transfer_state_change assms(2)] by (simp add: line_state_def)
qed

lemma core_init_inv: "core_init c \<Longrightarrow> core_inv c"
  by (auto simp: core_init_def core_inv_def new_core_def no_duplicates_def init_lines_def zero_line_def
      line_present_def waiting_line_def counters_ok_def MAX_COUNTER_def)

interpretation core_ts: transition_invariant core_init "core_step z" core_inv for z
  by unfold_locales (auto intro: core_init_inv core_step_inv)

end
