(* ===== verification/Cache_Guarantees.thy ===== *)
theory Cache_Guarantees
  imports Cache_Invariant
begin

text \<open>
  What the two threads of \<^verbatim>\<open>src/assignment_1/Cache.h\<close> guarantee in every reachable state:
  the meaning of a finished write, the write-back of dirty lines, the reaction to snooped requests;
  and two races that they leave open.
\<close>

section \<open>What a finished access guarantees\<close>

lemma only_line:
  "i \<in> set (set_lines addr) \<Longrightarrow> line_present (cl i) addr \<Longrightarrow>
   \<forall>j \<in> set (set_lines addr) - {i}. \<not> line_present (cl j) addr \<Longrightarrow>
   {j \<in> set (set_lines addr). line_present (cl j) addr} = {i}"
  by auto

lemma no_done:
  "x_hit b c = (b', c') \<Longrightarrow> done_log c' = done_log c"
  "x_miss b c = (b', c') \<Longrightarrow> done_log c' = done_log c"
  "x_hit_inv b c = (b', c') \<Longrightarrow> done_log c' = done_log c"
  "x_miss_inv b c = (b', c') \<Longrightarrow> done_log c' = done_log c"
  "x_wb_try b c = (b', c') \<Longrightarrow> done_log c' = done_log c"
  "x_rd_try b c = (b', c') \<Longrightarrow> done_log c' = done_log c"
  "x_post_writeback b c = (b', c') \<Longrightarrow> done_log c' = done_log c"
  by (auto simp: x_hit_def x_miss_def x_hit_inv_def x_miss_inv_def x_wb_try_def x_rd_try_def
      x_post_writeback_def Let_def split: if_splits prod.splits)

lemma check_not_done [simp]: "done_log (x_check c) = done_log c"
  by (simp add: x_check_def Let_def)

lemma fill_done:
  assumes "pending_inv c" and "x_fill b st c = (b', c')" and "done_log c' = done_log c @ [RET_WRITE_DONE]"
  shows "\<exists>i. {j \<in> set (set_lines (x_addr c)). line_present (lines c' j) (x_addr c)} = {i} \<and>
    state (lines c' i) = CACHEL_MODIFIED \<and> x_f c = FUNC_WRITE \<and> 
    (\<exists>ev \<in> {Write_Hit, Write_Miss}. stat_log c' = stat_log c @ [ev])"
proof -
  have "x_f c = FUNC_WRITE \<and> st \<noteq> CACHEL_SHARED"
    using assms(2,3) by (auto simp: x_fill_def Let_def finish_def dest: no_done split: if_splits)
  then have "c' = x_write_done (c\<lparr>lines := fill_line (x_min_id c) (x_addr c) st (lines c)\<rparr>)" "x_f c = FUNC_WRITE"
    using assms(2) by (auto simp: x_fill_def Let_def)
  then show ?thesis
    using assms(1) only_line[of "x_min_id c" "x_addr c" "lines c'"]
    by (auto simp: x_write_done_def finish_def set_state_fill fill_present pending_inv_def absent_but_def
        set_lines_of_def) (auto simp: fill_line_def)
qed

text \<open>a processor that is told that its write is done owns the line: when the execute thread reports
  the write, exactly one line of the set holds the address, and it is MODIFIED; the statistics count one
  write hit or write miss.\<close>
theorem write_done_means_modified:
  assumes "reach core_init (core_step z) c" and "exec_resume z b c = (b', c')"
    and "done_log c' = done_log c @ [RET_WRITE_DONE]"
  shows "\<exists>i. {j \<in> set (set_lines (x_addr c)). line_present (lines c' j) (x_addr c)} = {i} \<and>
    state (lines c' i) = CACHEL_MODIFIED \<and> x_f c = FUNC_WRITE \<and> 
    (\<exists>ev \<in> {Write_Hit, Write_Miss}. stat_log c' = stat_log c @ [ev])"
proof -
  have inv: "core_inv c" by (rule core_ts.reach_inv[OF assms(1)])
  then have at: "at_pc (x_pc c) c" by (simp add: core_inv_def)
  show ?thesis
  proof (cases "x_pc c")
    case X_Hit_Inv_Drive
    then have c': "c' = finish RET_WRITE_DONE Write_Hit
        (c\<lparr>lines := set_state (nat (x_rindex c)) CACHEL_MODIFIED (lines c)\<rparr>)"
      using assms(2) by (simp add: exec_resume_def)
    then show ?thesis
      using at X_Hit_Inv_Drive only_line[of "nat (x_rindex c)" "x_addr c" "lines c'"]
      by (auto simp: hit_inv_def finish_def set_state_present set_lines_of_def)
  next
    case X_Miss_Inv_Drive
    then have c': "c' = x_write_done c" using assms(2) by (simp add: exec_resume_def)
    then show ?thesis
      using at X_Miss_Inv_Drive only_line[of "x_min_id c" "x_addr c" "lines c'"]
      by (auto simp: miss_inv_def absent_but_def finish_def x_write_done_def set_state_present set_lines_of_def)
  next
    case X_Rd_Drive
    then show ?thesis using at assms(2,3) fill_done by (auto simp: exec_resume_def split: if_splits)
  next
    case (X_Rd_Wait res)
    then show ?thesis using at assms(2,3) fill_done by (auto simp: exec_resume_def split: sum.splits)
  qed (use assms(2,3) in \<open>auto simp: exec_resume_def finish_def split: if_splits sum.splits dest: no_done\<close>)
qed














section \<open>An access on an idle bus\<close>

text \<open>A write miss with a clean victim, when the bus is free and the DRAM answers.\<close>

definition dram_response :: "i32 \<Rightarrow> i32 \<Rightarrow> bus" where
  "dram_response proc_id addr =
     (drive FUNC_RESPONSE proc_id addr new_bus)\<lparr>Port_SourceID := Some DRAM_IDENTIFIER\<rparr>"

lemma dram_response_sample:
  "wfr_sample z proc_id addr res (dram_response proc_id addr) = Inr res"
  by (simp add: wfr_sample_def dram_response_def drive_def new_bus_def to_int_def func_is_def)

lemma core_run:
  "reach core_init (core_step z) c \<Longrightarrow> reach core_init (core_step z) (snd (exec_resume z b c))"
  by (rule reach_step) (auto intro: core_step.resume[of z b c "fst (exec_resume z b c)"])

lemma free_bus: "\<not> bus_busy new_bus"
  by (simp add: new_bus_def bus_busy_def)

definition rd_wait_core :: "mem_function \<Rightarrow> i32 \<Rightarrow> core \<Rightarrow> core" where
  "rd_wait_core f a c =
     (let s = scan_lines a (lines c) in
      c\<lparr>x_f := f, x_addr := a, lines := set_state (s_min_id s) CACHEL_REQUESTED (s_lines s),
        x_rindex := s_rindex s, x_min_id := s_min_id s, access_rate := access_rate c + 1,
        x_pc := X_Rd_Wait CACHEL_EXCLUSIVE\<rparr>)"

lemma miss_to_wait:
  assumes "s_rindex (scan_lines a (lines c)) = -1" and "counters_ok (lines c)"
    and "\<not> dirty (state (lines c (s_min_id (scan_lines a (lines c)))))"
  shows "snd (exec_resume z new_bus (snd (exec_resume z new_bus (x_start f a c)))) = rd_wait_core f a c"
  using assms free_bus
  by (simp add: exec_resume_def x_start_def x_check_def Let_def x_miss_def line_state_def
      x_post_writeback_def x_rd_try_def read_begin_def rd_wait_core_def)

definition written_core :: "i32 \<Rightarrow> core \<Rightarrow> core" where
  "written_core a c =
     (let s = scan_lines a (lines c) in
      c\<lparr>x_f := FUNC_WRITE, x_addr := a, lines := fill_line (s_min_id s) a CACHEL_MODIFIED (s_lines s),
        x_rindex := s_rindex s, x_min_id := s_min_id s, access_rate := access_rate c + 1,
        stat_log := stat_log c @ [Write_Miss], done_log := done_log c @ [RET_WRITE_DONE], x_pc := X_Done\<rparr>)"

lemma fill_set_state: "fill_line r a st (set_state r st' cl) = fill_line r a st cl"
  by (rule ext) (simp add: set_state_def fill_line_def)

lemma write_fill:
  "snd (exec_resume z (dram_response (core_id c) (line_addr a)) (rd_wait_core FUNC_WRITE a c)) = written_core a c"
  by (simp add: exec_resume_def rd_wait_core_def Let_def dram_response_sample x_fill_def x_write_done_def
      finish_def written_core_def set_state_fill fill_set_state)

lemma write_miss_run:
  assumes "reach core_init (core_step z) c" and "x_pc c = X_Func"
    and "s_rindex (scan_lines a (lines c)) = -1"
    and "\<not> dirty (state (lines c (s_min_id (scan_lines a (lines c)))))"
  shows "reach core_init (core_step z) (rd_wait_core FUNC_WRITE a c)"
    and "reach core_init (core_step z) ((written_core a c)\<lparr>x_pc := X_Func\<rparr>)"
proof -
  have ok: "counters_ok (lines c)" using core_ts.reach_inv[OF assms(1)] by (simp add: core_inv_def)
  have "reach core_init (core_step z) (x_start FUNC_WRITE a c)"
    using assms(1,2) by (blast intro: reach_step core_step.start)
  from core_run[OF core_run[OF this, of new_bus], of new_bus]
  show w: "reach core_init (core_step z) (rd_wait_core FUNC_WRITE a c)"
    by (simp add: miss_to_wait[OF assms(3) ok assms(4)])
  from core_run[OF core_run[OF w, of "dram_response (core_id c) (line_addr a)"], of new_bus]
  show "reach core_init (core_step z) ((written_core a c)\<lparr>x_pc := X_Func\<rparr>)"
    by (simp add: write_fill) (simp add: exec_resume_def written_core_def Let_def)
qed







lemma state_init: "state (init_lines i) = CACHEL_INVALID"
  by (simp add: init_lines_def zero_line_def)



theorem write_done_means_modified_witness:
  "\<exists>(c::core) i. done_log c = [RET_WRITE_DONE] \<and> state (lines c i) = CACHEL_MODIFIED \<and> x_addr c = 0x44 \<and>
     {j \<in> set (set_lines 0x44). line_present (lines c j) 0x44} = {i}"
proof -
  let ?c = "rd_wait_core FUNC_WRITE 0x44 (new_core 1)"
  let ?b = "dram_response (core_id (new_core 1)) (line_addr 0x44)"
  have n: "reach core_init (core_step 0) (new_core 1)" by (rule reach_init) (auto simp: core_init_def)
  have m: "s_rindex (scan_lines 0x44 init_lines) = -1" by code_simp
  have r: "reach core_init (core_step 0) ?c"
    by (rule write_miss_run(1)[OF n]) (simp_all add: new_core_def m dirty_def state_init)
  have e: "exec_resume 0 ?b ?c = (fst (exec_resume 0 ?b ?c), written_core 0x44 (new_core 1))"
    using write_fill[of 0 "new_core 1" "0x44"] by (metis prod.collapse)
  have "done_log (written_core 0x44 (new_core 1)) = done_log ?c @ [RET_WRITE_DONE]" and
    a: "x_addr ?c = 0x44" "x_addr (written_core 0x44 (new_core 1)) = 0x44" and
    d: "done_log (written_core 0x44 (new_core 1)) = [RET_WRITE_DONE]"
    by (simp_all add: written_core_def rd_wait_core_def Let_def) (simp_all add: new_core_def)
  with write_done_means_modified[OF r e] obtain i where
    "{j \<in> set (set_lines 0x44). line_present (lines (written_core 0x44 (new_core 1)) j) 0x44} = {i}"
    "state (lines (written_core 0x44 (new_core 1)) i) = CACHEL_MODIFIED"
    by (auto simp: a)
  with a d show ?thesis
    by (intro exI[of _ "written_core 0x44 (new_core 1)"] exI[of _ i] conjI)
qed

section \<open>The snooping thread\<close>

definition holders :: "i32 \<Rightarrow> cachelines \<Rightarrow> nat set" where
  "holders addr cl = {i \<in> set (set_lines addr). line_present (cl i) addr}"

lemma snoop_handle_cases:
  assumes "counters_ok cl" and "no_duplicates {} cl" and "snoop_handle cid req cl = (cl', job)"
  obtains (absent) "holders (r_addr req) cl = {}" "cl' = cl" "job = None"
  | (killed) k where "holders (r_addr req) cl = {k}" "cl' = set_state k CACHEL_INVALID cl" "job = None"
      "r_func req \<in> {func_code FUNC_WRITE, func_code FUNC_INVALIDATE}"
  | (read) k where "holders (r_addr req) cl = {k}" "r_func req = func_code FUNC_READ"
      "cl' = (if state (cl k) = CACHEL_REQUESTED then set_state k CACHEL_SHARED cl else cl)"
      "job = Some \<lparr>j_proc_id = r_id req, j_source_id = cid, j_addr = r_addr req, j_line = k\<rparr>"
  | (other) k where "holders (r_addr req) cl = {k}" "cl' = cl" "job = None"
      "r_func req \<notin> func_code ` {FUNC_WRITE, FUNC_INVALIDATE, FUNC_READ}"
proof -
  let ?a = "r_addr req" let ?r = "snoop_lookup (r_addr req) cl"
  have l: "?r = s_rindex (scan_lines ?a cl)" by (rule snoop_lookup_eq_scan[OF assms(1)])
  show ?thesis
  proof (cases "?r > -1")
    case True
    then have k: "nat ?r \<in> set (set_lines ?a)" "line_present (cl (nat ?r)) ?a"
      using scan_found(2)[OF assms(1), of ?a] l by auto
    then have "holders ?a cl = {nat ?r}"
      using assms(2) unfolding no_duplicates_def holders_def by blast
    moreover obtain k where kd: "nat ?r = k" by blast
    ultimately have h: "holders ?a cl = {k}" by simp
    have d: "(if r_func req = func_code FUNC_WRITE \<or> r_func req = func_code FUNC_INVALIDATE
        then (set_state k CACHEL_INVALID cl, None)
        else if r_func req = func_code FUNC_READ
        then (if state (cl k) = CACHEL_REQUESTED then set_state k CACHEL_SHARED cl else cl,
              Some \<lparr>j_proc_id = r_id req, j_source_id = cid, j_addr = r_addr req, j_line = k\<rparr>)
        else (cl, None)) = (cl', job)"
      using assms(3) True unfolding snoop_handle_def Let_def kd by (simp only: if_True)
    consider (1) "r_func req = func_code FUNC_WRITE \<or> r_func req = func_code FUNC_INVALIDATE"
      | (2) "r_func req = func_code FUNC_READ"
        "\<not> (r_func req = func_code FUNC_WRITE \<or> r_func req = func_code FUNC_INVALIDATE)"
      | (3) "r_func req \<notin> func_code ` {FUNC_WRITE, FUNC_INVALIDATE, FUNC_READ}"
        "r_func req \<noteq> func_code FUNC_READ"
        "\<not> (r_func req = func_code FUNC_WRITE \<or> r_func req = func_code FUNC_INVALIDATE)"
      by blast
    then show ?thesis
    proof cases
      case 1
      have "cl' = set_state k CACHEL_INVALID cl" "job = None" using d by (simp_all only: if_P[OF 1] prod.inject)
      with 1 show ?thesis by (intro killed[OF h]) blast+
    next
      case 2
      have "cl' = (if state (cl k) = CACHEL_REQUESTED then set_state k CACHEL_SHARED cl else cl)"
        "job = Some \<lparr>j_proc_id = r_id req, j_source_id = cid, j_addr = r_addr req, j_line = k\<rparr>"
        using d by (simp_all only: if_not_P[OF 2(2)] if_P[OF 2(1)] prod.inject)
      with 2(1) show ?thesis by (rule read[OF h])
    next
      case 3
      have "cl' = cl" "job = None" using d by (simp_all only: if_not_P[OF 3(3)] if_not_P[OF 3(2)] prod.inject)
      then show ?thesis using 3(1) by (rule other[OF h])
    qed
  next
    case False
    then have "holders ?a cl = {}"
      using scan_found(1)[OF assms(1), of ?a] l by (auto simp: holders_def)
    moreover have "cl' = cl" "job = None"
      using assms(3) False unfolding snoop_handle_def Let_def by (simp_all only: if_False prod.inject)
    ultimately show ?thesis by (rule absent)
  qed
qed

lemma holders_set_state:
  "k \<in> holders addr cl \<Longrightarrow>
   holders addr (set_state k st cl) = (if st = CACHEL_INVALID then holders addr cl - {k} else holders addr cl)"
  by (auto simp: holders_def set_state_present line_present_def split: if_splits)

text \<open>a snooped request leaves the cache in a legal MOESI state: a write or an invalidation by another
  processor removes the address from the cache; a read keeps it, turns a requested line into SHARED, and
  starts a cache-to-cache transfer exactly when the address is held, for the line that holds it; no
  other line changes.\<close>
theorem snoop_handles_request:
  assumes "counters_ok cl" and "no_duplicates {} cl" and "snoop_handle cid req cl = (cl', job)"
  shows "(r_func req \<in> {func_code FUNC_WRITE, func_code FUNC_INVALIDATE} \<longrightarrow>
      holders (r_addr req) cl' = {} \<and> job = None) \<and>
    (r_func req = func_code FUNC_READ \<longrightarrow> holders (r_addr req) cl' = holders (r_addr req) cl \<and>
      (\<forall>i. state (cl' i) = (if i \<in> holders (r_addr req) cl \<and> state (cl i) = CACHEL_REQUESTED
                            then CACHEL_SHARED else state (cl i))) \<and>
      (if holders (r_addr req) cl = {} then job = None
       else \<exists>k. holders (r_addr req) cl = {k} \<and>
         job = Some \<lparr>j_proc_id = r_id req, j_source_id = cid, j_addr = r_addr req, j_line = k\<rparr>)) \<and>
    (\<forall>i. i \<in> holders (r_addr req) cl \<or> cl' i = cl i)"
  using assms
proof (cases rule: snoop_handle_cases)
  case (killed k)
  moreover have "holders (r_addr req) (set_state k CACHEL_INVALID cl) = {}"
    using holders_set_state[of k "r_addr req" cl CACHEL_INVALID] killed(1) by simp
  ultimately show ?thesis by (auto simp: set_state_def)
next
  case (read k)
  moreover have "holders (r_addr req) (set_state k CACHEL_SHARED cl) = {k}"
    using holders_set_state[of k "r_addr req" cl CACHEL_SHARED] read(1) by simp
  ultimately show ?thesis by (auto simp: set_state_def)
qed auto

definition shared_line :: cachelines where
  "shared_line = fill_line 23 0x44 CACHEL_MODIFIED init_lines"

lemma shared_line_facts:
  "counters_ok shared_line" "no_duplicates {} shared_line" "holders 0x40 shared_line = {23}"
proof -
  have m: "line_present (shared_line i) a \<longleftrightarrow> i = 23 \<and> addr_tag a = addr_tag 0x44" for i a
    by (auto simp: shared_line_def fill_present init_lines_def zero_line_def)
  then show "no_duplicates {} shared_line" by (simp add: no_duplicates_def)
  have "set_lines 0x40 = [16, 17, 18, 19, 20, 21, 22, 23]" "addr_tag 0x40 = addr_tag 0x44" by code_simp+
  with m show "holders 0x40 shared_line = {23}" by (auto simp: holders_def)
  show "counters_ok shared_line" by (simp add: shared_line_def)
qed

theorem snoop_handles_request_witness:
  "(let (cl, job) = snoop_handle 1 \<lparr>r_id = 2, r_addr = 0x40, r_func = 2\<rparr> shared_line
    in holders 0x40 cl = {} \<and> job = None) \<and>
   (let (cl, job) = snoop_handle 1 \<lparr>r_id = 2, r_addr = 0x40, r_func = 1\<rparr> shared_line
    in holders 0x40 cl = {23} \<and> job = Some \<lparr>j_proc_id = 2, j_source_id = 1, j_addr = 0x40, j_line = 23\<rparr>)"
proof -
  obtain cl job where w: "snoop_handle 1 \<lparr>r_id = 2, r_addr = 0x40, r_func = 2\<rparr> shared_line = (cl, job)"
    by fastforce
  obtain cl' job' where r: "snoop_handle 1 \<lparr>r_id = 2, r_addr = 0x40, r_func = 1\<rparr> shared_line = (cl', job')"
    by fastforce
  show ?thesis
    using snoop_handles_request[OF shared_line_facts(1,2) w] snoop_handles_request[OF shared_line_facts(1,2) r]
    by (simp add: w r shared_line_facts(3))
qed

section \<open>Two races\<close>

lemma holders_fill:
  "absent_but {x_min_id c} c \<Longrightarrow> st \<noteq> CACHEL_INVALID \<Longrightarrow>
   holders (x_addr c) (fill_line (x_min_id c) (x_addr c) st (lines c)) = {x_min_id c}"
  by (auto simp: holders_def absent_but_def set_lines_of_def fill_present)

lemma fill_state [simp]: "state (fill_line r addr st cl r) = st"
  by (simp add: fill_line_def)


text \<open>a line that waits for its data still carries the tag of what it held before, so the snooper
  answers for it: a read of the old address turns the line from REQUESTED into SHARED and starts a
  cache-to-cache transfer of data that the cache does not have; and once its own read request is through,
  the execute thread sees a line that is no longer REQUESTED and reports its read as done without any
  response from the bus.\<close>
theorem waiting_line_answers_for_old_tag:
  assumes "core_inv c" and "x_pc c = X_Rd_Clk" and "x_f c = FUNC_READ"
    and "line_state c (x_min_id c) = CACHEL_REQUESTED" and "holders a (lines c) = {x_min_id c}"
    and "snoop_handle (core_id c) \<lparr>r_id = i, r_addr = a, r_func = func_code FUNC_READ\<rparr> (lines c) = (cl, job)"
    and "\<not> bus_busy b1" and "c' = snd (exec_resume z b2 (snd (exec_resume z b1 (c\<lparr>lines := cl\<rparr>))))"
  shows "job = Some \<lparr>j_proc_id = i, j_source_id = core_id c, j_addr = a, j_line = x_min_id c\<rparr> \<and>
    done_log c' = done_log c @ [RET_READ_DONE] \<and> holders (x_addr c) (lines c') = {x_min_id c} \<and>
    line_state c' (x_min_id c) = CACHEL_SHARED"
proof -
  have cnt: "counters_ok (lines c)" and p: "absent_but {x_min_id c} c"
    using assms(1,2) by (auto simp: core_inv_def pending_inv_def)
  have l: "snoop_lookup a (lines c) = int (x_min_id c)"
  proof -
    have "s_rindex (scan_lines a (lines c)) > -1" "nat (s_rindex (scan_lines a (lines c))) \<in> holders a (lines c)"
      using scan_found[OF cnt, of a] assms(5) by (auto simp: holders_def)
    then show ?thesis using assms(5) by (simp add: snoop_lookup_eq_scan[OF cnt])
  qed
  have s: "cl = set_state (x_min_id c) CACHEL_SHARED (lines c)"
    "job = Some \<lparr>j_proc_id = i, j_source_id = core_id c, j_addr = a, j_line = x_min_id c\<rparr>"
    using assms(4,6) by (auto simp: snoop_handle_def l line_state_def Let_def)
  have "c' = finish RET_READ_DONE Read_Miss (c\<lparr>lines := fill_line (x_min_id c) (x_addr c) CACHEL_SHARED cl\<rparr>)"
    using assms(2,3,7,8) by (simp add: exec_resume_def x_rd_try_def read_begin_def s line_state_def x_fill_def
        finish_def)
  then show ?thesis
    using holders_fill[OF p, of CACHEL_SHARED] by (simp add: s finish_def fill_set_state line_state_def)
qed

text \<open>the write hit path claims to check first that nobody has invalidated the line, but it does so
  only after a failed attempt to get the bus: a line that is invalidated in the cycle of the lookup becomes
  MODIFIED and is counted as a write hit, although the cache never fetches its data.\<close>
theorem write_hit_not_rechecked:
  assumes "x_pc c = X_Lookup" and "x_f c = FUNC_WRITE" and "x_rindex c = int k"
    and "line_state c k = CACHEL_INVALID" and "\<not> bus_busy b1"
    and "c' = snd (exec_resume z b2 (snd (exec_resume z b1 c)))"
  shows "line_state c' k = CACHEL_MODIFIED \<and> done_log c' = done_log c @ [RET_WRITE_DONE] \<and>
    stat_log c' = stat_log c @ [Write_Hit] \<and> access_rate c' = access_rate c"
  using assms
  by (simp add: exec_resume_def x_hit_def x_hit_inv_def Let_def cacheline_invalidate_begin_def finish_def
      line_state_def)


definition busy_bus :: bus where
  "busy_bus = new_bus\<lparr>bus_mutex := True\<rparr>"

definition cold_core :: core where
  "cold_core = snd (exec_resume 0 busy_bus (x_start FUNC_READ 0x5044 (new_core 1)))"

lemma cold_core_facts:
  "reach core_init (core_step 0) cold_core" "x_pc cold_core = X_Rd_Clk" "x_f cold_core = FUNC_READ"
  "x_min_id cold_core = 23" "x_addr cold_core = 0x5044" "core_id cold_core = 1"
  "lines cold_core = set_state 23 CACHEL_REQUESTED (s_lines (scan_lines 0x5044 init_lines))"
  "done_log cold_core = []"
proof -
  have "reach core_init (core_step 0) (x_start FUNC_READ 0x5044 (new_core 1))"
    by (rule reach_step[OF reach_init, of _ "new_core 1"])
       (auto simp: core_init_def new_core_def intro: core_step.start)
  from core_run[OF this] show "reach core_init (core_step 0) cold_core" by (simp add: cold_core_def)
  have m: "s_rindex (scan_lines 0x5044 init_lines) = -1" "s_min_id (scan_lines 0x5044 init_lines) = 23"
    by code_simp+
  have c: "cold_core = (new_core 1)\<lparr>x_f := FUNC_READ, x_addr := 0x5044,
      lines := set_state 23 CACHEL_REQUESTED (s_lines (scan_lines 0x5044 init_lines)), x_rindex := -1,
      x_min_id := 23, access_rate := 1, x_pc := X_Rd_Clk\<rparr>"
    by (simp add: cold_core_def x_start_def x_check_def Let_def m exec_resume_def x_miss_def x_post_writeback_def
        x_rd_try_def read_begin_def busy_bus_def bus_busy_def line_state_def dirty_def new_core_def state_init)
  show "x_pc cold_core = X_Rd_Clk" "x_f cold_core = FUNC_READ" "x_min_id cold_core = 23"
    "x_addr cold_core = 0x5044" "core_id cold_core = 1" "done_log cold_core = []"
    "lines cold_core = set_state 23 CACHEL_REQUESTED (s_lines (scan_lines 0x5044 init_lines))"
    by (simp_all add: c) (simp_all add: new_core_def)
qed

lemma tag_init: "tag (init_lines i) = 0"
  by (simp add: init_lines_def zero_line_def)

lemma cold_core_holds: "holders 0x44 (lines cold_core) = {23}"
proof -
  have "set_lines 0x44 = [16, 17, 18, 19, 20, 21, 22, 23]" "addr_tag 0x44 = 0" by code_simp+
  then show ?thesis
    by (auto simp: holders_def cold_core_facts(7) set_state_present)
       (auto simp: line_present_def get_tag_def state_init tag_init)
qed

theorem waiting_line_answers_for_old_tag_witness:
  "\<exists>cl. snoop_handle 1 \<lparr>r_id = 2, r_addr = 0x44, r_func = 1\<rparr> (lines cold_core) =
      (cl, Some \<lparr>j_proc_id = 2, j_source_id = 1, j_addr = 0x44, j_line = 23\<rparr>) \<and>
    done_log (snd (exec_resume 0 new_bus (snd (exec_resume 0 new_bus (cold_core\<lparr>lines := cl\<rparr>))))) = [RET_READ_DONE]"
proof -
  obtain cl job where s: "snoop_handle (core_id cold_core) \<lparr>r_id = 2, r_addr = 0x44, r_func = func_code FUNC_READ\<rparr>
      (lines cold_core) = (cl, job)" by fastforce
  have inv: "core_inv cold_core" by (rule core_ts.reach_inv[OF cold_core_facts(1)])
  have "line_state cold_core (x_min_id cold_core) = CACHEL_REQUESTED"
    by (simp add: line_state_def cold_core_facts)
  from waiting_line_answers_for_old_tag[OF inv cold_core_facts(2,3) this _ s free_bus refl]
  show ?thesis using s cold_core_holds by (simp add: cold_core_facts)
qed

definition raced_core :: core where
  "raced_core =
     (let c = x_start FUNC_WRITE 0x44 ((new_core 1)\<lparr>lines := shared_line\<rparr>)
      in c\<lparr>lines := fst (snoop_handle 1 \<lparr>r_id = 2, r_addr = 0x44, r_func = 3\<rparr> (lines c))\<rparr>)"

theorem write_hit_not_rechecked_witness:
  "line_state raced_core 23 = CACHEL_INVALID \<and>
   done_log (snd (exec_resume 0 new_bus (snd (exec_resume 0 new_bus raced_core)))) = [RET_WRITE_DONE] \<and>
   line_state (snd (exec_resume 0 new_bus (snd (exec_resume 0 new_bus raced_core)))) 23 = CACHEL_MODIFIED"
proof -
  have r: "s_rindex (scan_lines 0x44 shared_line) = 23"
    "snoop_lookup 0x44 (s_lines (scan_lines 0x44 shared_line)) = 23" by code_simp+
  have c: "x_pc raced_core = X_Lookup" "x_f raced_core = FUNC_WRITE" "x_rindex raced_core = int 23"
    "line_state raced_core 23 = CACHEL_INVALID" "done_log raced_core = []"
    by (simp_all add: raced_core_def Let_def x_start_def x_check_def r line_state_def snoop_handle_def)
       (simp_all add: new_core_def)
  from write_hit_not_rechecked[OF c(1-4) free_bus refl, of 0 new_bus] c show ?thesis by simp
qed

end
