(* ===== verification/Moesi_Held.thy ===== *)
theory Moesi_Held
  imports Cache_Guarantees
begin

text \<open>
  The state in which a line array of \<^verbatim>\<open>src/assignment_1/Cache.h\<close> holds an address, and how every
  update of the cache threads changes it: the abstraction from the arrays to the MOESI protocol.
\<close>

section \<open>The state in which a cache holds an address\<close>

definition held_state :: "cachelines \<Rightarrow> i32 \<Rightarrow> cl_state" where
  "held_state cl a = (let r = snoop_lookup a cl in if r > -1 then state (cl (nat r)) else CACHEL_INVALID)"

definition lines_ok :: "cachelines \<Rightarrow> bool" where
  "lines_ok cl \<longleftrightarrow> counters_ok cl \<and> no_duplicates {} cl"

lemma lookup_iff:
  assumes "lines_ok cl"
  shows "(snoop_lookup a cl > -1 \<longleftrightarrow> holders a cl \<noteq> {}) \<and>
    (snoop_lookup a cl > -1 \<longrightarrow> holders a cl = {nat (snoop_lookup a cl)})"
proof -
  have c: "counters_ok cl" using assms by (simp add: lines_ok_def)
  show ?thesis
    using scan_found[OF c, of a] assms
    unfolding snoop_lookup_eq_scan[OF c] lines_ok_def no_duplicates_def holders_def by blast
qed

lemma held_absent: "lines_ok cl \<Longrightarrow> holders a cl = {} \<Longrightarrow> held_state cl a = CACHEL_INVALID"
  using lookup_iff[of cl a] by (simp add: held_state_def Let_def)

lemma held_present: "lines_ok cl \<Longrightarrow> k \<in> holders a cl \<Longrightarrow> held_state cl a = state (cl k)"
  using lookup_iff[of cl a] by (auto simp: held_state_def Let_def)

lemma holders_valid: "k \<in> holders a cl \<Longrightarrow> state (cl k) \<noteq> CACHEL_INVALID"
  by (simp add: holders_def line_present_def)

lemma holders_unique: "lines_ok cl \<Longrightarrow> k \<in> holders a cl \<Longrightarrow> k' \<in> holders a cl \<Longrightarrow> k' = k"
  unfolding lines_ok_def no_duplicates_def holders_def by blast

lemma held_invalid_iff: "lines_ok cl \<Longrightarrow> held_state cl a = CACHEL_INVALID \<longleftrightarrow> holders a cl = {}"
  using held_absent[of cl a] held_present[of cl _ a] holders_valid by (metis all_not_in_conv)

lemma held_cases:
  assumes "lines_ok cl"
  obtains (absent) "holders a cl = {}" "held_state cl a = CACHEL_INVALID"
  | (present) k where "holders a cl = {k}" "held_state cl a = state (cl k)" "state (cl k) \<noteq> CACHEL_INVALID"
proof (cases "holders a cl = {}")
  case True
  then show ?thesis using held_absent[OF assms] absent by blast
next
  case False
  then obtain k where "k \<in> holders a cl" by blast
  moreover from this have "holders a cl = {k}" using holders_unique[OF assms] by blast
  ultimately show ?thesis using held_present[OF assms] holders_valid present by blast
qed

text \<open>A line holds two addresses exactly when they are in the same memory line.\<close>

lemma holders_same_line: "line_addr a = line_addr b \<Longrightarrow> holders a cl = holders b cl"
  by (auto simp: same_line_iff holders_def line_present_def set_lines_iff)

lemma holder_same_line: "k \<in> holders a cl \<Longrightarrow> k \<in> holders b cl' \<Longrightarrow> get_tag (cl' k) = get_tag (cl k) \<Longrightarrow>
    line_addr a = line_addr b"
  using set_lines_same_set[of k a b] by (simp add: same_line_iff holders_def line_present_def)

lemma held_same_line: "lines_ok cl \<Longrightarrow> line_addr a = line_addr b \<Longrightarrow> held_state cl a = held_state cl b"
  using holders_same_line[of a b cl] held_cases[of cl a] held_cases[of cl b]
  by (metis singleton_inject empty_not_insert)

section \<open>How the operations change it\<close>

lemma no_duplicates_state:
  "no_duplicates {} cl \<Longrightarrow> state (cl k) \<noteq> CACHEL_INVALID \<Longrightarrow> no_duplicates {} (set_state k st cl)"
  by (erule no_duplicates_lines) (auto simp: set_state_present line_present_def split: if_splits)

lemma lines_ok_set_state:
  "lines_ok cl \<Longrightarrow> state (cl k) \<noteq> CACHEL_INVALID \<Longrightarrow> lines_ok (set_state k st cl)"
  by (simp add: lines_ok_def no_duplicates_state)

lemma held_eqI:
  assumes "lines_ok cl" and "lines_ok cl'" and "holders b cl' = holders b cl"
    and "\<And>k. k \<in> holders b cl \<Longrightarrow> state (cl' k) = state (cl k)"
  shows "held_state cl' b = held_state cl b"
proof (rule held_cases[OF assms(1), of b])
  assume "holders b cl = {}" "held_state cl b = CACHEL_INVALID"
  then show ?thesis using held_absent[OF assms(2)] assms(3) by simp
next
  fix k assume "holders b cl = {k}" "held_state cl b = state (cl k)"
  then show ?thesis using held_present[OF assms(2), of k b] assms(3,4) by simp
qed

lemma held_set_state:
  assumes ok: "lines_ok cl" and k: "holders a cl = {k}"
  shows "held_state (set_state k st cl) b = (if line_addr b = line_addr a then st else held_state cl b)"
proof -
  have ok': "lines_ok (set_state k st cl)"
    using lines_ok_set_state[OF ok] holders_valid[of k a cl] k by simp
  show ?thesis
  proof (cases "line_addr b = line_addr a")
    case True
    then have b: "holders b cl = {k}" using k holders_same_line[of b a cl] by simp
    then have "holders b (set_state k st cl) = (if st = CACHEL_INVALID then {} else {k})"
      using holders_set_state[of k b cl st] by simp
    then show ?thesis using True held_absent[OF ok', of b] held_present[OF ok', of k b] by (auto split: if_splits)
  next
    case False
    then have "k \<notin> holders b cl" "k \<notin> holders b (set_state k st cl)"
      using holder_same_line[of k a cl b cl] holder_same_line[of k a cl b "set_state k st cl"] k by auto
    then have "holders b (set_state k st cl) = holders b cl"
      by (auto simp: holders_def set_state_present split: if_splits)
    then show ?thesis
      using held_absent[OF ok', of b] held_present[OF ok', of _ b] held_cases[OF ok, of b] False \<open>k \<notin> holders b cl\<close>
      by (metis insertI1 set_state_simps(1))
  qed
qed

lemma held_fill:
  assumes ok: "lines_ok cl" and r: "r \<in> set (set_lines a)" and none: "holders a cl = {}"
  shows "held_state (fill_line r a st cl) b =
    (if line_addr b = line_addr a then st else if r \<in> holders b cl then CACHEL_INVALID else held_state cl b)"
    and "lines_ok (fill_line r a st cl)"
proof -
  let ?cl = "fill_line r a st cl"
  show ok': "lines_ok ?cl"
    using ok r none no_duplicates_mono[of "{}" cl "{r}"] unfolding lines_ok_def
    by (auto intro!: no_duplicates_fill simp: holders_def)
  have h: "holders b ?cl = (if line_addr b = line_addr a then (if st = CACHEL_INVALID then {} else {r})
      else holders b cl - {r})"
  proof (cases "line_addr b = line_addr a")
    case True
    then have "set_lines b = set_lines a" "addr_tag b = addr_tag a" "holders b cl = {}"
      using none holders_same_line[of a b cl] by (simp_all add: same_line_iff set_lines_def)
    then show ?thesis using r True by (auto simp: holders_def fill_present split: if_splits)
  next
    case False
    have "r \<notin> holders b ?cl"
    proof
      assume "r \<in> holders b ?cl"
      then have "r \<in> set (set_lines b)" "addr_tag b = addr_tag a" by (auto simp: holders_def fill_present)
      with r False show False using set_lines_same_set[of r a b] by (simp add: same_line_iff)
    qed
    with False show ?thesis by (auto simp: holders_def fill_present split: if_splits)
  qed
  show "held_state ?cl b =
    (if line_addr b = line_addr a then st else if r \<in> holders b cl then CACHEL_INVALID else held_state cl b)"
  proof (cases "line_addr b = line_addr a")
    case True
    then show ?thesis using h held_absent[OF ok', of b] held_present[OF ok', of r b] by (auto split: if_splits)
  next
    case False
    show ?thesis
    proof (cases "r \<in> holders b cl")
      case True
      then have "holders b cl = {r}" using holders_unique[OF ok] by blast
      then show ?thesis using False h held_absent[OF ok', of b] by simp
    next
      case no: False
      then have "holders b ?cl = holders b cl" using h False by simp
      then show ?thesis
        using no False held_eqI[OF ok ok', of b] by (metis fun_upd_other fill_line_def)
    qed
  qed
qed

lemma held_same_lines:
  assumes "lines_ok cl" and "lines_ok cl'" and "\<And>i. line_present (cl' i) a = line_present (cl i) a"
    and "\<And>i. state (cl' i) = state (cl i)"
  shows "held_state cl' a = held_state cl a"
  using assms by (intro held_eqI) (simp_all add: holders_def)

lemma lines_ok_scan: "lines_ok cl \<Longrightarrow> lines_ok (s_lines (scan_lines a cl))"
  unfolding lines_ok_def using no_duplicates_lines[of "{}" cl "s_lines (scan_lines a cl)"] scan_counters_ok by simp

lemma held_scan [simp]: "lines_ok cl \<Longrightarrow> held_state (s_lines (scan_lines a cl)) b = held_state cl b"
  by (rule held_same_lines) (simp_all add: lines_ok_scan, simp_all add: lines_ok_def)

lemma lines_ok_use: "lines_ok cl \<Longrightarrow> lines_ok (use_line r cl)"
  unfolding lines_ok_def using no_duplicates_lines[of "{}" cl "use_line r cl"] by simp

lemma held_use [simp]: "lines_ok cl \<Longrightarrow> held_state (use_line r cl) b = held_state cl b"
  by (rule held_same_lines) (auto simp: lines_ok_use)

lemma lines_ok_init: "lines_ok init_lines"
  by (auto simp: lines_ok_def no_duplicates_def init_lines_def zero_line_def line_present_def counters_ok_def MAX_COUNTER_def)

lemma held_init: "held_state init_lines a = CACHEL_INVALID"
  by (simp add: held_invalid_iff[OF lines_ok_init]) (simp add: holders_def init_lines_def zero_line_def line_present_def)


section \<open>Tags\<close>

text \<open>Every tag in the array is the tag of some address.\<close>

definition tags_ok :: "cachelines \<Rightarrow> bool" where
  "tags_ok cl \<longleftrightarrow> (\<forall>i. \<exists>w. get_tag (cl i) = addr_tag w)"

lemma tags_ok_simps [simp]:
  "tags_ok cl \<Longrightarrow> tags_ok (set_state k st cl)"
  "tags_ok cl \<Longrightarrow> tags_ok (use_line k cl)"
  "tags_ok cl \<Longrightarrow> counters_ok cl \<Longrightarrow> tags_ok (s_lines (scan_lines a cl))"
  by (simp_all add: tags_ok_def) (simp add: get_tag_def)

lemma tags_ok_fill [simp]: "tags_ok cl \<Longrightarrow> tags_ok (fill_line k a st cl)"
  using tag_roundtrip[of a] by (auto simp: tags_ok_def fill_line_def get_tag_def)

lemma tags_ok_init: "tags_ok init_lines"
proof -
  have "addr_tag 0 = 0" by code_simp
  then show ?thesis by (auto simp: tags_ok_def init_lines_def zero_line_def get_tag_def intro: exI[of _ 0])
qed

text \<open>The write-back address of a valid line in the set of the access is an address that it holds.\<close>

lemma writeback_holds:
  assumes "tags_ok cl" and "v \<in> set (set_lines a)" and "state (cl v) \<noteq> CACHEL_INVALID"
  shows "v \<in> holders (writeback_addr (cl v) a) cl"
proof -
  let ?x = "writeback_addr (cl v) a"
  obtain w where w: "get_tag (cl v) = addr_tag w" using assms(1) by (auto simp: tags_ok_def)
  have x: "?x = push_bit 12 (addr_tag w) OR (a AND (NOT CACHETAG_MASK AND NOT 0x1F))"
    by (simp only: writeback_addr_def w CACHETAG_SHIFT_def)
  have bits: "bit ?x n \<longleftrightarrow> 12 \<le> n \<and> bit (addr_tag w) (n - 12) \<or> bit a n \<and> 5 \<le> n \<and> n < 12" if "n < 32" for n
  proof -
    have "n < LENGTH(32)" using that by simp
    then show ?thesis
      unfolding x by (simp only: bit_or_iff bit_push_bit_iff bit_and_iff[of a] bit_offset_mask
          possible_bit_word simp_thms)
  qed
  have tag: "addr_tag ?x = addr_tag w"
  proof (rule bit_word_eqI)
    fix n assume "n < LENGTH(32)"
    then show "bit (addr_tag ?x) n = bit (addr_tag w) n"
      by (simp add: bit_addr_tag bits)
  qed
  have "set_bits ?x = set_bits a"
  proof (rule bit_word_eqI)
    fix n
    show "bit (set_bits ?x) n = bit (set_bits a) n" by (cases "n < 7") (simp_all add: bit_set_bits bits)
  qed
  then have "set_lines ?x = set_lines a" by (simp add: set_lines_def index_eq)
  with tag w assms show ?thesis by (simp add: holders_def line_present_def)
qed

end
