(* ===== verification/Bus_Arbitration.thy ===== *)
theory Bus_Arbitration
  imports Bus
begin

text \<open>
  The threads that use the bus of \<^verbatim>\<open>src/assignment_1/Bus.h\<close>, interleaved at their
  \<^verbatim>\<open>wait\<close>s in any order: the execute threads of the caches (\<open>Requester\<close>), the threads that the
  snoopers spawn for \<^verbatim>\<open>cache_to_cache\<close> (\<open>Transfer\<close>), and the memory thread inside
  \<^verbatim>\<open>memory_response\<close>. The scheduler is free, so an invariant proved here holds for every
  schedule of the simulation kernel.
\<close>

datatype agent = Requester nat | Transfer nat | Main_Memory

datatype bus_pc =
  Off_Bus
| Request_Drive    \<comment> \<open>the \<^verbatim>\<open>wait\<close> of \<^verbatim>\<open>read\<close>, \<^verbatim>\<open>write\<close> or \<^verbatim>\<open>cacheline_invalidate\<close>\<close>
| C2C_Retry        \<comment> \<open>the \<^verbatim>\<open>wait\<close> after a failed \<^verbatim>\<open>try_lock\<close> of \<^verbatim>\<open>cache_to_cache\<close>\<close>
| C2C_Drive
| Mem_Yield        \<comment> \<open>waiting for announced cache-to-cache transfers\<close>
| Mem_Retry
| Mem_Drive

record bus_sys =
  the_bus :: bus
  pc_of :: "agent \<Rightarrow> bus_pc"

definition driving :: "bus_pc \<Rightarrow> bool" where
  "driving p \<longleftrightarrow> p \<in> {Request_Drive, C2C_Drive, Mem_Drive}"

definition set_agent :: "agent \<Rightarrow> bus_pc \<Rightarrow> bus \<Rightarrow> bus_sys \<Rightarrow> bus_sys" where
  "set_agent a p b s = s\<lparr>the_bus := b, pc_of := (pc_of s)(a := p)\<rparr>"

text \<open>One attempt of \<^verbatim>\<open>cache_to_cache\<close> to take the mutex, and of \<^verbatim>\<open>memory_response\<close>.\<close>

definition c2c_attempt :: "i32 \<Rightarrow> i32 \<Rightarrow> i32 \<Rightarrow> cl_state \<Rightarrow> agent \<Rightarrow> bus \<Rightarrow> bus_sys \<Rightarrow> bus_sys" where
  "c2c_attempt proc_id source_id addr st a b s =
     (case c2c_try proc_id source_id addr st b of
        None \<Rightarrow> set_agent a C2C_Retry b s
      | Some (b', _) \<Rightarrow> set_agent a C2C_Drive b' s)"

definition mem_attempt :: "i32 \<Rightarrow> i32 \<Rightarrow> bus \<Rightarrow> bus_sys \<Rightarrow> bus_sys" where
  "mem_attempt proc_id addr b s =
     (case mem_try proc_id addr b of
        (b', ok) \<Rightarrow> set_agent Main_Memory (if ok then Mem_Drive else Mem_Retry) b' s)"

definition mem_enter :: "i32 \<Rightarrow> i32 \<Rightarrow> bus_sys \<Rightarrow> bus_sys" where
  "mem_enter proc_id addr s =
     (case mem_announce (the_bus s) of
        None \<Rightarrow> set_agent Main_Memory Mem_Yield (the_bus s) s
      | Some b \<Rightarrow> mem_attempt proc_id addr b s)"

definition request_begin :: "mem_function \<Rightarrow> i32 \<Rightarrow> i32 \<Rightarrow> bus \<Rightarrow> bool \<times> bus" where
  "request_begin f proc_id addr b =
     (case f of FUNC_READ \<Rightarrow> read_begin proc_id addr b
      | FUNC_WRITE \<Rightarrow> write_begin proc_id addr b
      | FUNC_INVALIDATE \<Rightarrow> cacheline_invalidate_begin addr proc_id b
      | _ \<Rightarrow> (False, b))"

inductive bus_step :: "bus_sys \<Rightarrow> bus_sys \<Rightarrow> bool" where
  request: "pc_of s (Requester i) = Off_Bus \<Longrightarrow> request_begin f proc_id addr (the_bus s) = (True, b) \<Longrightarrow>
    bus_step s (set_agent (Requester i) Request_Drive b s)"
| request_refused: "pc_of s (Requester i) = Off_Bus \<Longrightarrow>
    request_begin f proc_id addr (the_bus s) = (False, b) \<Longrightarrow>
    bus_step s (set_agent (Requester i) Off_Bus b s)"
| request_done: "pc_of s (Requester i) = Request_Drive \<Longrightarrow>
    bus_step s (set_agent (Requester i) Off_Bus (request_end (the_bus s)) s)"
| transfer: "pc_of s (Transfer i) = Off_Bus \<Longrightarrow>
    bus_step s (c2c_attempt proc_id source_id addr st (Transfer i) (c2c_begin (the_bus s)) s)"
| transfer_again: "pc_of s (Transfer i) = C2C_Retry \<Longrightarrow>
    bus_step s (c2c_attempt proc_id source_id addr st (Transfer i) (the_bus s) s)"
| transfer_done: "pc_of s (Transfer i) = C2C_Drive \<Longrightarrow>
    bus_step s (set_agent (Transfer i) Off_Bus (c2c_end (the_bus s)) s)"
| respond: "pc_of s Main_Memory \<in> {Off_Bus, Mem_Yield} \<Longrightarrow> bus_step s (mem_enter proc_id addr s)"
| respond_again: "pc_of s Main_Memory = Mem_Retry \<Longrightarrow> bus_step s (mem_attempt proc_id addr (the_bus s) s)"
| respond_done: "pc_of s Main_Memory = Mem_Drive \<Longrightarrow>
    bus_step s (set_agent Main_Memory Off_Bus (mem_end (the_bus s)) s)"

inductive_cases bus_step_cases: "bus_step s t"

definition bus_init :: "bus_sys \<Rightarrow> bool" where
  "bus_init s \<longleftrightarrow> s = \<lparr>the_bus = new_bus, pc_of = (\<lambda>_. Off_Bus)\<rparr>"

section \<open>The invariant\<close>

definition wires_idle :: "bus \<Rightarrow> bool" where
  "wires_idle b \<longleftrightarrow> Port_BusAddr b = None \<and> Port_BusFunc b = None \<and> Port_ProcID b = None"

definition wires_driven :: "bus \<Rightarrow> bool" where
  "wires_driven b \<longleftrightarrow> Port_BusAddr b \<noteq> None \<and> Port_BusFunc b \<noteq> None \<and> Port_ProcID b \<noteq> None"

text \<open>Each kind of thread only visits its own program points.\<close>

definition own_points :: "(agent \<Rightarrow> bus_pc) \<Rightarrow> bool" where
  "own_points pc \<longleftrightarrow> (\<forall>i. pc (Requester i) \<in> {Off_Bus, Request_Drive}) \<and>
     (\<forall>i. pc (Transfer i) \<in> {Off_Bus, C2C_Retry, C2C_Drive}) \<and>
     pc Main_Memory \<in> {Off_Bus, Mem_Yield, Mem_Retry, Mem_Drive}"

definition bus_inv :: "bus_sys \<Rightarrow> bool" where
  "bus_inv s \<longleftrightarrow> own_points (pc_of s) \<and>
     (bus_mutex (the_bus s) \<longleftrightarrow> (\<exists>a. driving (pc_of s a))) \<and>
     (\<forall>a a'. driving (pc_of s a) \<longrightarrow> driving (pc_of s a') \<longrightarrow> a = a') \<and>
     (if bus_mutex (the_bus s) then wires_driven (the_bus s) else wires_idle (the_bus s)) \<and>
     (intended (the_bus s) \<longleftrightarrow> pc_of s Main_Memory \<in> {Mem_Retry, Mem_Drive})"

lemmas bus_op_defs =
  request_begin_def read_begin_def write_begin_def cacheline_invalidate_begin_def bus_busy_def
  drive_def request_end_def c2c_begin_def c2c_try_def c2c_end_def mem_announce_def mem_try_def
  mem_end_def

lemma driving_simps [simp]:
  "driving Request_Drive" "driving C2C_Drive" "driving Mem_Drive"
  "\<not> driving Off_Bus" "\<not> driving C2C_Retry" "\<not> driving Mem_Yield" "\<not> driving Mem_Retry"
  by (simp_all add: driving_def)

text \<open>
  The shape of every step: one agent moves. Taking the mutex needs it free and drives the wires,
  giving it up needs to have held it, anything else leaves mutex, wires and drivers alone.
\<close>

lemma set_agent_inv:
  assumes inv: "bus_inv s" and own: "own_points ((pc_of s)(a := p))"
    and int: "intended b \<longleftrightarrow> ((pc_of s)(a := p)) Main_Memory \<in> {Mem_Retry, Mem_Drive}"
    and how: "\<not> bus_mutex (the_bus s) \<and> driving p \<and> bus_mutex b \<and> wires_driven b
      \<or> driving (pc_of s a) \<and> \<not> driving p \<and> \<not> bus_mutex b \<and> wires_idle b
      \<or> \<not> driving (pc_of s a) \<and> \<not> driving p \<and> bus_mutex b = bus_mutex (the_bus s) \<and>
        Port_BusAddr b = Port_BusAddr (the_bus s) \<and> Port_BusFunc b = Port_BusFunc (the_bus s) \<and>
        Port_ProcID b = Port_ProcID (the_bus s)"
  shows "bus_inv (set_agent a p b s)"
  using how
proof (elim disjE)
  assume h: "\<not> bus_mutex (the_bus s) \<and> driving p \<and> bus_mutex b \<and> wires_driven b"
  then have "\<And>a'. \<not> driving (pc_of s a')" using inv by (auto simp: bus_inv_def)
  with h own int show ?thesis by (auto simp: bus_inv_def set_agent_def)
next
  assume h: "driving (pc_of s a) \<and> \<not> driving p \<and> \<not> bus_mutex b \<and> wires_idle b"
  then have "\<And>a'. driving (pc_of s a') \<Longrightarrow> a' = a" using inv by (auto simp: bus_inv_def)
  with h own int show ?thesis by (auto simp: bus_inv_def set_agent_def)
next
  assume h: "\<not> driving (pc_of s a) \<and> \<not> driving p \<and> bus_mutex b = bus_mutex (the_bus s) \<and>
        Port_BusAddr b = Port_BusAddr (the_bus s) \<and> Port_BusFunc b = Port_BusFunc (the_bus s) \<and>
        Port_ProcID b = Port_ProcID (the_bus s)"
  then have "driving (((pc_of s)(a := p)) a') \<longleftrightarrow> driving (pc_of s a')" for a' by auto
  with h inv own int show ?thesis by (auto simp: bus_inv_def set_agent_def wires_driven_def wires_idle_def)
qed

lemma own_points_upd:
  "own_points pc \<Longrightarrow> p \<in> {Off_Bus, Request_Drive} \<Longrightarrow> own_points (pc(Requester i := p))"
  "own_points pc \<Longrightarrow> p \<in> {Off_Bus, C2C_Retry, C2C_Drive} \<Longrightarrow> own_points (pc(Transfer i := p))"
  "own_points pc \<Longrightarrow> p \<in> {Off_Bus, Mem_Yield, Mem_Retry, Mem_Drive} \<Longrightarrow> own_points (pc(Main_Memory := p))"
  by (auto simp: own_points_def)

lemmas bus_inv_simps = bus_op_defs wires_driven_def wires_idle_def

lemma request_begin_True:
  "request_begin f proc_id addr b = (True, b') \<Longrightarrow>
   \<not> bus_busy b \<and> b' = drive f proc_id addr (b\<lparr>bus_mutex := True\<rparr>)"
  by (auto simp: request_begin_def read_begin_def write_begin_def cacheline_invalidate_begin_def
      split: mem_function.splits if_splits)

lemma request_begin_False: "request_begin f proc_id addr b = (False, b') \<Longrightarrow> b' = b"
  by (auto simp: request_begin_def read_begin_def write_begin_def cacheline_invalidate_begin_def
      split: mem_function.splits if_splits)

lemma c2c_attempt_inv:
  assumes inv: "bus_inv s" and pc: "pc_of s (Transfer i) \<in> {Off_Bus, C2C_Retry}"
    and b: "b = the_bus s \<or> b = c2c_begin (the_bus s)"
  shows "bus_inv (c2c_attempt proc_id source_id addr st (Transfer i) b s)"
proof -
  have own: "own_points (pc_of s)" and idle: "\<not> driving (pc_of s (Transfer i))"
    and int: "intended (the_bus s) \<longleftrightarrow> pc_of s Main_Memory \<in> {Mem_Retry, Mem_Drive}"
    using inv pc by (auto simp: bus_inv_def)
  show ?thesis
  proof (cases "bus_mutex (the_bus s)")
    case True
    have "bus_inv (set_agent (Transfer i) C2C_Retry b s)"
      by (rule set_agent_inv[OF inv]) (use own idle int b in \<open>auto simp: own_points_upd c2c_begin_def\<close>)
    then show ?thesis using True b by (auto simp: c2c_attempt_def c2c_try_def c2c_begin_def)
  next
    case False
    have "bus_inv (set_agent (Transfer i) C2C_Drive b' s)"
      if "c2c_try proc_id source_id addr st b = Some (b', st')" for b' st'
      by (rule set_agent_inv[OF inv])
         (use own int b False that in \<open>auto simp: own_points_upd bus_inv_simps split: if_splits\<close>)
    then show ?thesis using False b by (auto simp: c2c_attempt_def c2c_begin_def split: option.splits)
       (auto simp: c2c_try_def)
  qed
qed

lemma mem_attempt_inv:
  assumes inv: "bus_inv s" and pc: "pc_of s Main_Memory \<in> {Off_Bus, Mem_Yield, Mem_Retry}"
    and b: "b = (the_bus s)\<lparr>intended := True\<rparr>"
  shows "bus_inv (mem_attempt proc_id addr b s)"
proof -
  have own: "own_points (pc_of s)" and idle: "\<not> driving (pc_of s Main_Memory)"
    using inv pc by (auto simp: bus_inv_def)
  show ?thesis
  proof (cases "bus_mutex (the_bus s)")
    case True
    have "bus_inv (set_agent Main_Memory Mem_Retry (b\<lparr>intended := True\<rparr>) s)"
      by (rule set_agent_inv[OF inv]) (use own idle b in \<open>auto simp: own_points_upd\<close>)
    then show ?thesis using True b by (simp add: mem_attempt_def mem_try_def)
  next
    case False
    have "bus_inv (set_agent Main_Memory Mem_Drive (fst (mem_try proc_id addr b)) s)"
      by (rule set_agent_inv[OF inv]) (use own b False in \<open>auto simp: own_points_upd bus_inv_simps\<close>)
    then show ?thesis using False b by (simp add: mem_attempt_def mem_try_def)
  qed
qed

lemma mem_retry_intended: "bus_inv s \<Longrightarrow> pc_of s Main_Memory = Mem_Retry \<Longrightarrow>
    the_bus s = (the_bus s)\<lparr>intended := True\<rparr>"
  by (cases "the_bus s") (auto simp: bus_inv_def)

lemma bus_step_inv: "bus_step s t \<Longrightarrow> bus_inv s \<Longrightarrow> bus_inv t"
proof (induction rule: bus_step.induct)
  case (request s i f proc_id addr b)
  then have "\<not> bus_busy (the_bus s)" "b = drive f proc_id addr ((the_bus s)\<lparr>bus_mutex := True\<rparr>)"
    using request_begin_True by blast+
  then show ?case using request
    by (intro set_agent_inv) (auto simp: own_points_upd bus_inv_def bus_busy_def drive_def wires_driven_def)
next
  case (request_refused s i f proc_id addr b)
  then have "set_agent (Requester i) Off_Bus b s = s"
    using request_begin_False[OF request_refused(2)] by (simp add: set_agent_def fun_upd_idem)
  then show ?case using request_refused by simp
next
  case (request_done s i)
  then show ?case
    by (intro set_agent_inv) (auto simp: own_points_upd bus_inv_def request_end_def wires_idle_def)
next
  case (transfer s i proc_id source_id addr st)
  then show ?case by (intro c2c_attempt_inv) auto
next
  case (transfer_again s i proc_id source_id addr st)
  then show ?case by (intro c2c_attempt_inv) auto
next
  case (transfer_done s i)
  then show ?case
    by (intro set_agent_inv) (auto simp: own_points_upd bus_inv_def c2c_end_def wires_idle_def)
next
  case (respond s proc_id addr)
  show ?case
  proof (cases "c2c_intended (the_bus s)")
    case True
    have "bus_inv (set_agent Main_Memory Mem_Yield (the_bus s) s)"
      using respond by (intro set_agent_inv) (auto simp: own_points_upd bus_inv_def)
    then show ?thesis using True by (simp add: mem_enter_def mem_announce_def)
  next
    case False
    then show ?thesis using respond mem_attempt_inv[of s] by (auto simp: mem_enter_def mem_announce_def)
  qed
next
  case (respond_again s proc_id addr)
  then show ?case using mem_retry_intended by (intro mem_attempt_inv) auto
next
  case (respond_done s)
  then show ?case
    by (intro set_agent_inv) (auto simp: own_points_upd bus_inv_def mem_end_def wires_idle_def)
qed

lemma bus_init_inv: "bus_init s \<Longrightarrow> bus_inv s"
  by (auto simp: bus_init_def bus_inv_def own_points_def new_bus_def wires_idle_def)

interpretation bus_ts: transition_invariant bus_init bus_step bus_inv
  by unfold_locales (auto intro: bus_init_inv bus_step_inv)

text \<open>C27: under every schedule at most one thread drives the bus; the mutex is held exactly while one
  does, the wires then all carry values, and they are all released while the mutex is free. A memory
  response is announced exactly while the memory thread waits for the mutex or drives.\<close>
theorem bus_exclusive:
  assumes "reach bus_init bus_step s"
  shows "(driving (pc_of s a) \<longrightarrow> driving (pc_of s a') \<longrightarrow> a = a') \<and>
    (bus_mutex (the_bus s) \<longleftrightarrow> (\<exists>a. driving (pc_of s a))) \<and>
    (if bus_mutex (the_bus s) then wires_driven (the_bus s) else wires_idle (the_bus s)) \<and>
    (intended (the_bus s) \<longleftrightarrow> pc_of s Main_Memory \<in> {Mem_Retry, Mem_Drive})"
  using bus_ts.reach_inv[OF assms] unfolding bus_inv_def by blast

text \<open>no read, write or invalidate request can take the bus while a memory response is waiting
  for it or using it, nor while the flag for cache-to-cache transfers is up; a refused request changes nothing.\<close>
theorem responses_have_priority:
  assumes "reach bus_init bus_step s"
    and "pc_of s Main_Memory \<in> {Mem_Retry, Mem_Drive} \<or> c2c_intended (the_bus s)"
  shows "request_begin f proc_id addr (the_bus s) = (False, the_bus s)"
proof -
  have "bus_busy (the_bus s)"
    using bus_ts.reach_inv[OF assms(1)] assms(2) by (auto simp: bus_busy_def bus_inv_def)
  then show ?thesis
    by (auto simp: request_begin_def read_begin_def write_begin_def cacheline_invalidate_begin_def
        split: mem_function.splits)
qed

section \<open>Two transfers at once\<close>

text \<open>
  \<^verbatim>\<open>c2c_intended\<close> is a flag, not a counter. Two caches that hold the requested line both answer
  by \<^verbatim>\<open>cache_to_cache\<close>; when the first finishes it clears the flag, although the second still
  waits.
\<close>

definition two_transfers :: bus_sys where
  "two_transfers =
     (let s0 = \<lparr>the_bus = new_bus, pc_of = (\<lambda>_. Off_Bus)\<rparr>;
          s1 = c2c_attempt 0 1 0x40 CACHEL_SHARED (Transfer 1) (c2c_begin (the_bus s0)) s0;
          s2 = c2c_attempt 0 2 0x40 CACHEL_SHARED (Transfer 2) (c2c_begin (the_bus s1)) s1
      in set_agent (Transfer 1) Off_Bus (c2c_end (the_bus s2)) s2)"

lemma two_transfers_reachable: "reach bus_init bus_step two_transfers"
proof -
  define s0 where "s0 = \<lparr>the_bus = new_bus, pc_of = (\<lambda>_::agent. Off_Bus)\<rparr>"
  define s1 where "s1 = c2c_attempt 0 1 0x40 CACHEL_SHARED (Transfer 1) (c2c_begin (the_bus s0)) s0"
  define s2 where "s2 = c2c_attempt 0 2 0x40 CACHEL_SHARED (Transfer 2) (c2c_begin (the_bus s1)) s1"
  note defs = s0_def s1_def s2_def c2c_attempt_def c2c_begin_def c2c_try_def new_bus_def set_agent_def drive_def
  have "reach bus_init bus_step s0" by (rule reach_init) (simp add: bus_init_def s0_def)
  moreover have "bus_step s0 s1" unfolding s1_def by (rule bus_step.transfer) (simp add: s0_def)
  moreover have "bus_step s1 s2" unfolding s2_def by (rule bus_step.transfer) (simp add: defs)
  moreover have "bus_step s2 two_transfers"
  proof -
    have "two_transfers = set_agent (Transfer 1) Off_Bus (c2c_end (the_bus s2)) s2"
      by (simp add: two_transfers_def s0_def s1_def s2_def Let_def)
    moreover have "pc_of s2 (Transfer 1) = C2C_Drive" by (simp add: defs)
    ultimately show ?thesis using bus_step.transfer_done by metis
  qed
  ultimately show ?thesis by (blast intro: reach_step)
qed

text \<open>the highest priority that the code claims for cache-to-cache transfers can be lost: a state is
  reachable in which a transfer is still waiting for the bus, its announcement has been cleared by
  another transfer, and a new read request gets the bus before it.\<close>
theorem c2c_announcement_lost:
  "\<exists>s. reach bus_init bus_step s \<and> pc_of s (Transfer 2) = C2C_Retry \<and> \<not> c2c_intended (the_bus s) \<and>
     fst (request_begin FUNC_READ proc_id addr (the_bus s))"
proof -
  have "pc_of two_transfers (Transfer 2) = C2C_Retry \<and> \<not> c2c_intended (the_bus two_transfers) \<and>
     fst (request_begin FUNC_READ proc_id addr (the_bus two_transfers))"
    by (simp add: two_transfers_def Let_def c2c_attempt_def set_agent_def bus_op_defs new_bus_def)
  then show ?thesis using two_transfers_reachable by blast
qed

theorem bus_exclusive_witness:
  "\<not> driving (pc_of two_transfers (Transfer 2)) \<and>
   (bus_mutex (the_bus two_transfers) \<longleftrightarrow> (\<exists>a. driving (pc_of two_transfers a))) \<and>
   \<not> bus_mutex (the_bus two_transfers) \<and> wires_idle (the_bus two_transfers)"
proof -
  have m: "\<not> bus_mutex (the_bus two_transfers)"
    by (simp add: two_transfers_def Let_def c2c_attempt_def set_agent_def bus_op_defs new_bus_def)
  then have "\<not> driving (pc_of two_transfers (Transfer 2))"
    using bus_exclusive[OF two_transfers_reachable] by blast
  then show ?thesis using bus_exclusive[OF two_transfers_reachable] m by auto
qed

theorem responses_have_priority_witness:
  "\<exists>s. reach bus_init bus_step s \<and> pc_of s Main_Memory = Mem_Drive \<and>
     request_begin FUNC_READ 3 0x80 (the_bus s) = (False, the_bus s)"
proof -
  define s0 where "s0 = \<lparr>the_bus = new_bus, pc_of = (\<lambda>_::agent. Off_Bus)\<rparr>"
  have "reach bus_init bus_step s0" by (rule reach_init) (simp add: bus_init_def s0_def)
  moreover have "bus_step s0 (mem_enter 1 0x40 s0)" by (rule bus_step.respond) (simp add: s0_def)
  ultimately have r: "reach bus_init bus_step (mem_enter 1 0x40 s0)" by (rule reach_step)
  have pc: "pc_of (mem_enter 1 0x40 s0) Main_Memory = Mem_Drive"
    by (simp add: s0_def mem_enter_def mem_attempt_def set_agent_def bus_op_defs new_bus_def)
  then have "request_begin FUNC_READ 3 0x80 (the_bus (mem_enter 1 0x40 s0))
      = (False, the_bus (mem_enter 1 0x40 s0))"
    using responses_have_priority[OF r, of FUNC_READ 3 "0x80"] by simp
  with r pc show ?thesis by blast
qed

end
