(* ===== verification/Moesi_System.thy ===== *)
theory Moesi_System
  imports Moesi_Held Bus_Arbitration
begin

text \<open>
  All caches of \<^verbatim>\<open>src/assignment_1\<close> on one bus, composed from the execute machine, the snoop
  handler and the bus operations, with one access under way at a time; the abstract MOESI protocol and
  its coherence; and the effect of one wake-up on all caches.
\<close>

section \<open>All caches, one access at a time\<close>

text \<open>
  The caches \<open>0 ..< n\<close> on one bus, with processor \<open>k\<close> the only one that accesses its cache. One
  \<open>seq_step\<close> is a wake-up of its execute thread and what the others do before the next one: when a request
  has just been put on the wires every snooper handles it; when the thread waits for a response, the
  spawned transfers take the bus in turn, or else the memory answers.
\<close>

definition snoop_core :: "i32 \<Rightarrow> bus \<Rightarrow> core \<Rightarrow> core \<times> c2c_job option" where
  "snoop_core z b c =
     (case wait_for_any z (core_id c) [b] of
        None \<Rightarrow> (c, None)
      | Some (req, _) \<Rightarrow>
          (case snoop_handle (core_id c) req (lines c) of (cl, job) \<Rightarrow> (c\<lparr>lines := cl\<rparr>, job)))"

definition snoop_all :: "i32 \<Rightarrow> nat \<Rightarrow> bus \<Rightarrow> (nat \<Rightarrow> core) \<Rightarrow> (nat \<Rightarrow> core) \<times> (nat \<times> c2c_job) list" where
  "snoop_all z n b C =
     (\<lambda>i. if i < n then fst (snoop_core z b (C i)) else C i,
      concat (map (\<lambda>i. case snd (snoop_core z b (C i)) of None \<Rightarrow> [] | Some j \<Rightarrow> [(i, j)]) [0 ..< n]))"

fun seq_transfers :: "(nat \<times> c2c_job) list \<Rightarrow> (nat \<Rightarrow> core) \<Rightarrow> (nat \<Rightarrow> core) \<times> bus list" where
  "seq_transfers [] C = (C, [])"
| "seq_transfers ((i, j) # js) C =
     (case c2c_try (j_proc_id j) (j_source_id j) (j_addr j) (line_state (C i) (j_line j)) (c2c_begin new_bus) of
        None \<Rightarrow> (C, [])
      | Some (b, st) \<Rightarrow>
          (case seq_transfers js (C(i := (C i)\<lparr>lines := set_state (j_line j) st (lines (C i))\<rparr>)) of
             (C', bs) \<Rightarrow> (C', b # bs)))"

fun awaited :: "core \<Rightarrow> exec_pc \<Rightarrow> i32 option" where
  "awaited c (X_Wb_Wait st) = Some (x_wbaddr c)"
| "awaited c (X_Rd_Wait st) = Some (line_addr (x_addr c))"
| "awaited c _ = None"

definition seq_reply :: "i32 \<Rightarrow> i32 \<Rightarrow> bus list \<Rightarrow> bus" where
  "seq_reply proc_id addr bs = (case bs of b # _ \<Rightarrow> b | [] \<Rightarrow> fst (mem_try proc_id addr (new_bus\<lparr>intended := True\<rparr>)))"

type_synonym seq_state = "(nat \<Rightarrow> core) \<times> bus \<times> (nat \<times> c2c_job) list"

definition seq_step :: "i32 \<Rightarrow> nat \<Rightarrow> nat \<Rightarrow> seq_state \<Rightarrow> seq_state" where
  "seq_step z n k = (\<lambda>(C, b, js).
     case exec_resume z b (C k) of (b', c) \<Rightarrow>
       (let C1 = C(k := c) in
        if bus_mutex b' \<and> \<not> bus_mutex b then (case snoop_all z n b' C1 of (C2, js') \<Rightarrow> (C2, b', js'))
        else case awaited c (x_pc c) of
          Some addr \<Rightarrow> (case seq_transfers js C1 of (C2, bs) \<Rightarrow> (C2, seq_reply (core_id c) addr bs, []))
        | None \<Rightarrow> (C1, new_bus, [])))"

definition seq_access :: "i32 \<Rightarrow> nat \<Rightarrow> nat \<Rightarrow> mem_function \<Rightarrow> i32 \<Rightarrow> (nat \<Rightarrow> core) \<Rightarrow> nat \<Rightarrow> core" where
  "seq_access z n k f a C =
     fst ((seq_step z n k ^^ 12) (C(k := x_start f a (C k)), new_bus, []))"

section \<open>The protocol\<close>

text \<open>The abstract MOESI protocol: the state in which each cache holds each address.\<close>

type_synonym moesi = "nat \<Rightarrow> i32 \<Rightarrow> cl_state"

definition same_line :: "i32 \<Rightarrow> i32 \<Rightarrow> bool" where
  "same_line a b \<longleftrightarrow> line_addr a = line_addr b"

definition moesi_drop :: "(nat \<Rightarrow> bool) \<Rightarrow> i32 \<Rightarrow> moesi \<Rightarrow> moesi" where
  "moesi_drop P a S = (\<lambda>i b. if P i \<and> same_line b a then CACHEL_INVALID else S i b)"

definition moesi_evict :: "nat \<Rightarrow> i32 option \<Rightarrow> moesi \<Rightarrow> moesi" where
  "moesi_evict k ev S =
     (case ev of None \<Rightarrow> S
      | Some v \<Rightarrow> moesi_drop (\<lambda>i. i = k \<or> dirty (S k v)) v S)"

definition moesi_read :: "nat \<Rightarrow> nat \<Rightarrow> i32 \<Rightarrow> moesi \<Rightarrow> moesi" where
  "moesi_read n k a S =
     (if S k a \<noteq> CACHEL_INVALID then S
      else (\<lambda>i b. if \<not> same_line b a then S i b
                  else if i = k then (if \<exists>j<n. j \<noteq> k \<and> S j a \<noteq> CACHEL_INVALID then CACHEL_SHARED
                                      else CACHEL_EXCLUSIVE)
                  else c2c_clstate (S i b)))"

definition moesi_write :: "nat \<Rightarrow> i32 \<Rightarrow> moesi \<Rightarrow> moesi" where
  "moesi_write k a S =
     (\<lambda>i b. if \<not> same_line b a then S i b else if i = k then CACHEL_MODIFIED else CACHEL_INVALID)"

definition compatible :: "cl_state \<Rightarrow> cl_state \<Rightarrow> bool" where
  "compatible s t \<longleftrightarrow> s = CACHEL_INVALID \<or> t = CACHEL_INVALID \<or>
     (s, t) \<in> {(CACHEL_SHARED, CACHEL_SHARED), (CACHEL_SHARED, CACHEL_OWNED), (CACHEL_OWNED, CACHEL_SHARED)}"

definition coherent :: "nat \<Rightarrow> moesi \<Rightarrow> bool" where
  "coherent n S \<longleftrightarrow> (\<forall>i<n. \<forall>j<n. \<forall>a. i \<noteq> j \<longrightarrow> compatible (S i a) (S j a))"

lemma coherent_drop: "coherent n S \<Longrightarrow> coherent n (moesi_drop P a S)"
  by (simp add: coherent_def moesi_drop_def compatible_def)

lemma coherent_evict: "coherent n S \<Longrightarrow> coherent n (moesi_evict k ev S)"
  by (simp add: moesi_evict_def coherent_drop split: option.split)

lemma coherent_write: "coherent n S \<Longrightarrow> coherent n (moesi_write k a S)"
  by (simp add: coherent_def moesi_write_def compatible_def)

lemma compatible_c2c: "compatible s t \<Longrightarrow> compatible (c2c_clstate s) (c2c_clstate t)"
  by (cases s; cases t) (auto simp: compatible_def c2c_clstate_def)

lemma compatible_shared:
  "s \<noteq> CACHEL_REQUESTED \<Longrightarrow> compatible CACHEL_SHARED (c2c_clstate s) \<and> compatible (c2c_clstate s) CACHEL_SHARED"
  by (cases s) (auto simp: compatible_def c2c_clstate_def)

lemma coherent_read:
  assumes "coherent n S" and "\<And>i. i < n \<Longrightarrow> S i a \<noteq> CACHEL_REQUESTED"
    and "\<And>i b. i < n \<Longrightarrow> same_line b a \<Longrightarrow> S i b = S i a"
  shows "coherent n (moesi_read n k a S)"
proof (cases "S k a = CACHEL_INVALID")
  case False
  then show ?thesis using assms(1) by (simp add: moesi_read_def)
next
  case inv: True
  let ?S = "moesi_read n k a S"
  have "compatible (?S i b) (?S j b)" if "i < n" "j < n" "i \<noteq> j" for i j b
  proof (cases "same_line b a")
    case False
    then show ?thesis using assms(1) that by (simp add: coherent_def moesi_read_def)
  next
    case True
    have ij: "compatible (S i a) (S j a)" using assms(1) that by (simp add: coherent_def)
    consider "i = k" | "j = k" | "i \<noteq> k" "j \<noteq> k" using that(3) by blast
    then show ?thesis
    proof cases
      case 1
      then show ?thesis
        using True that inv assms(2,3)[of j] compatible_shared[of "S j a"]
        by (cases "S j a = CACHEL_INVALID") (auto simp: moesi_read_def compatible_def c2c_clstate_def)
    next
      case 2
      then show ?thesis
        using True that inv assms(2,3)[of i] compatible_shared[of "S i a"]
        by (cases "S i a = CACHEL_INVALID") (auto simp: moesi_read_def compatible_def c2c_clstate_def)
    next
      case 3
      then show ?thesis using True that inv assms(3) compatible_c2c[OF ij] by (simp add: moesi_read_def)
    qed
  qed
  then show ?thesis by (simp add: coherent_def)
qed

section \<open>What the other caches do\<close>

definition idle_core :: "nat \<Rightarrow> core \<Rightarrow> bool" where
  "idle_core i c \<longleftrightarrow> core_id c = of_nat i \<and> x_pc c = X_Func \<and> lines_ok (lines c) \<and> tags_ok (lines c) \<and>
     (\<forall>a. held_state (lines c) a \<noteq> CACHEL_REQUESTED)"

definition others_idle :: "nat \<Rightarrow> nat \<Rightarrow> (nat \<Rightarrow> core) \<Rightarrow> bool" where
  "others_idle n k C \<longleftrightarrow> (\<forall>i<n. i \<noteq> k \<longrightarrow> idle_core i (C i))"

definition view :: "(nat \<Rightarrow> core) \<Rightarrow> moesi" where
  "view C i a = held_state (lines (C i)) a"

lemma distinct_ids:
  assumes "i < n" and "k < n" and "n < 2 ^ 32" and "i \<noteq> k"
  shows "(of_nat i :: i32) \<noteq> of_nat k"
proof -
  have "unat (of_nat i :: i32) = i" "unat (of_nat k :: i32) = k"
    using assms by (simp_all add: unsigned_of_nat take_bit_nat_eq_self)
  then show ?thesis using assms(4) by metis
qed

lemma not_dram:
  assumes "i < n" and "n < 2 ^ 32"
  shows "(of_nat i :: i32) \<noteq> DRAM_IDENTIFIER"
proof -
  have "unat (of_nat i :: i32) = i" using assms by (simp add: unsigned_of_nat take_bit_nat_eq_self)
  moreover have "unat DRAM_IDENTIFIER = 2 ^ 32 - 1" by (simp add: DRAM_IDENTIFIER_def)
  ultimately show ?thesis using assms by auto
qed

lemma request_wires:
  assumes "request_begin f pid a b = (True, b')"
  shows "func_is z b' f" "to_int z (Port_ProcID b') = pid"
    "wires_request z b' = \<lparr>r_id = pid, r_addr = a, r_func = func_code f\<rparr>"
    "f \<in> {FUNC_READ, FUNC_WRITE, FUNC_INVALIDATE}" "bus_mutex b'" "\<not> bus_mutex b"
  using assms
  by (auto simp: request_begin_def read_begin_def write_begin_def cacheline_invalidate_begin_def bus_busy_def
      drive_def func_is_def to_int_def wires_request_def split: mem_function.splits if_splits)

lemma snoop_own:
  "request_begin f (core_id c) a b = (True, b') \<Longrightarrow> snoop_core z b' c = (c, None)"
  using request_wires(2)[where pid = "core_id c" and z = z] by (simp add: snoop_core_def)

lemma snoop_other:
  assumes "request_begin f pid a b = (True, b')" and "core_id c \<noteq> pid"
  shows "snoop_core z b' c =
    (case snoop_handle (core_id c) \<lparr>r_id = pid, r_addr = a, r_func = func_code f\<rparr> (lines c) of
       (cl, job) \<Rightarrow> (c\<lparr>lines := cl\<rparr>, job))"
  using request_wires(1-3)[OF assms(1), of z] request_wires(4)[OF assms(1)] assms(2)
  by (auto simp: snoop_core_def)

lemma kill_core:
  assumes "idle_core i c" and "of_nat i \<noteq> pid" and "request_begin f pid a b = (True, b')" and "f \<noteq> FUNC_READ"
  shows "idle_core i (fst (snoop_core z b' c)) \<and> snd (snoop_core z b' c) = None \<and>
    held_state (lines (fst (snoop_core z b' c))) d =
      (if same_line d a then CACHEL_INVALID else held_state (lines c) d)"
proof -
  have ok: "counters_ok (lines c)" "no_duplicates {} (lines c)" "lines_ok (lines c)" and cid: "core_id c \<noteq> pid"
    using assms(1,2) by (auto simp: idle_core_def lines_ok_def)
  let ?r = "\<lparr>r_id = pid, r_addr = a, r_func = func_code f\<rparr>"
  obtain cl job where h: "snoop_handle (core_id c) ?r (lines c) = (cl, job)" by fastforce
  have s: "snoop_core z b' c = (c\<lparr>lines := cl\<rparr>, job)" using snoop_other[OF assms(3) cid, of z] h by simp
  have f: "f = FUNC_WRITE \<or> f = FUNC_INVALIDATE" using request_wires(4)[OF assms(3)] assms(4) by auto
  from ok(1,2) h show ?thesis
  proof (cases rule: snoop_handle_cases)
    case absent
    then show ?thesis
      using assms(1) s held_absent[OF ok(3), of d] holders_same_line[of d a] by (auto simp: same_line_def)
  next
    case (killed k)
    then have "holders a (lines c) = {k}" by simp
    note hs = held_set_state[OF ok(3) this, of CACHEL_INVALID]
    have "lines_ok cl"
      using killed(1,2) lines_ok_set_state[OF ok(3), of k] holders_valid[of k a "lines c"] by simp
    then show ?thesis using assms(1) s killed hs by (simp add: idle_core_def same_line_def)
  next
    case (read k)
    then show ?thesis using f by auto
  next
    case (other k)
    then show ?thesis using f by auto
  qed
qed

lemma read_core:
  assumes "idle_core i c" and "of_nat i \<noteq> pid" and "request_begin FUNC_READ pid a b = (True, b')"
  shows "fst (snoop_core z b' c) = c \<and>
    (if held_state (lines c) a = CACHEL_INVALID then snd (snoop_core z b' c) = None
     else \<exists>k. holders a (lines c) = {k} \<and>
       snd (snoop_core z b' c) = Some \<lparr>j_proc_id = pid, j_source_id = of_nat i, j_addr = a, j_line = k\<rparr>)"
proof -
  have ok: "counters_ok (lines c)" "no_duplicates {} (lines c)" "lines_ok (lines c)"
    and cid: "core_id c = of_nat i" "core_id c \<noteq> pid" and nr: "held_state (lines c) a \<noteq> CACHEL_REQUESTED"
    using assms(1,2) by (auto simp: idle_core_def lines_ok_def)
  let ?r = "\<lparr>r_id = pid, r_addr = a, r_func = func_code FUNC_READ\<rparr>"
  obtain cl job where h: "snoop_handle (core_id c) ?r (lines c) = (cl, job)" by fastforce
  have s: "snoop_core z b' c = (c\<lparr>lines := cl\<rparr>, job)" using snoop_other[OF assms(3) cid(2), of z] h by simp
  from ok(1,2) h show ?thesis
  proof (cases rule: snoop_handle_cases)
    case absent
    then show ?thesis using s held_absent[OF ok(3), of a] by simp
  next
    case (killed k)
    then show ?thesis by simp
  next
    case (read k)
    then have k: "holders a (lines c) = {k}" by simp
    then have "held_state (lines c) a = state (lines c k)" "state (lines c k) \<noteq> CACHEL_INVALID"
      using held_present[OF ok(3), of k a] holders_valid[of k a "lines c"] by auto
    then show ?thesis using s read nr k cid(1) by simp
  next
    case (other k)
    then show ?thesis by simp
  qed
qed

lemma transfer_core:
  assumes "idle_core i c" and "holders a (lines c) = {k}"
  shows "idle_core i (c\<lparr>lines := set_state k (c2c_clstate (line_state c k)) (lines c)\<rparr>) \<and>
    held_state (set_state k (c2c_clstate (line_state c k)) (lines c)) d =
      (if same_line d a then c2c_clstate (held_state (lines c) d) else held_state (lines c) d)"
proof -
  have ok: "lines_ok (lines c)" using assms(1) by (simp add: idle_core_def)
  have st: "held_state (lines c) a = line_state c k"
    using held_present[OF ok, of k a] assms(2) by (simp add: line_state_def)
  have ok': "lines_ok (set_state k (c2c_clstate (line_state c k)) (lines c))"
    using lines_ok_set_state[OF ok] holders_valid[of k a "lines c"] assms(2) by simp
  have nr: "c2c_clstate (line_state c k) \<noteq> CACHEL_REQUESTED"
    using assms(1) st by (auto simp: idle_core_def c2c_clstate_def split: cl_state.splits)
  have "held_state (lines c) d = line_state c k" if "line_addr d = line_addr a" for d
    using held_same_line[OF ok that] st by simp
  then show ?thesis
    using held_set_state[OF ok assms(2)] ok' nr assms(1) by (auto simp: idle_core_def same_line_def)
qed

lemma tagged_options:
  fixes h :: "nat \<Rightarrow> 'b option"
  defines "g \<equiv> \<lambda>i. case h i of None \<Rightarrow> [] | Some j \<Rightarrow> [(i, j)]"
  shows "set (concat (map g xs)) = {(i, j). i \<in> set xs \<and> h i = Some j}"
    and "distinct xs \<Longrightarrow> distinct (map fst (concat (map g xs)))"
proof -
  show s: "set (concat (map g xs)) = {(i, j). i \<in> set xs \<and> h i = Some j}" for xs
    by (auto simp: g_def split: option.splits)
  show "distinct (map fst (concat (map g xs)))" if "distinct xs"
    using that
  proof (induction xs)
    case (Cons i xs)
    have "i \<notin> fst ` set (concat (map g xs))" unfolding s using Cons.prems by auto
    then show ?case using Cons by (auto simp: g_def split: option.splits)
  qed simp
qed

definition jobs_for :: "nat \<Rightarrow> nat \<Rightarrow> i32 \<Rightarrow> (nat \<Rightarrow> core) \<Rightarrow> (nat \<times> c2c_job) list \<Rightarrow> bool" where
  "jobs_for n k a C js \<longleftrightarrow> distinct (map fst js) \<and>
     (\<forall>(i, j) \<in> set js. i < n \<and> i \<noteq> k \<and> j_proc_id j = of_nat k \<and> j_source_id j = of_nat i \<and> j_addr j = a \<and>
        holders a (lines (C i)) = {j_line j})"

lemma kill_all:
  assumes kn: "k < n" and nmax: "n < 2 ^ 32" and idle: "others_idle n k C" and own: "core_id (C k) = of_nat k"
    and req: "request_begin f (of_nat k) a b = (True, b')" and f: "f \<noteq> FUNC_READ"
    and all: "snoop_all z n b' C = (C', js)"
  shows "C' k = C k \<and> js = [] \<and> others_idle n k C' \<and>
    (\<forall>i<n. i \<noteq> k \<longrightarrow> view C' i d = (if same_line d a then CACHEL_INVALID else view C i d))"
proof -
  have C': "C' = (\<lambda>i. if i < n then fst (snoop_core z b' (C i)) else C i)"
    and js: "js = concat (map (\<lambda>i. case snd (snoop_core z b' (C i)) of None \<Rightarrow> [] | Some j \<Rightarrow> [(i, j)]) [0 ..< n])"
    using all by (simp_all add: snoop_all_def)
  have k: "snoop_core z b' (C k) = (C k, None)" using snoop_own[of f "C k" a b b'] req own by simp
  note other = kill_core[OF _ distinct_ids[OF _ kn nmax] req f]
  have none: "snd (snoop_core z b' (C i)) = None" if "i < n" for i
    using that k other[of i "C i" z] idle by (cases "i = k") (auto simp: others_idle_def)
  have "js = []" unfolding js by (simp add: none)
  then show ?thesis
    using k kn other idle by (auto simp: C' others_idle_def view_def)
qed

lemma read_all:
  assumes kn: "k < n" and nmax: "n < 2 ^ 32" and idle: "others_idle n k C" and own: "core_id (C k) = of_nat k"
    and req: "request_begin FUNC_READ (of_nat k) a b = (True, b')" and all: "snoop_all z n b' C = (C', js)"
  shows "C' = C \<and> jobs_for n k a C js \<and> (js = [] \<longleftrightarrow> (\<forall>i<n. i \<noteq> k \<longrightarrow> view C i a = CACHEL_INVALID)) \<and>
    (\<forall>i<n. i \<noteq> k \<longrightarrow> view C i a \<noteq> CACHEL_INVALID \<longrightarrow> i \<in> fst ` set js)"
proof -
  let ?h = "\<lambda>i. snd (snoop_core z b' (C i))"
  have C': "C' = (\<lambda>i. if i < n then fst (snoop_core z b' (C i)) else C i)"
    and js: "js = concat (map (\<lambda>i. case ?h i of None \<Rightarrow> [] | Some j \<Rightarrow> [(i, j)]) [0 ..< n])"
    using all by (simp_all add: snoop_all_def)
  have k: "snoop_core z b' (C k) = (C k, None)" using snoop_own[of FUNC_READ "C k" a b b'] req own by simp
  have other: "fst (snoop_core z b' (C i)) = C i \<and>
    (if view C i a = CACHEL_INVALID then ?h i = None
     else \<exists>l. holders a (lines (C i)) = {l} \<and>
       ?h i = Some \<lparr>j_proc_id = of_nat k, j_source_id = of_nat i, j_addr = a, j_line = l\<rparr>)"
    if "i < n" "i \<noteq> k" for i
    using read_core[OF _ distinct_ids[OF that(1) kn nmax that(2)] req, of "C i" z] idle that by (simp add: others_idle_def view_def)
  have set: "set js = {(i, j). i < n \<and> ?h i = Some j}"
    and dist: "distinct (map fst js)" unfolding js tagged_options(1) by (auto intro: tagged_options(2))
  have "fst (snoop_core z b' (C i)) = C i" if "i < n" for i using other k that by (cases "i = k") auto
  then have 1: "C' = C" by (auto simp: C' fun_eq_iff)
  have 2: "jobs_for n k a C js"
    using dist other k by (fastforce simp: jobs_for_def set split: if_splits)
  have 3: "i \<in> fst ` set js" if "i < n" "i \<noteq> k" "view C i a \<noteq> CACHEL_INVALID" for i
    using other[OF that(1,2)] that by (force simp: set)
  have 4: "\<exists>i<n. i \<noteq> k \<and> view C i a \<noteq> CACHEL_INVALID" if ne: "js \<noteq> []"
  proof -
    obtain x where "x \<in> set js" using ne by (cases js) auto
    then obtain i j where "(i, j) \<in> set js" by (metis prod.collapse)
    then have ij: "i < n" "?h i = Some j" by (auto simp: set)
    then have "i \<noteq> k" using k by auto
    then show ?thesis using other[of i] ij by (intro exI[of _ i]) (auto split: if_splits)
  qed
  show ?thesis using 1 2 3 4 by fastforce
qed

lemma transfers_all:
  assumes nmax: "n < 2 ^ 32" and "others_idle n k C" and "jobs_for n k a C js" and "seq_transfers js C = (C', bs)"
  shows "C' k = C k \<and> others_idle n k C' \<and>
    (\<forall>i<n. i \<noteq> k \<longrightarrow> view C' i d = (if i \<in> fst ` set js \<and> same_line d a then c2c_clstate (view C i d)
                                  else view C i d)) \<and>
    (bs = [] \<longleftrightarrow> js = []) \<and>
    (bs \<noteq> [] \<longrightarrow> wfr_sample z (of_nat k) a res (hd bs) = Inr CACHEL_SHARED)"
  using assms(2-)
proof (induction js C arbitrary: C' bs rule: seq_transfers.induct)
  case (1 C)
  then show ?case by simp
next
  case (2 i j js C)
  let ?st = "line_state (C i) (j_line j)"
  let ?c = "(C i)\<lparr>lines := set_state (j_line j) (c2c_clstate ?st) (lines (C i))\<rparr>"
  have i: "i < n" "i \<noteq> k" "idle_core i (C i)" and j: "j_proc_id j = of_nat k" "j_source_id j = of_nat i" "j_addr j = a"
    and h: "holders a (lines (C i)) = {j_line j}"
    and js: "jobs_for n k a C js" "i \<notin> fst ` set js"
    using 2(2,3) by (auto simp: jobs_for_def others_idle_def)
  have ok: "lines_ok (lines (C i))" using i(3) by (simp add: idle_core_def)
  have "held_state (lines (C i)) a = ?st" using held_present[OF ok, of "j_line j" a] h by (simp add: line_state_def)
  then have nr: "?st \<noteq> CACHEL_REQUESTED" using i(3) by (auto simp: idle_core_def)
  let ?b = "(drive FUNC_RESPONSE (of_nat k) a ((c2c_begin new_bus)\<lparr>bus_mutex := True\<rparr>))\<lparr>Port_SourceID := Some (of_nat i)\<rparr>"
  have tr: "c2c_try (j_proc_id j) (j_source_id j) (j_addr j) ?st (c2c_begin new_bus) = Some (?b, c2c_clstate ?st)"
    using nr by (simp add: c2c_try_def j) (simp add: c2c_begin_def new_bus_def)
  have b: "wfr_sample z (of_nat k) a res ?b = Inr CACHEL_SHARED"
    using not_dram[OF i(1) nmax] by (simp add: drive_def wfr_sample_def to_int_def func_is_def)
  obtain C2 bs2 where rest: "seq_transfers js (C(i := ?c)) = (C2, bs2)" by fastforce
  then have res: "C' = C2" "bs = ?b # bs2" using 2(4) tr by auto
  note tc = transfer_core[OF i(3) h]
  have "others_idle n k (C(i := ?c))" using 2(2) tc by (auto simp: others_idle_def)
  moreover have "jobs_for n k a (C(i := ?c)) js"
  proof -
    have eq: "(C(i := ?c)) i' = C i'" if "(i', j') \<in> set js" for i' j' using that js(2) by force
    show ?thesis using js(1) unfolding jobs_for_def by (simp add: eq cong: ball_cong) (use eq in auto)
  qed
  ultimately have ih: "C2 k = (C(i := ?c)) k \<and> others_idle n k C2 \<and>
    (\<forall>i'<n. i' \<noteq> k \<longrightarrow> view C2 i' d = (if i' \<in> fst ` set js \<and> same_line d a
       then c2c_clstate (view (C(i := ?c)) i' d) else view (C(i := ?c)) i' d))"
    using 2(1)[OF tr refl] rest by blast
  have v: "view (C(i := ?c)) i' d = (if i' = i then (if same_line d a then c2c_clstate (view C i d) else view C i d)
      else view C i' d)" for i'
    using tc by (simp add: view_def)
  have "view C2 i' d = (if i' \<in> fst ` set ((i, j) # js) \<and> same_line d a then c2c_clstate (view C i' d)
      else view C i' d)" if "i' < n" "i' \<noteq> k" for i'
    using ih v[of i'] js(2) that by (cases "i' = i") auto
  then show ?case using ih i(2) b by (simp add: res)
qed

section \<open>One wake-up and its effect\<close>

definition rest :: "nat \<Rightarrow> nat \<Rightarrow> moesi \<Rightarrow> (nat \<Rightarrow> core) \<Rightarrow> bool" where
  "rest n k V C \<longleftrightarrow> others_idle n k C \<and> (\<forall>i<n. i \<noteq> k \<longrightarrow> (\<forall>d. view C i d = V i d))"

lemma rest_upd [simp]: "rest n k V (C(k := c)) = rest n k V C"
  by (simp add: rest_def others_idle_def view_def)

lemma step_local:
  assumes "exec_resume z b (C k) = (b', c)" and "bus_mutex b' \<longrightarrow> bus_mutex b" and "awaited c (x_pc c) = None"
  shows "seq_step z n k (C, b, js) = (C(k := c), new_bus, [])"
  using assms by (auto simp add: seq_step_def Let_def)

lemma step_kill:
  assumes e: "exec_resume z b (C k) = (b', c)" and r: "request_begin f (of_nat k) a b = (True, b')"
    and f: "f \<noteq> FUNC_READ" and own: "core_id c = of_nat k" and V: "rest n k V C"
    and kn: "k < n" "n < 2 ^ 32"
  shows "\<exists>C'. seq_step z n k (C, b, js) = (C', b', []) \<and> C' k = c \<and>
    rest n k (moesi_drop (\<lambda>i. i \<noteq> k) a V) C'"
proof -
  let ?C = "C(k := c)"
  obtain C' js' where all: "snoop_all z n b' ?C = (C', js')" by fastforce
  have idle: "others_idle n k ?C" "core_id (?C k) = of_nat k"
    using V own rest_upd[of n k V C c] by (auto simp: rest_def)
  have K: "C' k = c" "js' = []" "others_idle n k C'"
    "\<forall>i<n. i \<noteq> k \<longrightarrow> view C' i d = (if same_line d a then CACHEL_INVALID else view ?C i d)" for d
    using kill_all[OF kn idle r f all, of d] by auto
  have "view ?C i d = V i d" if "i < n" "i \<noteq> k" for i d
    using V that rest_upd[of n k V C c] by (simp add: rest_def)
  then have "rest n k (moesi_drop (\<lambda>i. i \<noteq> k) a V) C'"
    using K(3,4) by (simp add: rest_def moesi_drop_def)
  moreover have "seq_step z n k (C, b, js) = (C', b', [])"
    using e all K(2) request_wires(5,6)[OF r] by (simp add: seq_step_def Let_def)
  ultimately show ?thesis using K(1) by blast
qed

lemma step_read:
  assumes e: "exec_resume z b (C k) = (b', c)" and r: "request_begin FUNC_READ (of_nat k) a b = (True, b')"
    and own: "core_id c = of_nat k" and V: "rest n k V C" and kn: "k < n" "n < 2 ^ 32"
  shows "\<exists>js'. seq_step z n k (C, b, js) = (C(k := c), b', js') \<and> jobs_for n k a (C(k := c)) js' \<and>
    (js' = [] \<longleftrightarrow> (\<forall>i<n. i \<noteq> k \<longrightarrow> V i a = CACHEL_INVALID)) \<and>
    (\<forall>i<n. i \<noteq> k \<longrightarrow> V i a \<noteq> CACHEL_INVALID \<longrightarrow> i \<in> fst ` set js')"
proof -
  let ?C = "C(k := c)"
  obtain C' js' where all: "snoop_all z n b' ?C = (C', js')" by fastforce
  have idle: "others_idle n k ?C" "core_id (?C k) = of_nat k"
    using V own rest_upd[of n k V C c] by (auto simp: rest_def)
  have v: "view ?C i d = V i d" if "i < n" "i \<noteq> k" for i d
    using V that rest_upd[of n k V C c] by (simp add: rest_def)
  have R: "C' = ?C" "jobs_for n k a ?C js'"
    "(js' = [] \<longleftrightarrow> (\<forall>i<n. i \<noteq> k \<longrightarrow> view ?C i a = CACHEL_INVALID))"
    "(\<forall>i<n. i \<noteq> k \<longrightarrow> view ?C i a \<noteq> CACHEL_INVALID \<longrightarrow> i \<in> fst ` set js')"
    using read_all[OF kn idle r all] by auto
  have "seq_step z n k (C, b, js) = (?C, b', js')"
    using e all R(1) request_wires(5,6)[OF r] by (simp add: seq_step_def Let_def)
  with R(2-4) v show ?thesis by (intro exI[of _ js']) auto
qed

lemma seq_reply_dram:
  "wfr_sample z pid a res (seq_reply pid a []) = Inr res" "bus_mutex (seq_reply pid a [])"
  by (simp_all add: seq_reply_def mem_try_def new_bus_def drive_def wfr_sample_def to_int_def func_is_def)

lemma transfers_busy: "seq_transfers js C = (C', b # bs) \<Longrightarrow> bus_mutex b"
  by (cases js) (auto simp: c2c_try_def drive_def split: option.splits prod.splits if_splits)

definition moesi_lend :: "i32 \<Rightarrow> moesi \<Rightarrow> moesi" where
  "moesi_lend a V = (\<lambda>i d. if same_line d a then c2c_clstate (V i d) else V i d)"

lemma view_same: "others_idle n k C \<Longrightarrow> i < n \<Longrightarrow> i \<noteq> k \<Longrightarrow> same_line d a \<Longrightarrow> view C i d = view C i a"
  using held_same_line[of "lines (C i)" d a] by (simp add: others_idle_def idle_core_def view_def same_line_def)

lemma step_wait:
  assumes e: "exec_resume z b (C k) = (b', c)" and nb: "\<not> bus_mutex b'" and w: "awaited c (x_pc c) = Some a"
    and own: "core_id c = of_nat k" and V: "rest n k V C" and kn: "k < n" "n < 2 ^ 32"
    and js: "jobs_for n k a (C(k := c)) js"
    and full: "\<forall>i<n. i \<noteq> k \<longrightarrow> V i a \<noteq> CACHEL_INVALID \<longrightarrow> i \<in> fst ` set js"
  shows "\<exists>C' b''. seq_step z n k (C, b, js) = (C', b'', []) \<and> C' k = c \<and> rest n k (moesi_lend a V) C' \<and>
    bus_mutex b'' \<and> wfr_sample z (of_nat k) a res b'' = Inr (if js = [] then res else CACHEL_SHARED)"
proof -
  let ?C = "C(k := c)"
  obtain C' bs where tr: "seq_transfers js ?C = (C', bs)" by fastforce
  let ?b = "seq_reply (core_id c) a bs"
  have idle: "others_idle n k ?C" using V rest_upd[of n k V C c] by (auto simp: rest_def)
  have v: "view ?C i d = V i d" if "i < n" "i \<noteq> k" for i d
    using V that rest_upd[of n k V C c] by (simp add: rest_def)
  have T: "C' k = c" "others_idle n k C'"
    "\<forall>i<n. i \<noteq> k \<longrightarrow> view C' i d = (if i \<in> fst ` set js \<and> same_line d a then c2c_clstate (view ?C i d)
                                  else view ?C i d)"
    "bs = [] \<longleftrightarrow> js = []" "bs \<noteq> [] \<longrightarrow> wfr_sample z (of_nat k) a res (hd bs) = Inr CACHEL_SHARED" for d
    using transfers_all[OF kn(2) idle js tr, where d = d and res = res and z = z] by auto
  have "view C' i d = moesi_lend a V i d" if "i < n" "i \<noteq> k" for i d
  proof (cases "same_line d a \<and> i \<notin> fst ` set js")
    case True
    then have "V i a = CACHEL_INVALID" using full that by blast
    moreover have "V i d = V i a" using view_same[OF idle that] True v[OF that] by metis
    ultimately show ?thesis using T(3)[of d] that v[OF that] True by (simp add: moesi_lend_def c2c_clstate_def)
  next
    case False
    then show ?thesis using T(3)[of d] that v[OF that] by (auto simp: moesi_lend_def)
  qed
  then have r: "rest n k (moesi_lend a V) C'" using T(2) by (simp add: rest_def)
  have s: "seq_step z n k (C, b, js) = (C', ?b, [])" using e nb w tr by (simp add: seq_step_def Let_def)
  have b: "bus_mutex ?b \<and> wfr_sample z (of_nat k) a res ?b = Inr (if js = [] then res else CACHEL_SHARED)"
  proof (cases bs)
    case Nil
    then show ?thesis using seq_reply_dram own T(4) by simp
  next
    case (Cons b0 bs')
    then show ?thesis using T(4,5) transfers_busy[of js ?C C' b0 bs'] tr Cons own by (simp add: seq_reply_def)
  qed
  from r s b T(1) show ?thesis by blast
qed

definition go :: "i32 \<Rightarrow> nat \<Rightarrow> nat \<Rightarrow> nat \<Rightarrow> seq_state \<Rightarrow> seq_state \<Rightarrow> bool" where
  "go z n k m st st' \<longleftrightarrow> (seq_step z n k ^^ m) st = st'"

lemma go_trans: "go z n k m st st' \<Longrightarrow> go z n k m' st' st'' \<Longrightarrow> go z n k (m + m') st st''"
  by (auto simp: go_def funpow_add add.commute[of m])

lemma go_one: "seq_step z n k st = st' \<Longrightarrow> go z n k 1 st st'"
  by (simp add: go_def)

end
