(* ===== verification/Moesi_Coherence.thy ===== *)
theory Moesi_Coherence
  imports Moesi_System
begin

text \<open>
  Every access, run to its end, is a step of the abstract protocol (\<open>access_refines_moesi\<close>), and so
  any sequence of accesses keeps the caches coherent (\<open>sequential_coherence\<close>).
\<close>

section \<open>One access from start to end\<close>

definition settled :: "nat \<Rightarrow> nat \<Rightarrow> core \<Rightarrow> ret_code \<Rightarrow> cachelines \<Rightarrow> moesi \<Rightarrow> seq_state \<Rightarrow> bool" where
  "settled n k c0 rc cl V st \<longleftrightarrow> (\<exists>C. st = (C, new_bus, []) \<and> core_id (C k) = core_id c0 \<and> x_pc (C k) = X_Func \<and>
     lines (C k) = cl \<and> done_log (C k) = done_log c0 @ [rc] \<and> rest n k V C)"

definition settles :: "i32 \<Rightarrow> nat \<Rightarrow> nat \<Rightarrow> nat \<Rightarrow> core \<Rightarrow> ret_code \<Rightarrow> cachelines \<Rightarrow> moesi \<Rightarrow> seq_state \<Rightarrow> bool" where
  "settles z n k m c0 rc cl V st \<longleftrightarrow> (\<exists>st'. go z n k m st st' \<and> settled n k c0 rc cl V st')"

lemma settles_step:
  "seq_step z n k st = st' \<Longrightarrow> settles z n k m c0 rc cl V st' \<Longrightarrow> settles z n k (Suc m) c0 rc cl V st"
  unfolding settles_def using go_trans[OF go_one, of z n k st st' m] by (metis plus_1_eq_Suc)

lemma settles_done:
  assumes "x_pc (C k) = X_Done" and "core_id (C k) = core_id c0" and "lines (C k) = cl"
    and "done_log (C k) = done_log c0 @ [rc]" and "rest n k V C"
  shows "settles z n k 1 c0 rc cl V (C, new_bus, js)"
proof -
  have "seq_step z n k (C, new_bus, js) = (C(k := (C k)\<lparr>x_pc := X_Func\<rparr>), new_bus, [])"
    by (rule step_local[where b' = new_bus]) (simp_all add: exec_resume_def assms(1))
  from go_one[OF this] show ?thesis
    using assms rest_upd[of n k V C "(C k)\<lparr>x_pc := X_Func\<rparr>"]
    by (auto simp: settles_def settled_def intro!: exI[of _ "C(k := (C k)\<lparr>x_pc := X_Func\<rparr>)"])
qed

lemma settles_local:
  assumes "exec_resume z b (C k) = (b', c)" and "bus_mutex b' \<longrightarrow> bus_mutex b" and "awaited c (x_pc c) = None"
    and "settles z n k m c0 rc cl V (C(k := c), new_bus, [])"
  shows "settles z n k (Suc m) c0 rc cl V (C, b, js)"
  using settles_step[OF step_local[where C = C and k = k, OF assms(1-3)] assms(4)] .

lemma settles_finish:
  assumes "exec_resume z b (C k) = (b', c)" and "bus_mutex b' \<longrightarrow> bus_mutex b"
    and "x_pc c = X_Done" and "core_id c = core_id c0" and "lines c = cl"
    and "done_log c = done_log c0 @ [rc]" and "rest n k V C"
  shows "settles z n k 2 c0 rc cl V (C, b, js)"
proof -
  have "settles z n k 1 c0 rc cl V (C(k := c), new_bus, [])"
    using assms(3-7) by (intro settles_done) simp_all
  then have "settles z n k (Suc 1) c0 rc cl V (C, b, js)"
    using assms(3) by (intro settles_local[where C = C and k = k, OF assms(1,2)]) simp_all
  then show ?thesis by (simp add: numeral_2_eq_2)
qed

lemma request_new:
  "f \<in> {FUNC_READ, FUNC_WRITE, FUNC_INVALIDATE} \<Longrightarrow>
   request_begin f pid a new_bus = (True, drive f pid a (new_bus\<lparr>bus_mutex := True\<rparr>))"
  by (auto simp: request_begin_def read_begin_def write_begin_def cacheline_invalidate_begin_def free_bus)

lemma hit_read:
  assumes c: "C k = c" "x_pc c = X_Lookup" "x_rindex c = int r" "x_f c \<noteq> FUNC_WRITE"
    "line_state c r \<noteq> CACHEL_INVALID" and V: "rest n k V C"
  shows "settles z n k 3 c RET_READ_DONE (use_line r (lines c)) V (C, new_bus, js)"
proof -
  let ?c = "c\<lparr>lines := use_line r (lines c), x_pc := X_Read_Neg\<rparr>"
  have "settles z n k 2 c RET_READ_DONE (use_line r (lines c)) V (C(k := ?c), new_bus, [])"
    using c(3,5) V by (intro settles_finish[where b' = new_bus and c = "finish RET_READ_DONE Read_Hit ?c"])
      (simp_all add: exec_resume_def line_state_def, simp_all add: finish_def)
  then have "settles z n k (Suc 2) c RET_READ_DONE (use_line r (lines c)) V (C, new_bus, js)"
    using c by (intro settles_local[where b' = new_bus and c = ?c])
      (simp_all add: exec_resume_def x_hit_def Let_def)
  then show ?thesis by simp
qed

lemma hit_write:
  assumes c: "C k = c" "x_pc c = X_Lookup" "x_rindex c = int r" "x_f c = FUNC_WRITE"
    "core_id c = of_nat k" and V: "rest n k V C" and kn: "k < n" "n < 2 ^ 32"
  shows "settles z n k 3 c RET_WRITE_DONE (set_state r CACHEL_MODIFIED (use_line r (lines c)))
    (moesi_drop (\<lambda>i. i \<noteq> k) (x_addr c) V) (C, new_bus, js)"
proof -
  let ?c = "c\<lparr>lines := use_line r (lines c), x_pc := X_Hit_Inv_Drive\<rparr>"
  let ?b = "drive FUNC_INVALIDATE (of_nat k) (x_addr c) (new_bus\<lparr>bus_mutex := True\<rparr>)"
  have r: "request_begin FUNC_INVALIDATE (of_nat k) (x_addr c) new_bus = (True, ?b)"
    by (rule request_new) simp
  have "exec_resume z new_bus (C k) = (?b, ?c)"
    using c by (simp add: exec_resume_def x_hit_def x_hit_inv_def Let_def cacheline_invalidate_begin_def free_bus)
  from step_kill[where C = C and k = k, OF this r _ _ V kn, of js] c(5)
  obtain C' where s: "seq_step z n k (C, new_bus, js) = (C', ?b, [])" and C': "C' k = ?c"
    "rest n k (moesi_drop (\<lambda>i. i \<noteq> k) (x_addr c) V) C'"
    by auto
  have "settles z n k 2 c RET_WRITE_DONE (set_state r CACHEL_MODIFIED (use_line r (lines c)))
    (moesi_drop (\<lambda>i. i \<noteq> k) (x_addr c) V) (C', ?b, [])"
    using C' c(3) by (intro settles_finish[where b' = "request_end ?b" and
        c = "finish RET_WRITE_DONE Write_Hit (?c\<lparr>lines := set_state r CACHEL_MODIFIED (lines ?c)\<rparr>)"])
      (simp_all add: exec_resume_def, simp_all add: finish_def request_end_def)
  from settles_step[OF s this] show ?thesis by (simp add: eval_nat_numeral)
qed

lemma settles_base:
  "core_id c0 = core_id c \<Longrightarrow> done_log c0 = done_log c \<Longrightarrow>
   settles z n k m c0 rc cl V st = settles z n k m c rc cl V st"
  by (simp add: settles_def settled_def)

lemma rest_cong:
  "rest n k V C \<Longrightarrow> (\<And>i d. i < n \<Longrightarrow> i \<noteq> k \<Longrightarrow> V i d = V' i d) \<Longrightarrow> rest n k V' C"
  by (simp add: rest_def)

lemma rest_same:
  assumes "rest n k V C" and "i < n" and "i \<noteq> k" and "same_line d a"
  shows "V i d = V i a"
  using assms view_same[of n k C i d a] by (metis rest_def)

lemma line_addr_idem: "line_addr (line_addr a) = line_addr a"
  by (rule bit_word_eqI) (simp add: bit_line_addr)

lemma same_line_line_addr [simp]: "same_line d (line_addr a) = same_line d a" "same_line (line_addr a) a"
  "same_line a a"
  by (simp_all add: same_line_def line_addr_idem)

lemma lend_line [simp]: "moesi_lend (line_addr a) V = moesi_lend a V"
  by (simp add: moesi_lend_def)

definition fetched :: "nat \<Rightarrow> nat \<Rightarrow> i32 \<Rightarrow> moesi \<Rightarrow> cl_state" where
  "fetched n k a V = (if \<exists>j<n. j \<noteq> k \<and> V j a \<noteq> CACHEL_INVALID then CACHEL_SHARED else CACHEL_EXCLUSIVE)"

definition await :: "core \<Rightarrow> core" where
  "await c = c\<lparr>x_pc := X_Rd_Wait CACHEL_EXCLUSIVE\<rparr>"

lemma await_simps [simp]:
  "x_pc (await c) = X_Rd_Wait CACHEL_EXCLUSIVE" "core_id (await c) = core_id c" "x_addr (await c) = x_addr c"
  "x_min_id (await c) = x_min_id c" "lines (await c) = lines c" "done_log (await c) = done_log c"
  "x_f (await c) = x_f c" "awaited (await c) (X_Rd_Wait CACHEL_EXCLUSIVE) = Some (line_addr (x_addr c))"
  by (simp_all add: await_def)

lemma fetch_wait:
  assumes c: "C k = c" "x_pc c = X_Rd_Drive" "line_state c (x_min_id c) = CACHEL_REQUESTED"
    "core_id c = of_nat k" "x_addr c = a"
    and V: "rest n k V C" and kn: "k < n" "n < 2 ^ 32" and js: "jobs_for n k (line_addr a) C js"
    and ne: "js = [] \<longleftrightarrow> (\<forall>i<n. i \<noteq> k \<longrightarrow> V i (line_addr a) = CACHEL_INVALID)"
    and full: "\<forall>i<n. i \<noteq> k \<longrightarrow> V i (line_addr a) \<noteq> CACHEL_INVALID \<longrightarrow> i \<in> fst ` set js"
  shows "\<exists>C' b''. seq_step z n k (C, b, js) = (C', b'', []) \<and> C' k = await c \<and> rest n k (moesi_lend a V) C' \<and>
    bus_mutex b'' \<and> exec_resume z b'' (await c) = x_fill b'' (fetched n k a V) (await c)"
proof -
  have e: "exec_resume z b (C k) = (request_end b, await c)"
    using c by (simp add: exec_resume_def await_def)
  have j: "jobs_for n k (line_addr a) (C(k := await c)) js"
    using js by (fastforce simp: jobs_for_def)
  have "V i (line_addr a) = V i a" if "i < n" "i \<noteq> k" for i
    using rest_same[OF V that, of "line_addr a" a] by simp
  then have f: "fetched n k a V = (if js = [] then CACHEL_EXCLUSIVE else CACHEL_SHARED)"
    using ne by (auto simp: fetched_def)
  obtain C' b'' where s: "seq_step z n k (C, b, js) = (C', b'', [])" "C' k = await c"
      "rest n k (moesi_lend a V) C'" "bus_mutex b''"
      "wfr_sample z (of_nat k) (line_addr a) CACHEL_EXCLUSIVE b'' = Inr (fetched n k a V)"
    using step_wait[where C = C and k = k and res = CACHEL_EXCLUSIVE, OF e _ _ _ V kn j full] c f
    by (auto simp: request_end_def)
  have "exec_resume z b'' (await c) = x_fill b'' (fetched n k a V) (await c)"
    using s(5) c by (simp add: exec_resume_def)
  with s show ?thesis by blast
qed

lemma drop_lend: "moesi_drop P a (moesi_lend a V) i d = (if P i \<and> same_line d a then CACHEL_INVALID else moesi_lend a V i d)"
  by (simp add: moesi_drop_def)

lemma fetch_read:
  assumes c: "C k = c" "x_pc c = X_Rd_Drive" "line_state c (x_min_id c) = CACHEL_REQUESTED"
    "core_id c = of_nat k" "x_addr c = a"
    and V: "rest n k V C" and kn: "k < n" "n < 2 ^ 32" and js: "jobs_for n k (line_addr a) C js"
    and ne: "js = [] \<longleftrightarrow> (\<forall>i<n. i \<noteq> k \<longrightarrow> V i (line_addr a) = CACHEL_INVALID)"
    and full: "\<forall>i<n. i \<noteq> k \<longrightarrow> V i (line_addr a) \<noteq> CACHEL_INVALID \<longrightarrow> i \<in> fst ` set js"
    and f: "x_f c \<noteq> FUNC_WRITE"
  shows "settles z n k 3 c RET_READ_DONE (fill_line (x_min_id c) a (fetched n k a V) (lines c))
    (moesi_lend a V) (C, b, js)"
proof -
  obtain C' b'' where s: "seq_step z n k (C, b, js) = (C', b'', [])" "C' k = await c"
      "rest n k (moesi_lend a V) C'" "exec_resume z b'' (C' k) = x_fill b'' (fetched n k a V) (await c)"
    using fetch_wait[OF c V kn js ne full, where z = z and b = b] by auto
  let ?c = "finish RET_READ_DONE Read_Miss
    ((await c)\<lparr>lines := fill_line (x_min_id c) a (fetched n k a V) (lines c)\<rparr>)"
  have "settles z n k 2 c RET_READ_DONE (fill_line (x_min_id c) a (fetched n k a V) (lines c))
    (moesi_lend a V) (C', b'', [])"
    using s(3,4) f c(5) by (intro settles_finish[where b' = b'' and c = ?c])
      (simp_all add: x_fill_def, simp_all add: finish_def)
  from settles_step[OF s(1) this] show ?thesis by (simp add: eval_nat_numeral)
qed

lemma fetch_write:
  assumes c: "C k = c" "x_pc c = X_Rd_Drive" "line_state c (x_min_id c) = CACHEL_REQUESTED"
    "core_id c = of_nat k" "x_addr c = a"
    and V: "rest n k V C" and kn: "k < n" "n < 2 ^ 32" and js: "jobs_for n k (line_addr a) C js"
    and ne: "js = [] \<longleftrightarrow> (\<forall>i<n. i \<noteq> k \<longrightarrow> V i (line_addr a) = CACHEL_INVALID)"
    and full: "\<forall>i<n. i \<noteq> k \<longrightarrow> V i (line_addr a) \<noteq> CACHEL_INVALID \<longrightarrow> i \<in> fst ` set js"
    and f: "x_f c = FUNC_WRITE"
  shows "\<exists>m\<le>6. settles z n k m c RET_WRITE_DONE (fill_line (x_min_id c) a CACHEL_MODIFIED (lines c))
    (moesi_drop (\<lambda>i. i \<noteq> k) a V) (C, b, js)"
proof -
  obtain C1 b1 where s: "seq_step z n k (C, b, js) = (C1, b1, [])" "C1 k = await c"
      "rest n k (moesi_lend a V) C1" "bus_mutex b1" "exec_resume z b1 (C1 k) = x_fill b1 (fetched n k a V) (await c)"
    using fetch_wait[OF c V kn js ne full, where z = z and b = b] by auto
  let ?L = "fill_line (x_min_id c) a (fetched n k a V) (lines c)"
  let ?M = "fill_line (x_min_id c) a CACHEL_MODIFIED (lines c)"
  let ?V = "moesi_drop (\<lambda>i. i \<noteq> k) a V"
  show ?thesis
  proof (cases "fetched n k a V = CACHEL_SHARED")
    case False
    then have none: "V i d = CACHEL_INVALID" if "i < n" "i \<noteq> k" "same_line d a" for i d
      using rest_same[OF V that] that by (auto simp: fetched_def split: if_splits)
    have "rest n k ?V C1"
      using s(3) by (rule rest_cong) (auto simp: none moesi_drop_def moesi_lend_def c2c_clstate_def)
    then have "settles z n k 2 c RET_WRITE_DONE ?M ?V (C1, b1, [])"
      using s(5) f c(5) False by (intro settles_finish[where b' = b1 and c = "x_write_done ((await c)\<lparr>lines := ?L\<rparr>)"])
        (simp_all add: x_fill_def, simp_all add: x_write_done_def finish_def set_state_fill)
    from settles_step[OF s(1) this] show ?thesis by (intro exI[of _ 3]) (simp add: eval_nat_numeral)
  next
    case True
    let ?c = "(await c)\<lparr>lines := ?L\<rparr>"
    let ?b = "drive FUNC_INVALIDATE (of_nat k) a (new_bus\<lparr>bus_mutex := True\<rparr>)"
    have r: "request_begin FUNC_INVALIDATE (of_nat k) a new_bus = (True, ?b)" by (rule request_new) simp
    have e1: "exec_resume z b1 (C1 k) = (b1, ?c\<lparr>x_pc := X_Miss_Inv_Clk\<rparr>)"
      using s(4,5) f c(4,5) True
      by (simp add: x_fill_def x_miss_inv_def cacheline_invalidate_begin_def bus_busy_def)
    let ?C2 = "C1(k := ?c\<lparr>x_pc := X_Miss_Inv_Clk\<rparr>)" let ?C3 = "?C2(k := ?c\<lparr>x_pc := X_Miss_Inv_Neg\<rparr>)"
    have V3: "rest n k (moesi_lend a V) ?C3" using s(3) by simp
    have "exec_resume z new_bus (?C3 k) = (?b, ?c\<lparr>x_pc := X_Miss_Inv_Drive\<rparr>)"
      using c True by (simp add: exec_resume_def line_state_def x_miss_inv_def cacheline_invalidate_begin_def free_bus)
    from step_kill[where C = ?C3 and k = k, OF this r _ _ V3 kn, of "[]"] c(4)
    obtain C4 where s4: "seq_step z n k (?C3, new_bus, []) = (C4, ?b, [])" and C4: "C4 k = ?c\<lparr>x_pc := X_Miss_Inv_Drive\<rparr>"
      "rest n k (moesi_drop (\<lambda>i. i \<noteq> k) a (moesi_lend a V)) C4"
      by auto
    have V4: "rest n k ?V C4"
      using C4(2) by (rule rest_cong) (auto simp: moesi_drop_def moesi_lend_def)
    have "settles z n k 2 c RET_WRITE_DONE ?M ?V (C4, ?b, [])"
      using C4(1) V4 by (intro settles_finish[where b' = "request_end ?b" and c = "x_write_done (?c\<lparr>x_pc := X_Miss_Inv_Drive\<rparr>)"])
        (simp_all add: exec_resume_def, simp_all add: x_write_done_def finish_def set_state_fill request_end_def)
    from settles_step[OF s4 this] have "settles z n k 3 c RET_WRITE_DONE ?M ?V (?C3, new_bus, [])"
      by (simp add: eval_nat_numeral)
    then have "settles z n k (Suc 3) c RET_WRITE_DONE ?M ?V (?C2, new_bus, [])"
      by (rule settles_local[rotated 3, where b' = new_bus and c = "?c\<lparr>x_pc := X_Miss_Inv_Neg\<rparr>"])
        (simp_all add: exec_resume_def)
    then have "settles z n k (Suc (Suc 3)) c RET_WRITE_DONE ?M ?V (C1, b1, [])"
      by (rule settles_local[rotated 3, where b' = b1 and c = "?c\<lparr>x_pc := X_Miss_Inv_Clk\<rparr>"]) (simp_all add: e1)
    from settles_step[OF s(1) this] show ?thesis by (intro exI[of _ 6]) (simp add: eval_nat_numeral)
  qed
qed

text \<open>The read request goes out: from the point where the bus is free.\<close>

definition requested :: "core \<Rightarrow> core" where
  "requested c = c\<lparr>lines := set_state (x_min_id c) CACHEL_REQUESTED (lines c), x_pc := X_Rd_Drive\<rparr>"

lemma miss_from_request:
  assumes e: "exec_resume z new_bus (C k) = (drive FUNC_READ (of_nat k) (line_addr a) (new_bus\<lparr>bus_mutex := True\<rparr>), c)"
    and c: "x_pc c = X_Rd_Drive" "line_state c v = CACHEL_REQUESTED" "core_id c = of_nat k" "x_addr c = a" "x_min_id c = v"
    and V: "rest n k V C" and kn: "k < n" "n < 2 ^ 32" and L: "lines c = set_state v CACHEL_REQUESTED L"
  shows "\<exists>m\<le>7. settles z n k m c (if x_f c = FUNC_WRITE then RET_WRITE_DONE else RET_READ_DONE)
    (fill_line v a (if x_f c = FUNC_WRITE then CACHEL_MODIFIED else fetched n k a V) L)
    (if x_f c = FUNC_WRITE then moesi_drop (\<lambda>i. i \<noteq> k) a V else moesi_lend a V) (C, new_bus, js)"
proof -
  let ?b = "drive FUNC_READ (of_nat k) (line_addr a) (new_bus\<lparr>bus_mutex := True\<rparr>)"
  have r: "request_begin FUNC_READ (of_nat k) (line_addr a) new_bus = (True, ?b)" by (rule request_new) simp
  let ?C = "C(k := c)"
  obtain js' where s: "seq_step z n k (C, new_bus, js) = (?C, ?b, js')" and j: "jobs_for n k (line_addr a) ?C js'"
      "js' = [] \<longleftrightarrow> (\<forall>i<n. i \<noteq> k \<longrightarrow> V i (line_addr a) = CACHEL_INVALID)"
      "\<forall>i<n. i \<noteq> k \<longrightarrow> V i (line_addr a) \<noteq> CACHEL_INVALID \<longrightarrow> i \<in> fst ` set js'"
    using step_read[where C = C and k = k and js = js, OF e r c(3) V kn] by (elim exE conjE) (rule that)
  have V': "rest n k V ?C" using V by simp
  have ck: "?C k = c" by simp
  have st: "line_state c (x_min_id c) = CACHEL_REQUESTED" using c by simp
  note args = ck c(1) st c(3,4) V' kn j
  have "\<exists>m\<le>6. settles z n k m c (if x_f c = FUNC_WRITE then RET_WRITE_DONE else RET_READ_DONE)
    (fill_line v a (if x_f c = FUNC_WRITE then CACHEL_MODIFIED else fetched n k a V) (lines c))
    (if x_f c = FUNC_WRITE then moesi_drop (\<lambda>i. i \<noteq> k) a V else moesi_lend a V) (?C, ?b, js')"
  proof (cases "x_f c = FUNC_WRITE")
    case True
    then show ?thesis using fetch_write[OF args True, where z = z and b = ?b] c(5) by simp
  next
    case False
    then show ?thesis
      using fetch_read[OF args False, where z = z and b = ?b] c(5) by (intro exI[of _ 3]) simp
  qed
  then obtain m where "m \<le> 6" "settles z n k m c (if x_f c = FUNC_WRITE then RET_WRITE_DONE else RET_READ_DONE)
    (fill_line v a (if x_f c = FUNC_WRITE then CACHEL_MODIFIED else fetched n k a V) (lines c))
    (if x_f c = FUNC_WRITE then moesi_drop (\<lambda>i. i \<noteq> k) a V else moesi_lend a V) (?C, ?b, js')"
    by blast
  from settles_step[OF s this(2)] this(1) show ?thesis
    by (intro exI[of _ "Suc m"]) (simp add: L fill_set_state)
qed

definition miss_result :: "i32 \<Rightarrow> nat \<Rightarrow> nat \<Rightarrow> core \<Rightarrow> moesi \<Rightarrow> seq_state \<Rightarrow> nat \<Rightarrow> bool" where
  "miss_result z n k c V st M \<longleftrightarrow> (\<exists>m\<le>M. settles z n k m c
     (if x_f c = FUNC_WRITE then RET_WRITE_DONE else RET_READ_DONE)
     (fill_line (x_min_id c) (x_addr c) (if x_f c = FUNC_WRITE then CACHEL_MODIFIED else fetched n k (x_addr c) V) (lines c))
     (if x_f c = FUNC_WRITE then moesi_drop (\<lambda>i. i \<noteq> k) (x_addr c) V else moesi_lend (x_addr c) V) st)"

lemma clean_miss:
  assumes c: "C k = c" "x_pc c = X_Lookup" "x_rindex c = -1" "\<not> dirty (line_state c (x_min_id c))"
    "core_id c = of_nat k" and V: "rest n k V C" and kn: "k < n" "n < 2 ^ 32"
  shows "miss_result z n k c V (C, new_bus, js) 7"
proof -
  let ?c = "(requested c)\<lparr>access_rate := access_rate c + 1\<rparr>"
  have e: "exec_resume z new_bus (C k) =
      (drive FUNC_READ (of_nat k) (line_addr (x_addr c)) (new_bus\<lparr>bus_mutex := True\<rparr>), ?c)"
    using c by (simp add: exec_resume_def x_miss_def x_post_writeback_def x_rd_try_def read_begin_def free_bus requested_def)
  show ?thesis
    using miss_from_request[where C = C and k = k, OF e _ _ _ _ _ V kn, where v = "x_min_id c" and L = "lines c"] c
    by (simp add: miss_result_def requested_def line_state_def settles_base[of ?c c, unfolded requested_def])
qed

lemma dirty_miss:
  assumes c: "C k = c" "x_pc c = X_Lookup" "x_rindex c = -1" "dirty (line_state c (x_min_id c))"
    "core_id c = of_nat k" "writeback_addr (lines c (x_min_id c)) (x_addr c) = w"
    and V: "rest n k V C" and kn: "k < n" "n < 2 ^ 32"
  shows "miss_result z n k c (moesi_drop (\<lambda>i. i \<noteq> k) w V) (C, new_bus, js) 11"
proof -
  let ?V = "moesi_drop (\<lambda>i. i \<noteq> k) w V"
  let ?c1 = "c\<lparr>x_wbaddr := w, access_rate := access_rate c + 1, x_pc := X_Wb_Drive\<rparr>"
  let ?c2 = "?c1\<lparr>x_pc := X_Wb_Wait CACHEL_EXCLUSIVE\<rparr>"
  let ?c3 = "(requested ?c2)\<lparr>access_rate := access_rate c + 1 + 1, x_pc := X_Rd_Clk\<rparr>"
  let ?c4 = "?c3\<lparr>x_pc := X_Rd_Drive\<rparr>"
  let ?w = "drive FUNC_WRITE (of_nat k) w (new_bus\<lparr>bus_mutex := True\<rparr>)"
  have r: "request_begin FUNC_WRITE (of_nat k) w new_bus = (True, ?w)" by (rule request_new) simp
  have "exec_resume z new_bus (C k) = (?w, ?c1)"
    using c by (simp add: exec_resume_def x_miss_def x_wb_try_def write_begin_def free_bus)
  from step_kill[where C = C and k = k, OF this r _ _ V kn, of js] c(5)
  obtain C1 where s1: "seq_step z n k (C, new_bus, js) = (C1, ?w, [])" and C1: "C1 k = ?c1" "rest n k ?V C1"
    by auto
  have e2: "exec_resume z ?w (C1 k) = (request_end ?w, ?c2)" using C1(1) by (simp add: exec_resume_def)
  have dropped: "?V i w = CACHEL_INVALID" if "i \<noteq> k" for i using that by (simp add: moesi_drop_def)
  obtain C2 b2 where s2: "seq_step z n k (C1, ?w, []) = (C2, b2, [])" and C2: "C2 k = ?c2"
      "rest n k (moesi_lend w ?V) C2" "bus_mutex b2"
      "wfr_sample z (of_nat k) w CACHEL_EXCLUSIVE b2 = Inr CACHEL_EXCLUSIVE"
    using step_wait[where C = C1 and k = k and a = w and js = "[]" and res = CACHEL_EXCLUSIVE, OF e2 _ _ _ C1(2) kn]
      c(5) dropped by (auto simp: request_end_def jobs_for_def)
  have V2: "rest n k ?V C2"
    using C2(2) by (rule rest_cong) (auto simp: moesi_drop_def moesi_lend_def c2c_clstate_def)
  have e3: "exec_resume z b2 (C2 k) = (b2, ?c3)"
    using C2 c(5) by (simp add: exec_resume_def x_post_writeback_def x_rd_try_def read_begin_def bus_busy_def requested_def)
  have s3: "seq_step z n k (C2, b2, []) = (C2(k := ?c3), new_bus, [])"
    using e3 by (rule step_local) simp_all
  have e4: "exec_resume z new_bus ((C2(k := ?c3)) k) =
      (drive FUNC_READ (of_nat k) (line_addr (x_addr c)) (new_bus\<lparr>bus_mutex := True\<rparr>), ?c4)"
    using c(5) by (simp add: exec_resume_def x_rd_try_def read_begin_def free_bus requested_def)
  have V3: "rest n k ?V (C2(k := ?c3))" using V2 by simp
  have base: "settles z n k m ?c4 rc cl U st = settles z n k m c rc cl U st" for m rc cl U st
    by (rule settles_base) (simp_all add: requested_def)
  have "miss_result z n k c ?V (C2(k := ?c3), new_bus, []) 7"
    using miss_from_request[where C = "C2(k := ?c3)" and k = k, OF e4 _ _ _ _ _ V3 kn,
        where v = "x_min_id c" and L = "lines c"] c(5)
    unfolding base by (simp add: miss_result_def requested_def line_state_def)
  then obtain m where m: "m \<le> 7" "settles z n k m c
     (if x_f c = FUNC_WRITE then RET_WRITE_DONE else RET_READ_DONE)
     (fill_line (x_min_id c) (x_addr c) (if x_f c = FUNC_WRITE then CACHEL_MODIFIED else fetched n k (x_addr c) ?V) (lines c))
     (if x_f c = FUNC_WRITE then moesi_drop (\<lambda>i. i \<noteq> k) (x_addr c) ?V else moesi_lend (x_addr c) ?V)
     (C2(k := ?c3), new_bus, [])"
    by (auto simp: miss_result_def)
  from settles_step[OF s1 settles_step[OF s2 settles_step[OF s3 m(2)]]] m(1)
  show ?thesis unfolding miss_result_def by (intro exI[of _ "Suc (Suc (Suc m))"]) simp
qed

section \<open>Refinement\<close>

definition quiet :: "nat \<Rightarrow> (nat \<Rightarrow> core) \<Rightarrow> bool" where
  "quiet n C \<longleftrightarrow> (\<forall>i<n. idle_core i (C i))"

lemma settles_final:
  assumes "settles z n k m c0 rc cl V (C0, new_bus, [])" and "m \<le> 12" and "core_id c0 = of_nat k"
    and "lines_ok cl \<and> tags_ok cl" and "\<forall>a. held_state cl a \<noteq> CACHEL_REQUESTED"
    and "C' = fst ((seq_step z n k ^^ 12) (C0, new_bus, []))"
  shows "quiet n C' \<and> done_log (C' k) = done_log c0 @ [rc] \<and>
    (\<forall>i<n. \<forall>d. view C' i d = (if i = k then held_state cl d else V i d))"
proof -
  obtain C where g: "(seq_step z n k ^^ m) (C0, new_bus, []) = (C, new_bus, [])" and C: "core_id (C k) = core_id c0"
    "x_pc (C k) = X_Func" "lines (C k) = cl" "done_log (C k) = done_log c0 @ [rc]" "rest n k V C"
    using assms(1) by (auto simp: settles_def settled_def go_def)
  have stay: "seq_step z n k (C, new_bus, []) = (C, new_bus, [])"
    using C(2) by (simp add: seq_step_def exec_resume_def)
  have "(seq_step z n k ^^ j) (C, new_bus, []) = (C, new_bus, [])" for j
    by (induction j) (simp_all add: stay)
  moreover have "(seq_step z n k ^^ 12) = (seq_step z n k ^^ (12 - m)) \<circ> (seq_step z n k ^^ m)"
    using assms(2) by (simp flip: funpow_add)
  ultimately have "C' = C" using assms(6) g by simp
  then show ?thesis
    using C assms(3-5) by (auto simp: quiet_def idle_core_def rest_def others_idle_def view_def)
qed


definition start_core :: "mem_function \<Rightarrow> i32 \<Rightarrow> core \<Rightarrow> scan_state \<Rightarrow> core" where
  "start_core f a c s = c\<lparr>x_f := f, x_addr := a, lines := s_lines s, x_rindex := s_rindex s,
     x_min_id := s_min_id s, x_pc := X_Lookup\<rparr>"

lemma x_start_eq: "x_start f a c = start_core f a c (scan_lines a (lines c))"
  by (simp add: x_start_def x_check_def Let_def start_core_def)

lemma rest_start:
  assumes "quiet n C" shows "rest n k (view C) (C(k := c))"
  unfolding rest_upd using assms by (simp add: rest_def quiet_def others_idle_def)

definition moesi_access :: "nat \<Rightarrow> nat \<Rightarrow> mem_function \<Rightarrow> i32 \<Rightarrow> moesi \<Rightarrow> moesi" where
  "moesi_access n k f a = (if f = FUNC_WRITE then moesi_write k a else moesi_read n k a)"

definition ret_of :: "mem_function \<Rightarrow> ret_code" where
  "ret_of f = (if f = FUNC_WRITE then RET_WRITE_DONE else RET_READ_DONE)"

lemma hit_refines:
  assumes q: "quiet n C" and kn: "k < n" "n < 2 ^ 32" and hit: "view C k a \<noteq> CACHEL_INVALID"
    and C': "C' = seq_access z n k f a C"
  shows "quiet n C' \<and> done_log (C' k) = done_log (C k) @ [ret_of f] \<and>
    (\<forall>i<n. \<forall>d. view C' i d = moesi_access n k f a (view C) i d)"
proof -
  let ?L = "lines (C k)" let ?s = "scan_lines a ?L" let ?c = "start_core f a (C k) ?s" let ?C = "C(k := ?c)"
  have idle: "idle_core k (C k)" using q kn by (simp add: quiet_def)
  then have ok: "lines_ok ?L" "counters_ok ?L" "tags_ok ?L" and nr: "\<forall>d. held_state ?L d \<noteq> CACHEL_REQUESTED"
    by (simp_all add: idle_core_def lines_ok_def)
  obtain r where r: "holders a ?L = {r}" "held_state ?L a = state (?L r)" "state (?L r) \<noteq> CACHEL_INVALID"
    using hit held_cases[OF ok(1), of a] by (auto simp: view_def)
  have ri: "s_rindex ?s = int r"
    using lookup_iff[OF ok(1), of a] snoop_lookup_eq_scan[OF ok(2), of a] r(1) by auto
  have ok': "lines_ok (use_line r (s_lines ?s))" "tags_ok (use_line r (s_lines ?s))"
    using ok lines_ok_use lines_ok_scan by simp_all
  have held: "held_state (use_line r (s_lines ?s)) d = held_state ?L d" for d
    using ok(1) lines_ok_scan[OF ok(1)] by simp
  have hold: "holders a (use_line r (s_lines ?s)) = {r}"
    using r(1) ok(2) by (simp add: holders_def)
  have C'': "C' = fst ((seq_step z n k ^^ 12) (?C, new_bus, []))" using C' by (simp add: seq_access_def x_start_eq)
  have sc: "?C k = ?c" "x_pc ?c = X_Lookup" "x_rindex ?c = int r" "core_id ?c = of_nat k" "x_f ?c = f" "x_addr ?c = a"
      "lines ?c = s_lines ?s" "done_log ?c = done_log (C k)"
    using ri idle by (simp_all add: start_core_def idle_core_def)
  show ?thesis
  proof (cases "f = FUNC_WRITE")
    case True
    let ?cl = "set_state r CACHEL_MODIFIED (use_line r (s_lines ?s))"
    have "settles z n k 3 ?c RET_WRITE_DONE ?cl (moesi_drop (\<lambda>i. i \<noteq> k) a (view C)) (?C, new_bus, [])"
      using hit_write[OF sc(1-3) _ sc(4) rest_start[OF q] kn, of z "[]"] True sc(5-7) by simp
    moreover have hm: "held_state ?cl d = (if same_line d a then CACHEL_MODIFIED else held_state ?L d)" for d
      using held_set_state[OF ok'(1) hold, of CACHEL_MODIFIED d] held by (simp add: same_line_def)
    moreover have "lines_ok ?cl \<and> tags_ok ?cl"
      using lines_ok_set_state[OF ok'(1), of r] ok' r(3) ok(2) by simp
    ultimately have "quiet n C' \<and> done_log (C' k) = done_log ?c @ [RET_WRITE_DONE] \<and>
      (\<forall>i<n. \<forall>d. view C' i d = (if i = k then held_state ?cl d else moesi_drop (\<lambda>i. i \<noteq> k) a (view C) i d))"
      using nr sc(4) by (intro settles_final[OF _ _ _ _ _ C'']) auto
    then show ?thesis
      using True sc(8) hm by (auto simp: moesi_access_def ret_of_def moesi_write_def moesi_drop_def view_def)
  next
    case False
    have "settles z n k 3 ?c RET_READ_DONE (use_line r (s_lines ?s)) (view C) (?C, new_bus, [])"
      using hit_read[OF sc(1-3) _ _ rest_start[OF q], of z "[]"] False r(3) sc(5,7) ok(2) by (simp add: line_state_def)
    then have "quiet n C' \<and> done_log (C' k) = done_log ?c @ [RET_READ_DONE] \<and>
      (\<forall>i<n. \<forall>d. view C' i d = (if i = k then held_state (use_line r (s_lines ?s)) d else view C i d))"
      using nr sc(4) ok' held by (intro settles_final[OF _ _ _ _ _ C'']) auto
    then show ?thesis
      using False sc(8) hit by (simp add: moesi_access_def ret_of_def moesi_read_def held) (simp add: view_def)
  qed
qed

lemma miss_result_mono: "miss_result z n k c V st 7 \<Longrightarrow> miss_result z n k c V st 11"
proof -
  assume "miss_result z n k c V st 7"
  moreover have "m \<le> 11" if "m \<le> (7::nat)" for m using that by simp
  ultimately show ?thesis unfolding miss_result_def by blast
qed

lemma miss_refines:
  assumes q: "quiet n C" and kn: "k < n" "n < 2 ^ 32" and miss: "view C k a = CACHEL_INVALID"
    and C': "C' = seq_access z n k f a C"
  shows "\<exists>ev. (\<forall>v. ev = Some v \<longrightarrow> \<not> same_line v a) \<and> quiet n C' \<and> done_log (C' k) = done_log (C k) @ [ret_of f] \<and>
    (\<forall>i<n. \<forall>d. view C' i d = moesi_access n k f a (moesi_evict k ev (view C)) i d)"
proof -
  let ?L = "lines (C k)" let ?s = "scan_lines a ?L" let ?c = "start_core f a (C k) ?s" let ?C = "C(k := ?c)"
  let ?v = "s_min_id ?s" let ?cl = "s_lines ?s"
  have idle: "idle_core k (C k)" using q kn by (simp add: quiet_def)
  then have ok: "lines_ok ?L" "counters_ok ?L" "tags_ok ?L" and nr: "\<forall>d. held_state ?L d \<noteq> CACHEL_REQUESTED"
    by (simp_all add: idle_core_def lines_ok_def)
  have none: "holders a ?L = {}" using miss held_invalid_iff[OF ok(1), of a] by (simp add: view_def)
  have ri: "s_rindex ?s = -1"
    using scan_found(1)[OF ok(2), of a] scan_not_found[OF ok(2), of a] none by (auto simp: holders_def)
  have v: "?v \<in> set (set_lines a)" using scan_victim[OF ok(2) ri] by (simp add: victim_ok_def)
  have ok': "lines_ok ?cl" "tags_ok ?cl" using ok lines_ok_scan by simp_all
  have none': "holders a ?cl = {}" using none ok(2) by (simp add: holders_def)
  have held: "held_state ?cl d = held_state ?L d" for d using ok(1) by simp
  have C'': "C' = fst ((seq_step z n k ^^ 12) (?C, new_bus, []))" using C' by (simp add: seq_access_def x_start_eq)
  have sc: "?C k = ?c" "x_pc ?c = X_Lookup" "x_rindex ?c = -1" "core_id ?c = of_nat k" "x_f ?c = f" "x_addr ?c = a"
      "lines ?c = ?cl" "done_log ?c = done_log (C k)" "x_min_id ?c = ?v"
    using ri idle by (simp_all add: start_core_def idle_core_def)
  let ?w = "writeback_addr (?cl ?v) a"
  define ev where "ev = (if state (?cl ?v) = CACHEL_INVALID then None else Some ?w)"
  define U where "U = (if dirty (state (?cl ?v)) then moesi_drop (\<lambda>i. i \<noteq> k) ?w (view C) else view C)"
  have w: "holders ?w ?cl = {?v}" "held_state ?L ?w = state (?cl ?v)" "\<not> same_line ?w a"
    if "state (?cl ?v) \<noteq> CACHEL_INVALID"
  proof -
    have h: "?v \<in> holders ?w ?cl" using writeback_holds[OF ok'(2) v that] .
    then show "holders ?w ?cl = {?v}" using holders_unique[OF ok'(1)] by blast
    show "held_state ?L ?w = state (?cl ?v)" using held_present[OF ok'(1) h] held by simp
    show "\<not> same_line ?w a" using h none' holders_same_line[of ?w a ?cl] by (auto simp: same_line_def)
  qed
  have evict: "?v \<in> holders d ?cl \<longleftrightarrow> state (?cl ?v) \<noteq> CACHEL_INVALID \<and> same_line d ?w" for d
  proof
    assume h: "?v \<in> holders d ?cl"
    then have "state (?cl ?v) \<noteq> CACHEL_INVALID" by (rule holders_valid)
    with h w(1) show "state (?cl ?v) \<noteq> CACHEL_INVALID \<and> same_line d ?w"
      using holder_same_line[of ?v d ?cl ?w ?cl] by (simp add: same_line_def)
  next
    assume "state (?cl ?v) \<noteq> CACHEL_INVALID \<and> same_line d ?w"
    with w(1) show "?v \<in> holders d ?cl" using holders_same_line[of d ?w ?cl] by (simp add: same_line_def)
  qed
  have evs: "moesi_evict k ev (view C) i d =
      (if i = k then (if ?v \<in> holders d ?cl then CACHEL_INVALID else view C i d) else U i d)" for i d
    using w(2) by (auto simp: ev_def U_def moesi_evict_def moesi_drop_def evict view_def dirty_def)
  have Ua: "U i d = view C i d" if "same_line d a" for i d
    using w(3) that by (auto simp: U_def moesi_drop_def dirty_def same_line_def)
  have res: "miss_result z n k ?c U (?C, new_bus, []) 11"
  proof (cases "dirty (state (?cl ?v))")
    case True
    then show ?thesis
      using dirty_miss[OF sc(1-3) _ sc(4) _ rest_start[OF q] kn, of ?w z "[]"] sc(6,7,9) by (simp add: U_def line_state_def)
  next
    case False
    then have "miss_result z n k ?c U (?C, new_bus, []) 7"
      using clean_miss[OF sc(1-3) _ sc(4) rest_start[OF q] kn, of z "[]"] sc(7,9) by (simp add: U_def line_state_def)
    then show ?thesis by (rule miss_result_mono)
  qed
  let ?st = "if f = FUNC_WRITE then CACHEL_MODIFIED else fetched n k a U"
  let ?F = "fill_line ?v a ?st ?cl"
  let ?V = "if f = FUNC_WRITE then moesi_drop (\<lambda>i. i \<noteq> k) a U else moesi_lend a U"
  obtain m where m: "m \<le> 11" "settles z n k m ?c (ret_of f) ?F ?V (?C, new_bus, [])"
    using res unfolding miss_result_def sc(5-7,9) ret_of_def by blast
  have hF: "held_state ?F d = (if same_line d a then ?st else if ?v \<in> holders d ?cl then CACHEL_INVALID
      else held_state ?L d)" for d
    using held_fill(1)[OF ok'(1) v none', of ?st d] held by (simp add: same_line_def)
  have "quiet n C' \<and> done_log (C' k) = done_log ?c @ [ret_of f] \<and>
    (\<forall>i<n. \<forall>d. view C' i d = (if i = k then held_state ?F d else ?V i d))"
  proof (rule settles_final[OF m(2) _ sc(4) _ _ C''])
    show "m \<le> 12" using m(1) by simp
    show "lines_ok ?F \<and> tags_ok ?F" using held_fill(2)[OF ok'(1) v none'] ok'(2) by simp
    show "\<forall>d. held_state ?F d \<noteq> CACHEL_REQUESTED" using nr by (simp add: hF fetched_def)
  qed
  moreover have "(if i = k then held_state ?F d else ?V i d) = moesi_access n k f a (moesi_evict k ev (view C)) i d" for i d
  proof -
    define h where "h = held_state ?F d"
    have hd: "h = (if same_line d a then ?st else if ?v \<in> holders d ?cl then CACHEL_INVALID else view C k d)"
      using hF[of d] by (simp add: h_def view_def)
    have "moesi_evict k ev (view C) k a = CACHEL_INVALID" using miss by (simp add: evs)
    moreover have "fetched n k a U = (if \<exists>j<n. j \<noteq> k \<and> moesi_evict k ev (view C) j a \<noteq> CACHEL_INVALID
        then CACHEL_SHARED else CACHEL_EXCLUSIVE)"
      by (auto simp: fetched_def evs)
    ultimately have "(if i = k then h else ?V i d) = moesi_access n k f a (moesi_evict k ev (view C)) i d"
      by (simp add: moesi_access_def moesi_write_def moesi_read_def moesi_drop_def moesi_lend_def evs hd)
    then show ?thesis by (simp only: h_def)
  qed
  moreover have "\<forall>v. ev = Some v \<longrightarrow> \<not> same_line v a" using w(3) by (auto simp: ev_def)
  ultimately show ?thesis using sc(8) by (intro exI[of _ ev]) simp
qed

lemma access_refines:
  assumes "quiet n C" and "k < n" and "n < 2 ^ 32" and "C' = seq_access z n k f a C"
  shows "\<exists>ev. (view C k a \<noteq> CACHEL_INVALID \<longrightarrow> ev = None) \<and> (\<forall>v. ev = Some v \<longrightarrow> \<not> same_line v a) \<and>
    quiet n C' \<and> done_log (C' k) = done_log (C k) @ [ret_of f] \<and>
    (\<forall>i<n. \<forall>d. view C' i d = moesi_access n k f a (moesi_evict k ev (view C)) i d)"
proof (cases "view C k a = CACHEL_INVALID")
  case True
  then show ?thesis using miss_refines[OF assms(1-3) True assms(4)] by blast
next
  case False
  then show ?thesis
    using hit_refines[OF assms(1-3) False assms(4)] by (intro exI[of _ None]) (simp add: moesi_evict_def)
qed

text \<open>C7: run alone, an access of any processor always finishes, and what it does to all caches is one step of
  the abstract MOESI protocol: nothing else than the protocol's read or write on a hit; on a miss the
  eviction of at most one other line (written back and removed from all caches when it is dirty) followed
  by the protocol's read or write.\<close>
theorem access_refines_moesi:
  assumes "quiet n C" and "k < n" and "n < 2 ^ 32" and "C' = seq_access z n k f a C"
  shows "\<exists>ev. (view C k a \<noteq> CACHEL_INVALID \<longrightarrow> ev = None) \<and> (\<forall>v. ev = Some v \<longrightarrow> \<not> same_line v a) \<and>
    quiet n C' \<and> done_log (C' k) = done_log (C k) @ [ret_of f] \<and>
    (\<forall>i<n. \<forall>d. view C' i d = moesi_access n k f a (moesi_evict k ev (view C)) i d)"
  using access_refines[OF assms] .

fun seq_run :: "i32 \<Rightarrow> nat \<Rightarrow> (nat \<times> mem_function \<times> i32) list \<Rightarrow> (nat \<Rightarrow> core) \<Rightarrow> nat \<Rightarrow> core" where
  "seq_run z n [] C = C"
| "seq_run z n ((k, f, a) # accs) C = seq_run z n accs (seq_access z n k f a C)"

definition new_cores :: "nat \<Rightarrow> core" where
  "new_cores i = new_core (of_nat i)"

lemma quiet_new: "quiet n new_cores"
  using lines_ok_init held_init tags_ok_init by (simp add: quiet_def idle_core_def new_cores_def new_core_def)

lemma coherent_new: "coherent n (view new_cores)"
  using held_init by (simp add: coherent_def compatible_def view_def new_cores_def new_core_def)

lemma coherent_cong:
  "coherent n S \<Longrightarrow> (\<And>i d. i < n \<Longrightarrow> S' i d = S i d) \<Longrightarrow> coherent n S'"
  by (simp add: coherent_def)

lemma access_coherent:
  assumes "quiet n C" and "k < n" and "n < 2 ^ 32" and "coherent n (view C)"
  shows "quiet n (seq_access z n k f a C) \<and> coherent n (view (seq_access z n k f a C)) \<and>
    done_log (seq_access z n k f a C k) = done_log (C k) @ [ret_of f]"
proof -
  let ?C = "seq_access z n k f a C"
  have "\<exists>ev. quiet n ?C \<and> done_log (?C k) = done_log (C k) @ [ret_of f] \<and>
    (\<forall>i<n. \<forall>d. view ?C i d = moesi_access n k f a (moesi_evict k ev (view C)) i d)"
    using access_refines[OF assms(1-3) refl, where z = z and f = f and a = a] by blast
  then obtain ev where q: "quiet n ?C" and d: "done_log (?C k) = done_log (C k) @ [ret_of f]"
    and v: "\<forall>i<n. \<forall>d. view ?C i d = moesi_access n k f a (moesi_evict k ev (view C)) i d"
    by blast
  let ?S = "moesi_evict k ev (view C)"
  have S: "coherent n ?S" using assms(4) by (rule coherent_evict)
  have nr: "?S i a \<noteq> CACHEL_REQUESTED" if "i < n" for i
    using assms(1) that by (auto simp: moesi_evict_def moesi_drop_def quiet_def idle_core_def view_def split: option.splits)
  have sl: "?S i b = ?S i a" if "i < n" "same_line b a" for i b
  proof -
    have "view C i b = view C i a"
      using assms(1) that held_same_line[of "lines (C i)" b a]
      by (simp add: quiet_def idle_core_def view_def same_line_def)
    then show ?thesis using that(2) by (auto simp: moesi_evict_def moesi_drop_def same_line_def split: option.split)
  qed
  have "coherent n (moesi_access n k f a ?S)"
    using coherent_write[OF S] coherent_read[OF S nr sl] by (simp add: moesi_access_def)
  then have "coherent n (view ?C)" by (rule coherent_cong) (use v in simp)
  then show ?thesis using q d by simp
qed


lemma run_coherent:
  "quiet n C \<Longrightarrow> coherent n (view C) \<Longrightarrow> n < 2 ^ 32 \<Longrightarrow> \<forall>(k, f, a) \<in> set accs. k < n \<Longrightarrow>
   quiet n (seq_run z n accs C) \<and> coherent n (view (seq_run z n accs C))"
proof (induction accs arbitrary: C)
  case (Cons acc accs)
  obtain k f a where acc: "acc = (k, f, a)" by (cases acc)
  then have "quiet n (seq_access z n k f a C) \<and> coherent n (view (seq_access z n k f a C))"
    using access_coherent[OF Cons.prems(1) _ Cons.prems(3,2), of k z f a] Cons.prems(4) by simp
  then show ?case using Cons.IH[of "seq_access z n k f a C"] Cons.prems(3,4) acc by simp
qed simp

text \<open>C1: coherence: starting from empty caches, after any sequence of reads and writes by any processors,
  each run to its end, no two caches hold a line in conflicting states: a MODIFIED or EXCLUSIVE line is in
  no other cache, and beside an OWNED line there are only SHARED copies.\<close>
theorem sequential_coherence:
  assumes "\<forall>(k, f, a) \<in> set accs. k < n" and "n < 2 ^ 32" and "i < n" and "j < n" and "i \<noteq> j"
    and "C = seq_run z n accs new_cores"
    and "held_state (lines (C i)) a = s" and "held_state (lines (C j)) a = t"
  shows "s = CACHEL_INVALID \<or> t = CACHEL_INVALID \<or>
    (s, t) \<in> {(CACHEL_SHARED, CACHEL_SHARED), (CACHEL_SHARED, CACHEL_OWNED), (CACHEL_OWNED, CACHEL_SHARED)}"
  using run_coherent[OF quiet_new coherent_new assms(2,1), of z] assms(3-8)
  by (auto simp: coherent_def compatible_def view_def)

theorem access_refines_moesi_witness:
  "\<exists>C ev. quiet 2 C \<and> done_log (C 1) = [RET_WRITE_DONE] \<and>
     (\<forall>i<2. \<forall>d. view C i d = moesi_write 1 0x44 (moesi_evict 1 ev (view new_cores)) i d)"
proof -
  define C where "C = seq_access 0 2 1 FUNC_WRITE 0x44 new_cores"
  have n: "(1::nat) < 2" "(2::nat) < 2 ^ 32" by simp_all
  obtain ev where "quiet 2 C" "done_log (C 1) = done_log (new_cores 1) @ [ret_of FUNC_WRITE]"
    "\<forall>i<2. \<forall>d. view C i d = moesi_access 2 1 FUNC_WRITE 0x44 (moesi_evict 1 ev (view new_cores)) i d"
    using access_refines_moesi[OF quiet_new n C_def] by blast
  moreover have "done_log (new_cores 1) = []" by (simp add: new_cores_def new_core_def)
  ultimately show ?thesis
    by (intro exI[of _ C] exI[of _ ev]) (simp add: moesi_access_def ret_of_def)
qed

theorem sequential_coherence_witness:
  "\<exists>C. C = seq_run 0 2 [(0, FUNC_WRITE, 0x44), (1, FUNC_READ, 0x40), (1, FUNC_WRITE, 0x48)] new_cores \<and>
     compatible (held_state (lines (C 0)) 0x44) (held_state (lines (C 1)) 0x44)"
  using sequential_coherence[of "[(0, FUNC_WRITE, 0x44), (1, FUNC_READ, 0x40), (1, FUNC_WRITE, 0x48)]" 2 0 1
      "seq_run 0 2 [(0, FUNC_WRITE, 0x44), (1, FUNC_READ, 0x40), (1, FUNC_WRITE, 0x48)] new_cores" 0, OF _ _ _ _ _ refl refl refl]
  by (auto simp: compatible_def)

end
