(* ===== verification/Memory_Controller.thy ===== *)
theory Memory_Controller
  imports Bus
begin

text \<open>
  \<^verbatim>\<open>src/assignment_1/Memory.h\<close>: the snooping thread, which appends every request it sees to the
  queue, and the execute thread, which serves the queue with a delay and answers through
  \<^verbatim>\<open>memory_response\<close>. The execute thread is cut at its \<^verbatim>\<open>wait\<close>s; \<open>Mem_Respond\<close> stands
  for the whole call of \<^verbatim>\<open>memory_response\<close>, whose own waiting is in the bus theories. The
  field \<open>served\<close> records the requests answered, oldest first. Both branches of the code (read and
  anything else) do the same: no data is kept.
\<close>

datatype mem_pc =
  Mem_Wait_Bus              \<comment> \<open>in \<^verbatim>\<open>memory_controller_wait\<close>\<close>
| Mem_Wait_Clk              \<comment> \<open>the cycle after it\<close>
| Mem_Delay nat request     \<comment> \<open>cycles left of the access time\<close>
| Mem_Respond request

record memory =
  requests :: "request list"
  cycles_to_wait :: int
  mem_pc :: mem_pc
  served :: "request list"

definition start_access :: "request \<Rightarrow> memory \<Rightarrow> memory" where
  "start_access req m =
     m\<lparr>mem_pc := (if cycles_to_wait m \<le> 0 then Mem_Respond req
                  else Mem_Delay (nat (cycles_to_wait m)) req)\<rparr>"

text \<open>The loop of \<^verbatim>\<open>execute\<close> from its test to the next \<^verbatim>\<open>wait\<close>.\<close>

definition mem_loop :: "memory \<Rightarrow> memory" where
  "mem_loop m =
     (case requests m of
        [] \<Rightarrow> m\<lparr>cycles_to_wait := 99, mem_pc := Mem_Wait_Bus\<rparr>
      | req # reqs \<Rightarrow> start_access req (m\<lparr>requests := reqs\<rparr>))"

definition mem_resume :: "memory \<Rightarrow> memory" where
  "mem_resume m =
     (case mem_pc m of
        Mem_Wait_Bus \<Rightarrow> m\<lparr>mem_pc := Mem_Wait_Clk\<rparr>
      | Mem_Wait_Clk \<Rightarrow> mem_loop m
      | Mem_Delay n req \<Rightarrow>
          m\<lparr>mem_pc := (if n \<le> 1 then Mem_Respond req else Mem_Delay (n - 1) req)\<rparr>
      | Mem_Respond req \<Rightarrow> mem_loop (m\<lparr>served := served m @ [req], cycles_to_wait := 10\<rparr>))"

definition mem_snoop :: "request \<Rightarrow> memory \<Rightarrow> memory" where
  "mem_snoop req m = m\<lparr>requests := requests m @ [req]\<rparr>"

definition new_memory :: memory where
  "new_memory = mem_loop \<lparr>requests = [], cycles_to_wait = 99, mem_pc = Mem_Wait_Bus, served = []\<rparr>"

datatype mem_event = Mem_Snoop request | Mem_Resume

fun mem_handle :: "mem_event \<Rightarrow> memory \<Rightarrow> memory" where
  "mem_handle (Mem_Snoop r) m = mem_snoop r m"
| "mem_handle Mem_Resume m = mem_resume m"

definition mem_run :: "mem_event list \<Rightarrow> memory \<Rightarrow> memory" where
  "mem_run evs m = fold mem_handle evs m"

fun arrivals :: "mem_event list \<Rightarrow> request list" where
  "arrivals [] = []"
| "arrivals (Mem_Snoop r # evs) = r # arrivals evs"
| "arrivals (Mem_Resume # evs) = arrivals evs"

fun in_service :: "mem_pc \<Rightarrow> request list" where
  "in_service (Mem_Delay n r) = [r]"
| "in_service (Mem_Respond r) = [r]"
| "in_service _ = []"

definition accepted :: "memory \<Rightarrow> request list" where
  "accepted m = served m @ in_service (mem_pc m) @ requests m"

lemma mem_loop_accepted:
  "in_service (mem_pc m) = [] \<Longrightarrow> accepted (mem_loop m) = accepted m"
  by (auto simp: accepted_def mem_loop_def start_access_def split: list.splits)

lemma mem_loop_busy: "mem_pc (mem_loop m) = p \<Longrightarrow> requests m = r # rs \<Longrightarrow> in_service p = [r]"
  by (auto simp: mem_loop_def start_access_def)

lemma mem_loop_answered:
  "mem_pc m = Mem_Respond r \<Longrightarrow>
   accepted (mem_loop (m\<lparr>served := served m @ [r], cycles_to_wait := 10\<rparr>)) = accepted m"
  by (auto simp: accepted_def mem_loop_def start_access_def split: list.splits)

lemma mem_resume_accepted: "accepted (mem_resume m) = accepted m"
proof (cases "mem_pc m")
  case Mem_Wait_Clk
  then show ?thesis using mem_loop_accepted[of m] by (simp add: mem_resume_def)
next
  case (Mem_Respond r)
  then show ?thesis using mem_loop_answered[of m r] by (simp add: mem_resume_def)
qed (auto simp: mem_resume_def accepted_def)

lemma mem_snoop_accepted: "accepted (mem_snoop r m) = accepted m @ [r]"
  by (simp add: accepted_def mem_snoop_def)

lemma mem_run_accepted: "accepted (mem_run evs m) = accepted m @ arrivals evs"
proof (induction evs arbitrary: m)
  case (Cons ev evs)
  then show ?case
    by (cases ev) (simp_all add: mem_run_def mem_resume_accepted mem_snoop_accepted)
qed (simp add: mem_run_def)

lemma new_memory_accepted: "accepted new_memory = []"
  by (simp add: new_memory_def mem_loop_def accepted_def)

text \<open>C28: the memory answers the requests it has snooped in the order of their arrival, each exactly
  once: at any time the requests that arrived are those answered, then the one being served, then the
  queue.\<close>
theorem memory_is_fifo:
  "arrivals evs = served (mem_run evs new_memory) @ in_service (mem_pc (mem_run evs new_memory)) @
     requests (mem_run evs new_memory)"
  using mem_run_accepted[of evs new_memory] new_memory_accepted by (simp add: accepted_def)

section \<open>Service times and progress\<close>

definition resumes :: "nat \<Rightarrow> memory \<Rightarrow> memory" where
  "resumes n = mem_resume ^^ n"

lemma resumes_0 [simp]: "resumes 0 m = m"
  by (simp add: resumes_def)

lemma resumes_Suc: "resumes (Suc n) m = resumes n (mem_resume m)"
  by (simp add: resumes_def funpow_swap1)

lemma resumes_add: "resumes (a + b) m = resumes b (resumes a m)"
  by (simp add: resumes_def funpow_add add.commute[of a b])

lemma resumes_delay:
  "mem_pc m = Mem_Delay (Suc n) r \<Longrightarrow> resumes (Suc n) m = m\<lparr>mem_pc := Mem_Respond r\<rparr>"
proof (induction n arbitrary: m)
  case 0
  then show ?case by (simp add: resumes_Suc mem_resume_def)
next
  case (Suc n)
  have "mem_resume m = m\<lparr>mem_pc := Mem_Delay (Suc n) r\<rparr>" using Suc.prems by (simp add: mem_resume_def)
  with Suc.IH[of "m\<lparr>mem_pc := Mem_Delay (Suc n) r\<rparr>"] show ?case by (simp add: resumes_Suc[of "Suc n"])
qed

text \<open>An access that starts takes \<^verbatim>\<open>cycles_to_wait\<close> cycles, then it is answered.\<close>

lemma access_time:
  assumes "0 < cycles_to_wait m" and "requests m = r # rs"
  shows "resumes (nat (cycles_to_wait m)) (mem_loop m) = m\<lparr>requests := rs, mem_pc := Mem_Respond r\<rparr>"
proof -
  obtain n where "nat (cycles_to_wait m) = Suc n" using assms(1) by (cases "nat (cycles_to_wait m)") auto
  then show ?thesis
    using assms resumes_delay[of "mem_loop m" n r] by (simp add: mem_loop_def start_access_def)
qed

text \<open>
  \<open>serve_queue n m\<close>: the memory thread after answering the request in service and the whole queue,
  when nothing new arrives; the queued requests take 10 cycles and one answer each.
\<close>

lemma serve_rest:
  assumes "mem_pc m = Mem_Respond r"
  shows "resumes (11 * length (requests m) + 1) m =
    m\<lparr>served := served m @ r # requests m, requests := [], cycles_to_wait := 99, mem_pc := Mem_Wait_Bus\<rparr>"
  using assms
proof (induction "requests m" arbitrary: m r)
  case Nil
  from Nil(1)[symmetric] Nil(2) show ?case by (simp add: resumes_Suc mem_resume_def mem_loop_def)
next
  case (Cons q qs)
  let ?m = "m\<lparr>served := served m @ [r], cycles_to_wait := 10\<rparr>"
  let ?m' = "?m\<lparr>requests := qs, mem_pc := Mem_Respond q\<rparr>"
  have rq: "requests m = q # qs" using Cons(2) by simp
  have "resumes 10 (mem_loop ?m) = ?m'"
    using access_time[of ?m q qs] rq by simp
  then have "resumes (1 + 10) m = ?m'"
    using Cons.prems unfolding resumes_add by (simp add: resumes_Suc mem_resume_def)
  moreover have "11 * length (requests m) + 1 = (1 + 10) + (11 * length (requests ?m') + 1)"
    by (simp add: rq)
  ultimately have "resumes (11 * length (requests m) + 1) m = resumes (11 * length (requests ?m') + 1) ?m'"
    by (simp only: resumes_add)
  also have "\<dots> = ?m'\<lparr>served := served ?m' @ q # requests ?m', requests := [], cycles_to_wait := 99,
      mem_pc := Mem_Wait_Bus\<rparr>"
    by (rule Cons.hyps(1)) simp_all
  finally show ?case by (simp add: rq)
qed

lemma burst_served:
  assumes "m = fold mem_snoop (r # rs) new_memory"
  shows "resumes (2 + 99 + 11 * length rs + 1) m =
    \<lparr>requests = [], cycles_to_wait = 99, mem_pc = Mem_Wait_Bus, served = r # rs\<rparr>"
proof -
  have snoops: "fold mem_snoop qs k = k\<lparr>requests := requests k @ qs\<rparr>" for qs k
    by (induction qs arbitrary: k) (auto simp: mem_snoop_def)
  have m: "m = \<lparr>requests = r # rs, cycles_to_wait = 99, mem_pc = Mem_Wait_Bus, served = []\<rparr>"
    using assms by (simp add: snoops mem_snoop_def new_memory_def mem_loop_def)
  let ?m = "m\<lparr>mem_pc := Mem_Wait_Clk\<rparr>"
  have "resumes 2 m = mem_loop ?m" by (simp add: m numeral_2_eq_2 resumes_Suc mem_resume_def)
  moreover have "resumes 99 (mem_loop ?m) = ?m\<lparr>requests := rs, mem_pc := Mem_Respond r\<rparr>"
    using access_time[of ?m r rs] by (simp add: m)
  ultimately have "resumes (2 + 99) m = m\<lparr>requests := rs, mem_pc := Mem_Respond r\<rparr>"
    unfolding resumes_add by (simp add: m)
  then have "resumes (2 + 99 + (11 * length rs + 1)) m =
      resumes (11 * length rs + 1) (m\<lparr>requests := rs, mem_pc := Mem_Respond r\<rparr>)"
    unfolding resumes_add by simp
  also have "\<dots> = \<lparr>requests = [], cycles_to_wait = 99, mem_pc = Mem_Wait_Bus, served = r # rs\<rparr>"
    using serve_rest[of "m\<lparr>requests := rs, mem_pc := Mem_Respond r\<rparr>" r] by (simp add: m)
  finally show ?thesis by (simp only: add.assoc)
qed

text \<open>from the idle memory, a burst of requests is answered completely: 99 cycles of access time
  for the first one, 10 for each of the others, plus the two cycles the thread takes to notice the
  queue and one for every answer; afterwards the memory is idle again with the full access time.\<close>
theorem burst_service_time:
  assumes "m = fold mem_snoop (r # rs) new_memory"
  shows "resumes (2 + 99 + 11 * length rs + 1) m =
    \<lparr>requests = [], cycles_to_wait = 99, mem_pc = Mem_Wait_Bus, served = r # rs\<rparr>"
  by (rule burst_served[OF assms])

theorem burst_service_time_witness:
  "resumes 113 (fold mem_snoop [\<lparr>r_id = 1, r_addr = 64, r_func = 1\<rparr>, \<lparr>r_id = 2, r_addr = 96, r_func = 2\<rparr>]
       new_memory) =
    \<lparr>requests = [], cycles_to_wait = 99, mem_pc = Mem_Wait_Bus,
     served = [\<lparr>r_id = 1, r_addr = 64, r_func = 1\<rparr>, \<lparr>r_id = 2, r_addr = 96, r_func = 2\<rparr>]\<rparr>"
  using burst_service_time[OF refl, where r = "\<lparr>r_id = 1, r_addr = 64, r_func = 1\<rparr>"
      and rs = "[\<lparr>r_id = 2, r_addr = 96, r_func = 2\<rparr>]"] by simp

text \<open>an invalidate message, which only concerns the other caches, is picked up by the memory as a
  request, occupies it for a full access time, and is answered by a response to a processor that never
  waits for one.\<close>
theorem invalidate_served_by_memory:
  assumes "cacheline_invalidate_begin addr proc_id b = (True, b')"
  shows "\<exists>r. get_next_request z [b'] = Some (r, []) \<and> r_func r = func_code FUNC_INVALIDATE \<and>
    served (resumes 102 (mem_snoop r new_memory)) = [r] \<and> r_id r = proc_id \<and> r_addr r = addr"
proof -
  let ?r = "\<lparr>r_id = proc_id, r_addr = addr, r_func = func_code FUNC_INVALIDATE\<rparr>"
  have "get_next_request z [b'] = Some (?r, [])"
    using assms by (auto simp: cacheline_invalidate_begin_def drive_def func_is_def to_int_def
        wires_request_def split: if_splits)
  moreover have "served (resumes (2 + 99 + 11 * length [] + 1) (mem_snoop ?r new_memory)) = [?r]"
    using burst_served[of "mem_snoop ?r new_memory" ?r "[]"] by simp
  ultimately show ?thesis by (intro exI[of _ ?r]) simp
qed

theorem invalidate_served_by_memory_witness:
  "\<exists>r b'. cacheline_invalidate_begin 0x40 1 new_bus = (True, b') \<and>
    served (resumes 102 (mem_snoop r new_memory)) = [r] \<and> r_id r = 1 \<and> r_addr r = 0x40"
proof -
  have "cacheline_invalidate_begin 0x40 1 new_bus =
      (True, drive FUNC_INVALIDATE 1 0x40 (new_bus\<lparr>bus_mutex := True\<rparr>))"
    by (simp add: cacheline_invalidate_begin_def bus_busy_def new_bus_def)
  from invalidate_served_by_memory[OF this, of 0] this show ?thesis by blast
qed

end
