(* ===== verification/Moesi_Concurrent.thy ===== *)
theory Moesi_Concurrent
  imports Moesi_Coherence Memory_Controller
begin

text \<open>
  All threads of the cache simulator at once, edge by edge of the clock. At an edge the threads that wait for it run in
  some order (\<^verbatim>\<open>default_event()\<close> of the clock is either edge, \<^verbatim>\<open>negedge_event()\<close> the falling one); the mutex and the flags
  of the bus change at once, the wires change for their readers after all threads have run. If that changes the value of
  \<^verbatim>\<open>Port_BusFunc\<close>, the threads that wait for its event run: the snoopers, the transfers they spawn and the memory
  controller. A value that is replaced by an equal one is no event.
\<close>

section \<open>State\<close>

record conc =
  c_cores :: "nat \<Rightarrow> core"
  c_bus :: bus                               \<comment> \<open>flags, and wires as written\<close>
  c_seen :: bus                              \<comment> \<open>wires as read\<close>
  c_jobs :: "(nat \<times> c2c_job \<times> bus_pc) list"
  c_mem :: memory
  c_resp :: bus_pc
  c_high :: bool

definition conc_start :: "(nat \<Rightarrow> core) \<Rightarrow> conc" where
  "conc_start C = \<lparr>c_cores = C, c_bus = new_bus, c_seen = new_bus, c_jobs = [], c_mem = new_memory, c_resp = Off_Bus, c_high = False\<rparr>"

section \<open>Threads at an edge\<close>

definition with_wires :: "bus \<Rightarrow> bus \<Rightarrow> bus" where
  "with_wires w b = b\<lparr>Port_BusAddr := Port_BusAddr w, Port_BusFunc := Port_BusFunc w, Port_ProcID := Port_ProcID w,
     Port_SourceID := Port_SourceID w\<rparr>"

fun waits_negedge :: "exec_pc \<Rightarrow> bool" where
  "waits_negedge X_Hit_Inv_Neg = True"
| "waits_negedge X_Read_Neg = True"
| "waits_negedge X_Miss_Inv_Neg = True"
| "waits_negedge _ = False"

text \<open>A thread in \<^verbatim>\<open>wait_for_response\<close> reads the wires; it writes them only if it then takes the mutex.\<close>

definition exec_edge :: "i32 \<Rightarrow> nat \<Rightarrow> conc \<Rightarrow> conc" where
  "exec_edge z i s =
     (let c = c_cores s i; b = c_bus s in
      if waits_negedge (x_pc c) \<and> c_high s then s
      else case x_pc c of
        X_Func \<Rightarrow> s
      | p \<Rightarrow>
          if awaited c p = None then
            (case exec_resume z b c of (b', c') \<Rightarrow> s\<lparr>c_bus := b', c_cores := (c_cores s)(i := c')\<rparr>)
          else
            (case exec_resume z (with_wires (c_seen s) b) c of (b', c') \<Rightarrow>
               s\<lparr>c_bus := (if bus_mutex b' \<and> \<not> bus_mutex b then b'\<lparr>Port_SourceID := Port_SourceID b\<rparr> else b),
                 c_cores := (c_cores s)(i := c')\<rparr>))"

definition job_attempt :: "nat \<Rightarrow> c2c_job \<Rightarrow> conc \<Rightarrow> conc \<times> bus_pc" where
  "job_attempt i j s =
     (let c = c_cores s i in
      case c2c_try (j_proc_id j) (j_source_id j) (j_addr j) (line_state c (j_line j)) (c_bus s) of
        None \<Rightarrow> (s, C2C_Retry)
      | Some (b, st) \<Rightarrow>
          (s\<lparr>c_bus := b, c_cores := (c_cores s)(i := c\<lparr>lines := set_state (j_line j) st (lines c)\<rparr>)\<rparr>, C2C_Drive))"

definition job_edge :: "nat \<Rightarrow> conc \<Rightarrow> conc" where
  "job_edge k s =
     (if k < length (c_jobs s) then
        (case c_jobs s ! k of (i, j, p) \<Rightarrow>
           (case (case p of C2C_Retry \<Rightarrow> job_attempt i j s | C2C_Drive \<Rightarrow> (s\<lparr>c_bus := c2c_end (c_bus s)\<rparr>, Off_Bus) | _ \<Rightarrow> (s, p)) of
              (s, p) \<Rightarrow> s\<lparr>c_jobs := (c_jobs s)[k := (i, j, p)]\<rparr>))
      else s)"

definition resp_attempt :: "request \<Rightarrow> conc \<Rightarrow> conc" where
  "resp_attempt req s =
     (case mem_try (r_id req) (r_addr req) (c_bus s) of (b, ok) \<Rightarrow> s\<lparr>c_bus := b, c_resp := (if ok then Mem_Drive else Mem_Retry)\<rparr>)"

definition resp_enter :: "request \<Rightarrow> conc \<Rightarrow> conc" where
  "resp_enter req s =
     (case mem_announce (c_bus s) of None \<Rightarrow> s\<lparr>c_resp := Mem_Yield\<rparr> | Some b \<Rightarrow> resp_attempt req (s\<lparr>c_bus := b\<rparr>))"

definition controller_resume :: "conc \<Rightarrow> conc" where
  "controller_resume s =
     (let s = s\<lparr>c_mem := mem_resume (c_mem s), c_resp := Off_Bus\<rparr> in
      case mem_pc (c_mem s) of Mem_Respond req \<Rightarrow> resp_enter req s | _ \<Rightarrow> s)"

definition controller_edge :: "conc \<Rightarrow> conc" where
  "controller_edge s =
     (case mem_pc (c_mem s) of
        Mem_Wait_Bus \<Rightarrow> s
      | Mem_Respond req \<Rightarrow>
          (case c_resp s of
             Mem_Drive \<Rightarrow> controller_resume (s\<lparr>c_bus := mem_end (c_bus s)\<rparr>)
           | Mem_Retry \<Rightarrow> resp_attempt req s
           | _ \<Rightarrow> resp_enter req s)
      | _ \<Rightarrow> controller_resume s)"

text \<open>The snooping thread of the memory looks at the wires at every edge.\<close>

definition collector_edge :: "i32 \<Rightarrow> conc \<Rightarrow> conc" where
  "collector_edge z s =
     (case get_next_request z [c_seen s] of None \<Rightarrow> s | Some (req, _) \<Rightarrow> s\<lparr>c_mem := mem_snoop req (c_mem s)\<rparr>)"

datatype conc_thread = Exec nat | Mover nat | Controller | Collector

fun thread_edge :: "i32 \<Rightarrow> conc_thread \<Rightarrow> conc \<Rightarrow> conc" where
  "thread_edge z (Exec i) s = exec_edge z i s"
| "thread_edge z (Mover k) s = job_edge k s"
| "thread_edge z Controller s = controller_edge s"
| "thread_edge z Collector s = collector_edge z s"

section \<open>Events of the wires\<close>

definition spawn_job :: "nat \<times> c2c_job \<Rightarrow> conc \<Rightarrow> conc" where
  "spawn_job ij s =
     (case job_attempt (fst ij) (snd ij) (s\<lparr>c_bus := c2c_begin (c_bus s)\<rparr>) of
        (s, p) \<Rightarrow> s\<lparr>c_jobs := c_jobs s @ [(fst ij, snd ij, p)]\<rparr>)"

definition func_event :: "i32 \<Rightarrow> nat \<Rightarrow> conc \<Rightarrow> conc" where
  "func_event z n s =
     (case snoop_all z n (c_bus s) (c_cores s) of (C, js) \<Rightarrow>
        let s = fold spawn_job js (s\<lparr>c_cores := C\<rparr>)
        in if mem_pc (c_mem s) = Mem_Wait_Bus then s\<lparr>c_mem := mem_resume (c_mem s)\<rparr> else s)"

definition wires_update :: "i32 \<Rightarrow> nat \<Rightarrow> conc \<Rightarrow> conc" where
  "wires_update z n s =
     (let s' = (if Port_BusFunc (c_bus s) \<noteq> Port_BusFunc (c_seen s) then func_event z n s else s)
      in s'\<lparr>c_seen := c_bus s'\<rparr>)"

section \<open>Runs\<close>

datatype conc_event = Access nat mem_function i32 | Edge "conc_thread list"

fun conc_step :: "i32 \<Rightarrow> nat \<Rightarrow> conc_event \<Rightarrow> conc \<Rightarrow> conc" where
  "conc_step z n (Access i f a) s =
     (if x_pc (c_cores s i) = X_Func then s\<lparr>c_cores := (c_cores s)(i := x_start f a (c_cores s i))\<rparr> else s)"
| "conc_step z n (Edge ts) s = wires_update z n (fold (thread_edge z) ts (s\<lparr>c_high := \<not> c_high s\<rparr>))"

definition conc_run :: "i32 \<Rightarrow> nat \<Rightarrow> conc_event list \<Rightarrow> conc \<Rightarrow> conc" where
  "conc_run z n es s = fold (conc_step z n) es s"

section \<open>The arbiter of the bus\<close>

text \<open>What the arbiter sees of a state: the bus and the point of each thread inside its bus call.\<close>

definition owns_bus :: "exec_pc \<Rightarrow> bool" where
  "owns_bus p \<longleftrightarrow> p \<in> {X_Hit_Inv_Drive, X_Wb_Drive, X_Rd_Drive, X_Miss_Inv_Drive}"

fun agent_pc :: "conc \<Rightarrow> agent \<Rightarrow> bus_pc" where
  "agent_pc s (Requester i) = (if owns_bus (x_pc (c_cores s i)) then Request_Drive else Off_Bus)"
| "agent_pc s (Transfer k) = (if k < length (c_jobs s) then snd (snd (c_jobs s ! k)) else Off_Bus)"
| "agent_pc s Main_Memory = c_resp s"

definition bus_view :: "conc \<Rightarrow> bus_sys" where
  "bus_view s = \<lparr>the_bus = c_bus s, pc_of = agent_pc s\<rparr>"

lemma owns_bus_simps [simp]:
  "owns_bus X_Hit_Inv_Drive" "owns_bus X_Wb_Drive" "owns_bus X_Rd_Drive" "owns_bus X_Miss_Inv_Drive"
  "\<not> owns_bus X_Func" "\<not> owns_bus X_Lookup" "\<not> owns_bus X_Hit_Inv_Clk" "\<not> owns_bus X_Hit_Inv_Neg"
  "\<not> owns_bus X_Read_Neg" "\<not> owns_bus X_Rescan" "\<not> owns_bus X_Wb_Clk" "\<not> owns_bus (X_Wb_Wait st)"
  "\<not> owns_bus X_Rd_Clk" "\<not> owns_bus (X_Rd_Wait st)" "\<not> owns_bus X_Miss_Inv_Clk" "\<not> owns_bus X_Miss_Inv_Neg"
  "\<not> owns_bus X_Refetch" "\<not> owns_bus X_Done"
  by (simp_all add: owns_bus_def)

definition requested :: "bus \<Rightarrow> exec_pc \<Rightarrow> bus \<Rightarrow> bool" where
  "requested b p b' \<longleftrightarrow> b' = b \<and> \<not> owns_bus p \<or>
     (\<exists>f proc_id addr. request_begin f proc_id addr b = (True, b') \<and> owns_bus p)"

lemma requested_idle: "\<not> owns_bus p \<Longrightarrow> requested b p b"
  by (simp add: requested_def)

lemma requested_begin:
  "read_begin i a b = (True, b') \<Longrightarrow> owns_bus p \<Longrightarrow> requested b p b'"
  "write_begin i a b = (True, b') \<Longrightarrow> owns_bus p \<Longrightarrow> requested b p b'"
  "cacheline_invalidate_begin a i b = (True, b') \<Longrightarrow> owns_bus p \<Longrightarrow> requested b p b'"
proof -
  have f: "request_begin FUNC_READ i a b = read_begin i a b" "request_begin FUNC_WRITE i a b = write_begin i a b"
    "request_begin FUNC_INVALIDATE i a b = cacheline_invalidate_begin a i b"
    by (simp_all add: request_begin_def)
  show "read_begin i a b = (True, b') \<Longrightarrow> owns_bus p \<Longrightarrow> requested b p b'"
    "write_begin i a b = (True, b') \<Longrightarrow> owns_bus p \<Longrightarrow> requested b p b'"
    "cacheline_invalidate_begin a i b = (True, b') \<Longrightarrow> owns_bus p \<Longrightarrow> requested b p b'"
    unfolding requested_def using f by metis+
qed

lemma begin_refused:
  "read_begin i a b = (False, b') \<Longrightarrow> b' = b"
  "write_begin i a b = (False, b') \<Longrightarrow> b' = b"
  "cacheline_invalidate_begin a i b = (False, b') \<Longrightarrow> b' = b"
  by (auto simp: read_begin_def write_begin_def cacheline_invalidate_begin_def split: if_splits)

lemma x_try_requested:
  "x_rd_try b c = (b', c') \<Longrightarrow> requested b (x_pc c') b'"
  "x_wb_try b c = (b', c') \<Longrightarrow> requested b (x_pc c') b'"
  "x_hit_inv b c = (b', c') \<Longrightarrow> requested b (x_pc c') b'"
  "x_miss_inv b c = (b', c') \<Longrightarrow> requested b (x_pc c') b'"
  by (auto simp: x_rd_try_def x_wb_try_def x_hit_inv_def x_miss_inv_def requested_idle
      split: prod.splits if_splits dest: begin_refused intro: requested_begin requested_idle)

lemma x_fill_requested: "x_fill b st c = (b', c') \<Longrightarrow> requested b (x_pc c') b'"
  by (auto simp: x_fill_def Let_def x_write_done_def finish_def requested_idle
      split: if_splits intro: x_try_requested)

lemma x_post_requested: "x_post_writeback b c = (b', c') \<Longrightarrow> requested b (x_pc c') b'"
  by (auto simp: x_post_writeback_def intro: x_try_requested)

lemma exec_resume_requested:
  assumes "exec_resume z b c = (b', c')"
  shows "requested (if owns_bus (x_pc c) then request_end b else b) (x_pc c') b'"
proof (cases "x_pc c")
  case X_Lookup
  then show ?thesis
    using assms by (auto simp: exec_resume_def x_hit_def x_miss_def Let_def requested_idle
        split: if_splits intro: x_try_requested x_post_requested)
next
  case (X_Wb_Wait st)
  then show ?thesis
    using assms by (auto simp: exec_resume_def requested_idle split: sum.splits intro: x_post_requested)
next
  case (X_Rd_Wait st)
  then show ?thesis
    using assms by (auto simp: exec_resume_def requested_idle split: sum.splits intro: x_fill_requested)
qed (use assms in \<open>auto simp: exec_resume_def requested_idle x_check_def Let_def finish_def x_write_done_def
      split: if_splits intro: x_try_requested x_fill_requested x_post_requested\<close>)

section \<open>Every thread is a client of the arbiter\<close>

lemma bus_view_eqI:
  "c_bus s = the_bus t \<Longrightarrow> (\<And>a. agent_pc s a = pc_of t a) \<Longrightarrow> bus_view s = t"
  by (rule bus_sys.equality) (auto simp: bus_view_def)

lemma agent_pc_upd:
  "agent_pc (s\<lparr>c_bus := b\<rparr>) = agent_pc s" "agent_pc (s\<lparr>c_seen := b\<rparr>) = agent_pc s"
  "agent_pc (s\<lparr>c_mem := m\<rparr>) = agent_pc s" "agent_pc (s\<lparr>c_high := h\<rparr>) = agent_pc s"
  "agent_pc (s\<lparr>c_resp := p\<rparr>) = (agent_pc s)(Main_Memory := p)"
  "agent_pc (s\<lparr>c_cores := (c_cores s)(i := c)\<rparr>) =
     (agent_pc s)(Requester i := (if owns_bus (x_pc c) then Request_Drive else Off_Bus))"
  "k < length (c_jobs s) \<Longrightarrow>
     agent_pc (s\<lparr>c_jobs := (c_jobs s)[k := (i, j, p)]\<rparr>) = (agent_pc s)(Transfer k := p)"
  "agent_pc (s\<lparr>c_jobs := c_jobs s @ [(i, j, p)]\<rparr>) = (agent_pc s)(Transfer (length (c_jobs s)) := p)"
  by (rule ext, rename_tac a, case_tac a, auto simp: nth_list_update nth_append)+

lemma requested_steps:
  assumes "requested b p b'" and "pc_of s (Requester i) = Off_Bus" and "the_bus s = b"
  shows "bus_step\<^sup>*\<^sup>* s (set_agent (Requester i) (if owns_bus p then Request_Drive else Off_Bus) b' s)"
proof -
  consider "b' = b" "\<not> owns_bus p" | f proc_id addr where "request_begin f proc_id addr b = (True, b')" "owns_bus p"
    using assms(1) by (auto simp: requested_def)
  then show ?thesis
  proof cases
    case 1
    then have "set_agent (Requester i) (if owns_bus p then Request_Drive else Off_Bus) b' s = s"
      using assms by (simp add: set_agent_def fun_upd_idem)
    then show ?thesis by simp
  next
    case 2
    then show ?thesis using bus_step.request[of s i] assms by (metis r_into_rtranclp)
  qed
qed

lemma set_agent_twice: "set_agent a p b (set_agent a q c s) = set_agent a p b s"
  by (simp add: set_agent_def)

lemma set_agent_same: "pc_of s a = p \<Longrightarrow> the_bus s = b \<Longrightarrow> set_agent a p b s = s"
  by (simp add: set_agent_def fun_upd_idem)

lemma resume_steps:
  assumes "exec_resume z b c = (b', c')" and "the_bus s = b"
    and "pc_of s (Requester i) = (if owns_bus (x_pc c) then Request_Drive else Off_Bus)"
  shows "bus_step\<^sup>*\<^sup>* s (set_agent (Requester i) (if owns_bus (x_pc c') then Request_Drive else Off_Bus) b' s)"
proof (cases "owns_bus (x_pc c)")
  case True
  let ?t = "set_agent (Requester i) Off_Bus (request_end b) s"
  have "bus_step s ?t" using bus_step.request_done[of s i] assms True by simp
  moreover have "bus_step\<^sup>*\<^sup>* ?t (set_agent (Requester i) (if owns_bus (x_pc c') then Request_Drive else Off_Bus) b' ?t)"
    by (rule requested_steps) (use exec_resume_requested[OF assms(1)] True in \<open>auto simp: set_agent_def\<close>)
  ultimately show ?thesis by (metis set_agent_twice converse_rtranclp_into_rtranclp)
next
  case False
  then show ?thesis using requested_steps exec_resume_requested[OF assms(1)] assms by simp
qed

lemma own_points_Requester: "own_points pc \<Longrightarrow> pc (Requester i) \<in> {Off_Bus, Request_Drive}"
  by (simp add: own_points_def)

text \<open>A thread in \<^verbatim>\<open>wait_for_response\<close> works on the wires as read, and writes what the arbiter would write.\<close>

lemma requested_with_wires:
  assumes "requested (with_wires w b) p b'"
  shows "requested b p (if bus_mutex b' \<and> \<not> bus_mutex b then b'\<lparr>Port_SourceID := Port_SourceID b\<rparr> else b)"
  using assms unfolding requested_def
proof (elim disjE exE conjE)
  assume "b' = with_wires w b" "\<not> owns_bus p"
  then show "(if bus_mutex b' \<and> \<not> bus_mutex b then b'\<lparr>Port_SourceID := Port_SourceID b\<rparr> else b) = b \<and> \<not> owns_bus p \<or>
     (\<exists>f proc_id addr. request_begin f proc_id addr b =
        (True, if bus_mutex b' \<and> \<not> bus_mutex b then b'\<lparr>Port_SourceID := Port_SourceID b\<rparr> else b) \<and> owns_bus p)"
    by (simp add: with_wires_def)
next
  fix f proc_id addr
  assume r: "request_begin f proc_id addr (with_wires w b) = (True, b')" and p: "owns_bus p"
  then have "request_begin f proc_id addr b = (True, if bus_mutex b' \<and> \<not> bus_mutex b then b'\<lparr>Port_SourceID := Port_SourceID b\<rparr> else b)"
    by (auto simp: request_begin_def read_begin_def write_begin_def cacheline_invalidate_begin_def bus_busy_def
        with_wires_def drive_def split: mem_function.splits if_splits)
  with p show "(if bus_mutex b' \<and> \<not> bus_mutex b then b'\<lparr>Port_SourceID := Port_SourceID b\<rparr> else b) = b \<and> \<not> owns_bus p \<or>
     (\<exists>f proc_id addr. request_begin f proc_id addr b =
        (True, if bus_mutex b' \<and> \<not> bus_mutex b then b'\<lparr>Port_SourceID := Port_SourceID b\<rparr> else b) \<and> owns_bus p)"
    by blast
qed

lemma awaited_not_owner: "awaited c p \<noteq> None \<Longrightarrow> \<not> owns_bus p"
  by (cases p) auto

lemma bus_view_sel [simp]: "the_bus (bus_view s) = c_bus s" "pc_of (bus_view s) = agent_pc s"
  by (simp_all add: bus_view_def)

lemma bus_view_core:
  "bus_view (s\<lparr>c_bus := b, c_cores := (c_cores s)(i := c)\<rparr>) =
     set_agent (Requester i) (if owns_bus (x_pc c) then Request_Drive else Off_Bus) b (bus_view s)"
  by (rule bus_sys.equality) (auto simp: set_agent_def agent_pc_upd bus_view_def agent_pc_upd(6)[of "s\<lparr>c_bus := b\<rparr>", simplified])


lemma exec_edge_steps: "bus_step\<^sup>*\<^sup>* (bus_view s) (bus_view (exec_edge z i s))"
proof (cases "waits_negedge (x_pc (c_cores s i)) \<and> c_high s \<or> x_pc (c_cores s i) = X_Func")
  case True
  then have "exec_edge z i s = s" by (auto simp: exec_edge_def Let_def)
  then show ?thesis by simp
next
  case False
  let ?c = "c_cores s i" let ?b = "c_bus s"
  show ?thesis
  proof (cases "awaited ?c (x_pc ?c) = None")
    case True
    obtain b' c' where r: "exec_resume z ?b ?c = (b', c')" by fastforce
    then have "exec_edge z i s = s\<lparr>c_bus := b', c_cores := (c_cores s)(i := c')\<rparr>"
      using False True by (auto simp: exec_edge_def Let_def split: exec_pc.splits)
    then show ?thesis using resume_steps[OF r, of "bus_view s" i] by (simp add: bus_view_core)
  next
    case wait: False
    obtain b' c' where r: "exec_resume z (with_wires (c_seen s) ?b) ?c = (b', c')" by fastforce
    let ?w = "if bus_mutex b' \<and> \<not> bus_mutex ?b then b'\<lparr>Port_SourceID := Port_SourceID ?b\<rparr> else ?b"
    have e: "exec_edge z i s = s\<lparr>c_bus := ?w, c_cores := (c_cores s)(i := c')\<rparr>"
      using False wait r by (auto simp: exec_edge_def Let_def split: exec_pc.splits)
    have n: "\<not> owns_bus (x_pc ?c)" using wait awaited_not_owner by blast
    then have "requested ?b (x_pc c') ?w"
      using exec_resume_requested[OF r] requested_with_wires by simp
    then show ?thesis using requested_steps[of ?b "x_pc c'" ?w "bus_view s" i] n unfolding e bus_view_core by simp
  qed
qed

lemma bus_view_job:
  "k < length (c_jobs s) \<Longrightarrow> bus_view (s\<lparr>c_bus := b, c_cores := C, c_jobs := (c_jobs s)[k := (i, j, p)]\<rparr>) =
     set_agent (Transfer k) p b (bus_view (s\<lparr>c_cores := C\<rparr>))"
  "bus_view (s\<lparr>c_bus := b, c_cores := C, c_jobs := c_jobs s @ [(i, j, p)]\<rparr>) =
     set_agent (Transfer (length (c_jobs s))) p b (bus_view (s\<lparr>c_cores := C\<rparr>))"
  "bus_view (s\<lparr>c_bus := b, c_resp := p\<rparr>) = set_agent Main_Memory p b (bus_view s)"
proof -
  have a: "agent_pc (s\<lparr>c_bus := b, c_cores := C, c_jobs := js\<rparr>) = agent_pc (s\<lparr>c_cores := C, c_jobs := js\<rparr>)" for js
    by (rule ext, rename_tac a, case_tac a) auto
  have m: "agent_pc (s\<lparr>c_bus := b, c_resp := p\<rparr>) = (agent_pc s)(Main_Memory := p)"
    by (rule ext, rename_tac a, case_tac a) auto
  show "k < length (c_jobs s) \<Longrightarrow> bus_view (s\<lparr>c_bus := b, c_cores := C, c_jobs := (c_jobs s)[k := (i, j, p)]\<rparr>) =
     set_agent (Transfer k) p b (bus_view (s\<lparr>c_cores := C\<rparr>))"
    using agent_pc_upd(7)[of k "s\<lparr>c_cores := C\<rparr>"] by (simp add: bus_view_def set_agent_def a)
  show "bus_view (s\<lparr>c_bus := b, c_cores := C, c_jobs := c_jobs s @ [(i, j, p)]\<rparr>) =
     set_agent (Transfer (length (c_jobs s))) p b (bus_view (s\<lparr>c_cores := C\<rparr>))"
    using agent_pc_upd(8)[of "s\<lparr>c_cores := C\<rparr>"] by (simp add: bus_view_def set_agent_def a)
  show "bus_view (s\<lparr>c_bus := b, c_resp := p\<rparr>) = set_agent Main_Memory p b (bus_view s)"
    by (simp add: bus_view_def set_agent_def m)
qed

lemma bus_view_same_pc:
  "(\<And>i. x_pc (C i) = x_pc (c_cores s i)) \<Longrightarrow> bus_view (s\<lparr>c_cores := C\<rparr>) = bus_view s"
  "bus_view (s\<lparr>c_mem := m\<rparr>) = bus_view s" "bus_view (s\<lparr>c_seen := b\<rparr>) = bus_view s"
  "bus_view (s\<lparr>c_high := h\<rparr>) = bus_view s"
  by (rule bus_view_eqI, simp, rename_tac a, case_tac a, auto)+

text \<open>One attempt of a transfer, seen by the arbiter.\<close>

lemma job_attempt_fields:
  assumes "job_attempt i j s = (s', p)"
  shows "s' = s\<lparr>c_bus := c_bus s', c_cores := c_cores s'\<rparr>" "x_pc (c_cores s' k) = x_pc (c_cores s k)"
    "c2c_attempt (j_proc_id j) (j_source_id j) (j_addr j) (line_state (c_cores s i) (j_line j)) a (c_bus s) t =
       set_agent a p (c_bus s') t"
  using assms by (auto simp: job_attempt_def Let_def c2c_attempt_def split: option.splits)

lemma job_edge_steps: "bus_step\<^sup>*\<^sup>* (bus_view s) (bus_view (job_edge k s))"
proof (cases "k < length (c_jobs s)")
  case k: True
  obtain i j p where jk: "c_jobs s ! k = (i, j, p)" by (cases "c_jobs s ! k") auto
  have pc: "agent_pc s (Transfer k) = p" using k jk by simp
  consider "p = C2C_Retry" | "p = C2C_Drive" | "p \<noteq> C2C_Retry" "p \<noteq> C2C_Drive" by blast
  then show ?thesis
  proof cases
    case 1
    obtain s' p' where r: "job_attempt i j s = (s', p')" by fastforce
    note f = job_attempt_fields[OF r]
    have jobs: "c_jobs s' = c_jobs s" by (subst f(1)) simp
    have "bus_view (job_edge k s) = bus_view (s'\<lparr>c_jobs := (c_jobs s)[k := (i, j, p')]\<rparr>)"
      using k jk 1 r jobs by (simp add: job_edge_def)
    also have "\<dots> = set_agent (Transfer k) p' (c_bus s') (bus_view (s\<lparr>c_cores := c_cores s'\<rparr>))"
      using bus_view_job(1)[OF k] by (subst f(1)) simp
    also have "bus_view (s\<lparr>c_cores := c_cores s'\<rparr>) = bus_view s" using f(2) by (rule bus_view_same_pc)
    finally show ?thesis
      using bus_step.transfer_again[of "bus_view s" k "j_proc_id j" "j_source_id j" "j_addr j"
          "line_state (c_cores s i) (j_line j)"] pc 1 f(3) by auto
  next
    case 2
    then have "bus_view (job_edge k s) = set_agent (Transfer k) Off_Bus (c2c_end (c_bus s)) (bus_view s)"
      using k jk bus_view_job(1)[OF k, where b = "c2c_end (c_bus s)" and C = "c_cores s"] by (simp add: job_edge_def)
    then show ?thesis using bus_step.transfer_done[of "bus_view s" k] pc 2 by auto
  next
    case 3
    have "(c_jobs s)[k := (i, j, p)] = c_jobs s" using jk by (metis list_update_id)
    with 3 have "job_edge k s = s" using k jk by (cases p) (auto simp: job_edge_def)
    then show ?thesis by simp
  qed
qed (simp add: job_edge_def)

lemma spawn_job_steps: "bus_step\<^sup>*\<^sup>* (bus_view s) (bus_view (spawn_job ij s))"
proof -
  let ?s = "s\<lparr>c_bus := c2c_begin (c_bus s)\<rparr>"
  obtain i j where ij: "ij = (i, j)" by fastforce
  obtain s' p where r: "job_attempt i j ?s = (s', p)" by fastforce
  note f = job_attempt_fields[OF r]
  have jobs: "c_jobs s' = c_jobs s" by (subst f(1)) simp
  have s': "s' = s\<lparr>c_bus := c_bus s', c_cores := c_cores s'\<rparr>" using f(1) by simp
  have "bus_view (spawn_job ij s) = bus_view (s'\<lparr>c_jobs := c_jobs s @ [(i, j, p)]\<rparr>)"
    using r jobs by (simp add: spawn_job_def ij)
  also have "\<dots> = set_agent (Transfer (length (c_jobs s))) p (c_bus s') (bus_view (s\<lparr>c_cores := c_cores s'\<rparr>))"
    by (subst s') (rule bus_view_job(2))
  also have "bus_view (s\<lparr>c_cores := c_cores s'\<rparr>) = bus_view s" using f(2) by (intro bus_view_same_pc) simp
  finally show ?thesis
    using bus_step.transfer[of "bus_view s" "length (c_jobs s)" "j_proc_id j" "j_source_id j" "j_addr j"
        "line_state (c_cores s i) (j_line j)"] f(3) by auto
qed

text \<open>The memory: outside \<^verbatim>\<open>memory_response\<close> its thread is off the bus.\<close>

definition resp_ok :: "conc \<Rightarrow> bool" where
  "resp_ok s \<longleftrightarrow> c_resp s \<noteq> Off_Bus \<longrightarrow> (\<exists>r. mem_pc (c_mem s) = Mem_Respond r)"

lemma resp_attempt_view:
  "bus_view (resp_attempt req s) = mem_attempt (r_id req) (r_addr req) (c_bus s) (bus_view s)"
  by (simp add: resp_attempt_def mem_attempt_def bus_view_job(3) split: prod.split)

lemma resp_enter_view: "bus_view (resp_enter req s) = mem_enter (r_id req) (r_addr req) (bus_view s)"
proof (cases "mem_announce (c_bus s)")
  case None
  then show ?thesis using bus_view_job(3)[where s = s and b = "c_bus s" and p = Mem_Yield] by (simp add: resp_enter_def mem_enter_def)
next
  case (Some b)
  have "mem_attempt i a b (bus_view (s\<lparr>c_bus := b\<rparr>)) = mem_attempt i a b (bus_view s)" for i a
    by (simp add: mem_attempt_def bus_view_def set_agent_def agent_pc_upd split: prod.split)
  with Some show ?thesis by (simp add: resp_enter_def mem_enter_def resp_attempt_view)
qed

lemma controller_resume_steps:
  assumes "agent_pc s Main_Memory = Off_Bus"
  shows "bus_step\<^sup>*\<^sup>* (bus_view s) (bus_view (controller_resume s))"
proof -
  let ?s = "s\<lparr>c_mem := mem_resume (c_mem s), c_resp := Off_Bus\<rparr>"
  have v: "bus_view ?s = bus_view s"
    using assms by (intro bus_view_eqI) (simp, rename_tac a, case_tac a, auto)
  show ?thesis
  proof (cases "mem_pc (mem_resume (c_mem s))")
    case (Mem_Respond req)
    then have "bus_view (controller_resume s) = mem_enter (r_id req) (r_addr req) (bus_view s)"
      using v by (simp add: controller_resume_def resp_enter_view)
    moreover have "bus_step (bus_view s) (mem_enter (r_id req) (r_addr req) (bus_view s))"
      using assms by (intro bus_step.respond) simp
    ultimately show ?thesis by auto
  qed (use v in \<open>auto simp: controller_resume_def\<close>)
qed

lemma controller_edge_steps:
  assumes "resp_ok s" and "bus_inv (bus_view s)"
  shows "bus_step\<^sup>*\<^sup>* (bus_view s) (bus_view (controller_edge s))"
proof (cases "mem_pc (c_mem s)")
  case (Mem_Respond req)
  have own: "c_resp s \<in> {Off_Bus, Mem_Yield, Mem_Retry, Mem_Drive}"
    using assms(2) by (simp add: bus_inv_def own_points_def)
  then consider "c_resp s = Mem_Drive" | "c_resp s = Mem_Retry" | "c_resp s \<in> {Off_Bus, Mem_Yield}" by blast
  then show ?thesis
  proof cases
    case 1
    let ?s = "s\<lparr>c_bus := mem_end (c_bus s), c_resp := Off_Bus\<rparr>"
    have "bus_step (bus_view s) (bus_view ?s)"
      using bus_step.respond_done[of "bus_view s"] 1 by (simp add: bus_view_job(3))
    moreover have "bus_step\<^sup>*\<^sup>* (bus_view ?s) (bus_view (controller_resume ?s))"
      by (rule controller_resume_steps) simp
    moreover have "controller_edge s = controller_resume ?s"
      using Mem_Respond 1 by (simp add: controller_edge_def controller_resume_def)
    ultimately show ?thesis by (simp add: converse_rtranclp_into_rtranclp)
  next
    case 2
    then have "bus_view (controller_edge s) = mem_attempt (r_id req) (r_addr req) (c_bus s) (bus_view s)"
      using Mem_Respond by (simp add: controller_edge_def resp_attempt_view)
    then show ?thesis using bus_step.respond_again[of "bus_view s" "r_id req" "r_addr req"] 2 by auto
  next
    case 3
    then have "bus_view (controller_edge s) = mem_enter (r_id req) (r_addr req) (bus_view s)"
      using Mem_Respond by (auto simp: controller_edge_def resp_enter_view)
    then show ?thesis using bus_step.respond[of "bus_view s" "r_id req" "r_addr req"] 3 by auto
  qed
qed (use assms controller_resume_steps[of s] in \<open>auto simp: controller_edge_def resp_ok_def\<close>)

lemma collector_view: "bus_view (collector_edge z s) = bus_view s"
  by (simp add: collector_edge_def bus_view_same_pc split: option.split)

lemma resp_ok_simps:
  "resp_ok (exec_edge z i s) = resp_ok s" "resp_ok (job_edge k s) = resp_ok s" "resp_ok (spawn_job ij s) = resp_ok s"
  by (auto simp: resp_ok_def exec_edge_def job_edge_def spawn_job_def job_attempt_def Let_def
      split: exec_pc.splits prod.splits option.splits bus_pc.splits)

lemma resp_enter_ok: "mem_pc (c_mem s) = Mem_Respond req \<Longrightarrow> resp_ok (resp_enter req' s)"
  by (simp add: resp_ok_def resp_enter_def resp_attempt_def split: option.split prod.split)

lemma controller_resume_ok: "resp_ok (controller_resume s)"
proof (cases "mem_pc (mem_resume (c_mem s))")
  case (Mem_Respond r)
  then show ?thesis by (simp add: controller_resume_def Let_def resp_enter_ok)
qed (simp_all add: controller_resume_def Let_def resp_ok_def)

lemma controller_edge_ok: "resp_ok s \<Longrightarrow> resp_ok (controller_edge s)"
  by (simp add: controller_edge_def resp_enter_ok controller_resume_ok split: mem_pc.split bus_pc.split)
     (simp add: resp_ok_def resp_attempt_def split: prod.split)

lemma collector_edge_ok: "resp_ok s \<Longrightarrow> resp_ok (collector_edge z s)"
  by (simp add: resp_ok_def collector_edge_def mem_snoop_def split: option.split)

definition arbitrated :: "conc \<Rightarrow> bool" where
  "arbitrated s \<longleftrightarrow> resp_ok s \<and> reach bus_init bus_step (bus_view s)"

lemma reach_steps: "step\<^sup>*\<^sup>* s t \<Longrightarrow> reach init step s \<Longrightarrow> reach init step t"
  by (induction rule: rtranclp_induct) (auto intro: reach_step)

lemma thread_edge_arbitrated: "arbitrated s \<Longrightarrow> arbitrated (thread_edge z t s)"
  using bus_ts.reach_inv[of "bus_view s"]
  by (cases t) (auto simp: arbitrated_def resp_ok_simps collector_view controller_edge_ok collector_edge_ok
      intro: reach_steps exec_edge_steps job_edge_steps controller_edge_steps)

lemma threads_arbitrated: "arbitrated s \<Longrightarrow> arbitrated (fold (thread_edge z) ts s)"
  by (induction ts arbitrary: s) (auto intro: thread_edge_arbitrated)

lemma spawn_job_arbitrated: "arbitrated s \<Longrightarrow> arbitrated (spawn_job ij s)"
  using spawn_job_steps[of s ij] by (auto simp: arbitrated_def resp_ok_simps intro: reach_steps)

lemma spawn_arbitrated: "arbitrated s \<Longrightarrow> arbitrated (fold spawn_job js s)"
  by (induction js arbitrary: s) (simp_all add: spawn_job_arbitrated)

lemma snoop_core_pc: "x_pc (fst (snoop_core z b c)) = x_pc c"
  by (auto simp: snoop_core_def split: option.split prod.split)

lemma arbitrated_upd:
  "arbitrated s \<Longrightarrow> (\<And>i. x_pc (C i) = x_pc (c_cores s i)) \<Longrightarrow> arbitrated (s\<lparr>c_cores := C\<rparr>)"
  "arbitrated s \<Longrightarrow> arbitrated (s\<lparr>c_seen := b\<rparr>)" "arbitrated s \<Longrightarrow> arbitrated (s\<lparr>c_high := h\<rparr>)"
  by (simp_all add: arbitrated_def bus_view_same_pc resp_ok_def)

lemma mem_resume_idle: "mem_pc (c_mem s) = Mem_Wait_Bus \<Longrightarrow> arbitrated s \<Longrightarrow> arbitrated (s\<lparr>c_mem := mem_resume (c_mem s)\<rparr>)"
  by (simp add: arbitrated_def bus_view_same_pc resp_ok_def)

lemma func_event_arbitrated:
  assumes "arbitrated s"
  shows "arbitrated (func_event z n s)"
proof -
  obtain C js where C: "snoop_all z n (c_bus s) (c_cores s) = (C, js)" by fastforce
  then have "x_pc (C i) = x_pc (c_cores s i)" for i by (auto simp: snoop_all_def snoop_core_pc)
  then have "arbitrated (fold spawn_job js (s\<lparr>c_cores := C\<rparr>))"
    using assms by (intro spawn_arbitrated arbitrated_upd)
  then show ?thesis using C mem_resume_idle by (auto simp: func_event_def Let_def)
qed

lemma conc_step_arbitrated:
  assumes "arbitrated s"
  shows "arbitrated (conc_step z n e s)"
proof (cases e)
  case (Access i f a)
  have "\<not> owns_bus (x_pc (x_start f a c))" for c by (simp add: x_start_def x_check_def Let_def)
  then have "agent_pc (s\<lparr>c_cores := (c_cores s)(i := x_start f a (c_cores s i))\<rparr>) = agent_pc s"
    if "x_pc (c_cores s i) = X_Func"
    using that by (auto simp: agent_pc_upd fun_upd_idem_iff)
  then have "bus_view (s\<lparr>c_cores := (c_cores s)(i := x_start f a (c_cores s i))\<rparr>) = bus_view s"
    if "x_pc (c_cores s i) = X_Func" using that by (simp add: bus_view_def)
  then show ?thesis using assms Access by (simp add: arbitrated_def resp_ok_def)
next
  case (Edge ts)
  then show ?thesis
    using assms by (auto simp: wires_update_def Let_def intro!: arbitrated_upd func_event_arbitrated threads_arbitrated)
qed

lemma conc_run_arbitrated: "arbitrated s \<Longrightarrow> arbitrated (conc_run z n es s)"
  unfolding conc_run_def by (induction es arbitrary: s) (auto intro: conc_step_arbitrated)

lemma conc_start_arbitrated:
  assumes "\<And>i. x_pc (C i) = X_Func"
  shows "arbitrated (conc_start C)"
proof -
  have "bus_view (conc_start C) = \<lparr>the_bus = new_bus, pc_of = (\<lambda>_. Off_Bus)\<rparr>"
    by (rule bus_view_eqI) (simp add: conc_start_def, rename_tac a, case_tac a, auto simp: conc_start_def assms)
  then show ?thesis
    by (auto simp: arbitrated_def bus_init_def resp_ok_def conc_start_def intro: reach_init)
qed

text \<open>C15: the whole simulator uses its bus as the arbiter allows. Whatever the processors access, whatever orders the
  scheduler chooses, every state of all threads together is, seen from the bus, a state that the arbiter can
  reach; so at most one of all the threads drives the bus, and it holds the mutex.\<close>
theorem simulator_refines_arbiter:
  assumes "\<And>i. x_pc (C i) = X_Func" and "s = conc_run z n es (conc_start C)"
  shows "reach bus_init bus_step (bus_view s) \<and>
    (\<forall>i j. owns_bus (x_pc (c_cores s i)) \<and> owns_bus (x_pc (c_cores s j)) \<longrightarrow> i = j) \<and>
    (\<forall>i k. owns_bus (x_pc (c_cores s i)) \<and> k < length (c_jobs s) \<longrightarrow> snd (snd (c_jobs s ! k)) \<noteq> C2C_Drive) \<and>
    (\<forall>i. owns_bus (x_pc (c_cores s i)) \<longrightarrow> c_resp s \<noteq> Mem_Drive \<and> bus_mutex (c_bus s))"
proof -
  have r: "reach bus_init bus_step (bus_view s)"
    using conc_run_arbitrated[OF conc_start_arbitrated[OF assms(1)]] assms(2) by (simp add: arbitrated_def)
  have one: "driving (agent_pc s a) \<Longrightarrow> driving (agent_pc s a') \<Longrightarrow> a = a'"
    and m: "bus_mutex (c_bus s) \<longleftrightarrow> (\<exists>a. driving (agent_pc s a))" for a a'
    using bus_ts.reach_inv[OF r] by (auto simp: bus_inv_def)
  have own: "driving (agent_pc s (Requester i)) \<longleftrightarrow> owns_bus (x_pc (c_cores s i))" for i by simp
  have "i = j" if "owns_bus (x_pc (c_cores s i))" "owns_bus (x_pc (c_cores s j))" for i j
    using one[of "Requester i" "Requester j"] that own by blast
  moreover have "snd (snd (c_jobs s ! k)) \<noteq> C2C_Drive" if "owns_bus (x_pc (c_cores s i))" "k < length (c_jobs s)" for i k
    using one[of "Requester i" "Transfer k"] that by auto
  moreover have "c_resp s \<noteq> Mem_Drive \<and> bus_mutex (c_bus s)" if "owns_bus (x_pc (c_cores s i))" for i
  proof
    show "c_resp s \<noteq> Mem_Drive" using one[of "Requester i" Main_Memory] that by auto
    show "bus_mutex (c_bus s)" using m own[of i] that by blast
  qed
  ultimately show ?thesis using r by blast
qed

theorem simulator_refines_arbiter_witness:
  "let s = conc_run 0 2 [Access 0 FUNC_READ 0x40, Access 1 FUNC_READ 0x80, Edge [Exec 1, Exec 0]]
             (conc_start (\<lambda>k. new_core (of_nat k)))
   in reach bus_init bus_step (bus_view s) \<and> x_pc (c_cores s 1) = X_Rd_Drive \<and> \<not> owns_bus (x_pc (c_cores s 0))"
proof -
  let ?C = "\<lambda>k. new_core (of_nat k)"
  let ?s = "conc_run 0 2 [Access 0 FUNC_READ 0x40, Access 1 FUNC_READ 0x80, Edge [Exec 1, Exec 0]] (conc_start ?C)"
  have C: "x_pc (?C k) = X_Func" for k by (simp add: new_core_def)
  have pc: "x_pc (c_cores ?s 1) = X_Rd_Drive" by code_simp
  then have "\<not> owns_bus (x_pc (c_cores ?s 0))"
    using simulator_refines_arbiter[of ?C ?s, OF C refl] by (metis owns_bus_simps(3) zero_neq_one)
  then show ?thesis using simulator_refines_arbiter[of ?C ?s, OF C refl] pc by (simp only: Let_def simp_thms)
qed

section \<open>Which requests the snoopers hear\<close>










section \<open>Misses that overlap\<close>







end
