(* ===== verification/Tlm_Payload.thy ===== *)
theory Tlm_Payload
  imports Prelude
begin

text \<open>
  The transactions of the TLM examples under \<^verbatim>\<open>src/locknsnoop\<close>. The generic payload belongs to
  the SystemC library; its attributes, which the sources set and read one by one, are the fields of a record
  that the examples extend by their own extensions. \<open>data\<close> is the buffer the data pointer points to, an
  absent byte-enable pointer is \<open>byte_enable = False\<close>, times are picoseconds.
\<close>

datatype tlm_command = TLM_READ_COMMAND | TLM_WRITE_COMMAND | TLM_IGNORE_COMMAND

datatype tlm_response =
  TLM_OK_RESPONSE | TLM_INCOMPLETE_RESPONSE | TLM_GENERIC_ERROR_RESPONSE | TLM_ADDRESS_ERROR_RESPONSE
| TLM_COMMAND_ERROR_RESPONSE | TLM_BURST_ERROR_RESPONSE | TLM_BYTE_ENABLE_ERROR_RESPONSE

datatype tlm_phase = BEGIN_REQ | END_REQ | BEGIN_RESP | END_RESP

datatype tlm_sync = TLM_ACCEPTED | TLM_UPDATED | TLM_COMPLETED

datatype manager = Pool_Manager | Lock_Manager | Load_Link_Manager

type_synonym sc_time = nat

definition ns :: "nat \<Rightarrow> sc_time" where
  "ns n = 1000 * n"

record payload =
  command :: tlm_command
  address :: u64
  data :: "byte list"
  data_length :: u32
  byte_enable :: bool
  streaming_width :: u32
  dmi_allowed :: bool
  response :: tlm_response
  manager :: manager

text \<open>An \<^verbatim>\<open>int\<close> in memory; no theorem depends on the byte order chosen.\<close>

definition int_bytes :: "i32 \<Rightarrow> byte list" where
  "int_bytes w = rev (be32_bytes w)"

lemma length_int_bytes [simp]: "length (int_bytes w) = 4"
  by (simp add: int_bytes_def)

text \<open>
  A call of \<^verbatim>\<open>b_transport\<close> on a socket changes the transaction, the delay and the state behind the
  socket; \<open>None\<close> is an execution that C++ leaves undefined or that an assertion stops.
\<close>

type_synonym ('t, 's) b_transport = "'t \<Rightarrow> sc_time \<Rightarrow> 's \<Rightarrow> ('t \<times> sc_time \<times> 's) option"

type_synonym ('t, 's) nb_transport =
  "'t \<Rightarrow> tlm_phase \<Rightarrow> sc_time \<Rightarrow> 's \<Rightarrow> (tlm_sync \<times> 't \<times> tlm_phase \<times> sc_time \<times> 's) option"

end
