(* ===== verification/Lock_Protocol.thy ===== *)
theory Lock_Protocol
  imports Tlm_Payload "HOL-Library.Monad_Syntax"
begin

text \<open>
  What the two memory-locking interconnects of \<^verbatim>\<open>src/locknsnoop/locking_*\<close> promise, independent of how a
  lock command is attached to a transaction (sticky extension, automatic extension, or both). The three
  implementations interpret the locales of this theory.
\<close>

section \<open>Locks\<close>

datatype lock_command = Plain | Lock i32 | Unlock i32

text \<open>The holder of the lock on each address, \<open>0\<close> for an anonymous one.\<close>

type_synonym lock_table = "u64 \<Rightarrow> i32 option"

fun lock_rule :: "lock_command \<Rightarrow> u64 \<Rightarrow> lock_table \<Rightarrow> bool \<times> lock_table" where
  "lock_rule Plain a T = (T a = None, T)"
| "lock_rule (Lock i) a T = (if T a = None then (True, T(a \<mapsto> i)) else (False, T))"
| "lock_rule (Unlock i) a T =
     (case T a of
        None \<Rightarrow> (True, T)
      | Some j \<Rightarrow> if j = 0 \<or> j = i then (True, T(a := None)) else (False, T))"

text \<open>May a command lift the lock that holder \<open>i\<close> has on address \<open>a\<close>?\<close>

definition lifts :: "i32 \<Rightarrow> u64 \<Rightarrow> lock_command \<times> u64 \<Rightarrow> bool" where
  "lifts i a c = (case c of (Unlock j, b) \<Rightarrow> b = a \<and> (i = 0 \<or> j = i) | _ \<Rightarrow> False)"

lemma lock_rule_keeps: "T a = Some i \<Longrightarrow> \<not> lifts i a (c, b) \<Longrightarrow> snd (lock_rule c b T) a = Some i"
  by (cases c) (auto simp: lifts_def split: option.splits)

lemma lock_rule_bounces: "T a = Some i \<Longrightarrow> \<not> lifts i a (c, a) \<Longrightarrow> \<not> fst (lock_rule c a T)"
  by (cases c) (auto simp: lifts_def)

section \<open>Load-link and store-conditional\<close>

datatype link_command = Ordinary | Link | Conditional

text \<open>The addresses whose link is set.\<close>

fun link_rule :: "link_command \<Rightarrow> tlm_command \<Rightarrow> u64 \<Rightarrow> u64 set \<Rightarrow> bool \<times> u64 set" where
  "link_rule Ordinary k a L = (True, if k = TLM_WRITE_COMMAND then L - {a} else L)"
| "link_rule Link k a L = (True, insert a L)"
| "link_rule Conditional k a L = (a \<in> L, L - {a})"

text \<open>Does a command clear the link on address \<open>a\<close>?\<close>

definition clears :: "u64 \<Rightarrow> link_command \<times> tlm_command \<times> u64 \<Rightarrow> bool" where
  "clears a c = (case c of (l, k, b) \<Rightarrow> b = a \<and> (l = Conditional \<or> l = Ordinary \<and> k = TLM_WRITE_COMMAND))"

definition sets_link :: "u64 \<Rightarrow> link_command \<times> tlm_command \<times> u64 \<Rightarrow> bool" where
  "sets_link a c = (case c of (l, k, b) \<Rightarrow> b = a \<and> l = Link)"

text \<open>The link on \<open>a\<close> after a sequence of commands: set since the last command that cleared it.\<close>

definition linked :: "u64 \<Rightarrow> (link_command \<times> tlm_command \<times> u64) list \<Rightarrow> bool" where
  "linked a cs \<longleftrightarrow> (\<exists>xs c ys. cs = xs @ c # ys \<and> sets_link a c \<and> (\<forall>y \<in> set ys. \<not> clears a y))"

lemma link_rule_state:
  "a \<in> snd (link_rule l k b L) \<longleftrightarrow> sets_link a (l, k, b) \<or> a \<in> L \<and> \<not> clears a (l, k, b)"
  by (cases l) (auto simp: sets_link_def clears_def)

lemma linked_snoc: "linked a (cs @ [c]) \<longleftrightarrow> sets_link a c \<or> linked a cs \<and> \<not> clears a c"
  (is "?l \<longleftrightarrow> ?r")
proof
  assume ?l
  then obtain xs d ys where *: "cs @ [c] = xs @ d # ys" "sets_link a d" "\<forall>y \<in> set ys. \<not> clears a y"
    by (auto simp: linked_def)
  then show ?r
  proof (cases ys rule: rev_cases)
    case Nil
    with * show ?thesis by simp
  next
    case (snoc zs z)
    with * have "cs = xs @ d # zs" "z = c" by simp_all
    with * snoc have "linked a cs \<and> \<not> clears a c" unfolding linked_def
      by (intro conjI exI[of _ xs] exI[of _ d] exI[of _ zs]) auto
    then show ?thesis ..
  qed
next
  assume ?r
  then show ?l
  proof
    assume "sets_link a c"
    then show ?l unfolding linked_def by (intro exI[of _ cs] exI[of _ c] exI[of _ "[]"]) simp
  next
    assume "linked a cs \<and> \<not> clears a c"
    then obtain xs d ys where "cs = xs @ d # ys" "sets_link a d" "\<forall>y \<in> set ys. \<not> clears a y" "\<not> clears a c"
      by (auto simp: linked_def)
    then show ?l unfolding linked_def by (intro exI[of _ xs] exI[of _ d] exI[of _ "ys @ [c]"]) auto
  qed
qed

section \<open>The contract of an interconnect\<close>

text \<open>
  A gate decides on each transaction whether it is sent on; a transaction it stops gets the response
  \<^verbatim>\<open>TLM_COMMAND_ERROR_RESPONSE\<close>. The library routes every transaction through \<open>gate\<close>, and what lies
  behind is \<open>down\<close>.
\<close>

type_synonym ('t, 's) gate = "'t \<Rightarrow> 's \<Rightarrow> (bool \<times> 't \<times> 's) option"

definition gate_b_transport :: "('t, 's) gate \<Rightarrow> ('t, 'd) b_transport \<Rightarrow> ('t, 's \<times> 'd) b_transport" where
  "gate_b_transport gate down tr delay s = do {
     (pass, tr, table) \<leftarrow> gate tr (fst s);
     if pass then do {
       (tr, delay, d) \<leftarrow> down tr delay (snd s);
       Some (tr, delay, table, d)
     } else Some (tr, delay, table, snd s)
   }"

definition gate_nb_transport_fw :: "('t, 's) gate \<Rightarrow> ('t, 'd) nb_transport \<Rightarrow> ('t, 's \<times> 'd) nb_transport" where
  "gate_nb_transport_fw gate down tr phase delay s = do {
     (pass, tr, table) \<leftarrow> gate tr (fst s);
     if pass then do {
       (status, tr, phase, delay, d) \<leftarrow> down tr phase delay (snd s);
       Some (status, tr, phase, delay, table, d)
     } else Some (TLM_COMPLETED, tr, phase, delay, table, snd s)
   }"

text \<open>
  The other calls (\<^verbatim>\<open>get_direct_mem_ptr\<close>, \<^verbatim>\<open>transport_dbg\<close> and the backward path) go through
  without a look at the locks.
\<close>

definition gate_forward :: "('x \<Rightarrow> 'd \<Rightarrow> 'y \<times> 'd) \<Rightarrow> 'x \<Rightarrow> 's \<times> 'd \<Rightarrow> 'y \<times> 's \<times> 'd" where
  "gate_forward call x s = (let (y, d) = call x (snd s) in (y, fst s, d))"

text \<open>
  The transactions that reach the interconnect one after the other (each with its delay), and for each
  whether it was sent on.
\<close>

fun serve :: "('t, 's) gate \<Rightarrow> ('t, 'd) b_transport \<Rightarrow> ('t \<times> sc_time) list \<Rightarrow> 's \<times> 'd \<Rightarrow>
    (('t \<times> sc_time) list \<times> 's \<times> 'd) option" where
  "serve gate down [] s = Some ([], s)"
| "serve gate down ((t, dl) # ts) s = do {
     (t', dl', s) \<leftarrow> gate_b_transport gate down t dl s;
     (rs, s) \<leftarrow> serve gate down ts s;
     Some ((t', dl') # rs, s)
   }"

locale lock_gate =
  fixes gate :: "('t, 's) gate" and ok :: "'t \<Rightarrow> bool"
    and cmd :: "'t \<Rightarrow> lock_command" and adr :: "'t \<Rightarrow> u64" and bounce :: "'t \<Rightarrow> 't"
    and table :: "'s \<Rightarrow> lock_table"
  assumes gate_total: "ok t \<Longrightarrow> \<exists>p t' s'. gate t s = Some (p, t', s')"
    and gate_rule: "ok t \<Longrightarrow> gate t s = Some (p, t', s') \<Longrightarrow> (p, table s') = lock_rule (cmd t) (adr t) (table s)"
    and gate_trans: "ok t \<Longrightarrow> gate t s = Some (p, t', s') \<Longrightarrow> t' = (if p then t else bounce t)"
begin

text \<open>A transaction for a locked address that cannot lift the lock is stopped and sent back.\<close>

lemma locked_out:
  assumes "ok t" and "table s (adr t) = Some i" and "\<not> lifts i (adr t) (cmd t, adr t)"
  shows "\<exists>s'. gate_b_transport gate down t dl (s, d) = Some (bounce t, dl, s', d) \<and> table s' (adr t) = Some i"
proof -
  obtain p t' s' where g: "gate t s = Some (p, t', s')" using gate_total[OF assms(1)] by blast
  have r: "(p, table s') = lock_rule (cmd t) (adr t) (table s)" using gate_rule[OF assms(1) g] .
  then have "\<not> p" using lock_rule_bounces[of "table s", OF assms(2,3)] by (metis fst_conv)
  moreover have "table s' (adr t) = Some i"
    using lock_rule_keeps[of "table s", OF assms(2,3)] r by (metis snd_conv)
  ultimately show ?thesis using gate_trans[OF assms(1) g] g by (simp add: gate_b_transport_def)
qed

lemma lock_kept:
  assumes "ok t" and "table s a = Some i" and "\<not> lifts i a (cmd t, adr t)"
    and "gate_b_transport gate down t dl (s, d) = Some (t', dl', s', d')"
  shows "table s' a = Some i"
proof -
  obtain p t1 s1 where g: "gate t s = Some (p, t1, s1)" using gate_total[OF assms(1)] by blast
  have "s' = s1" using assms(4) g by (auto simp: gate_b_transport_def split: if_splits bind_splits)
  moreover have "table s1 a = Some i"
    using lock_rule_keeps[of "table s", OF assms(2,3)] gate_rule[OF assms(1) g] by (metis snd_conv)
  ultimately show ?thesis by simp
qed

text \<open>While the lock is held, every other transaction for the address comes back as an error.\<close>

lemma exclusion:
  assumes "serve gate down ts (s, d) = Some (rs, s', d')" and "table s a = Some i"
    and "\<And>t dl. (t, dl) \<in> set ts \<Longrightarrow> ok t \<and> \<not> lifts i a (cmd t, adr t)"
  shows "table s' a = Some i \<and> (\<forall>k < length ts. adr (fst (ts ! k)) = a \<longrightarrow> rs ! k = (bounce (fst (ts ! k)), snd (ts ! k)))"
  using assms
proof (induction ts arbitrary: s d rs)
  case Nil
  then show ?case by simp
next
  case (Cons x ts)
  obtain t dl where x: "x = (t, dl)" by (cases x)
  obtain t' dl' s1 d1 rs1 where b: "gate_b_transport gate down t dl (s, d) = Some (t', dl', s1, d1)"
    and r: "serve gate down ts (s1, d1) = Some (rs1, s', d')" and rs: "rs = (t', dl') # rs1"
    using Cons.prems(1) by (auto simp: x split: bind_splits)
  have ok: "ok t" and nl: "\<not> lifts i a (cmd t, adr t)" using Cons.prems(3) x by auto
  have "table s1 a = Some i" using lock_kept[OF ok Cons.prems(2) nl b] .
  from Cons.IH[OF r this] Cons.prems(3)
  have rest: "table s' a = Some i"
    "\<forall>k < length ts. adr (fst (ts ! k)) = a \<longrightarrow> rs1 ! k = (bounce (fst (ts ! k)), snd (ts ! k))" by auto
  have "(t', dl') = (bounce t, dl)" if "adr t = a"
    using locked_out[OF ok, of s i down dl d] Cons.prems(2) nl b that by auto
  with rest show ?case by (auto simp: x rs nth_Cons split: nat.splits)
qed

end

locale link_gate =
  fixes gate :: "('t, 's) gate" and ok :: "'t \<Rightarrow> bool"
    and cmd :: "'t \<Rightarrow> link_command \<times> tlm_command \<times> u64" and bounce :: "'t \<Rightarrow> 't"
    and links :: "'s \<Rightarrow> u64 set"
  assumes gate_total: "ok t \<Longrightarrow> \<exists>p t' s'. gate t s = Some (p, t', s')"
    and gate_rule: "ok t \<Longrightarrow> gate t s = Some (p, t', s') \<Longrightarrow> cmd t = (l, k, a) \<Longrightarrow>
      (p, links s') = link_rule l k a (links s)"
    and gate_trans: "ok t \<Longrightarrow> gate t s = Some (p, t', s') \<Longrightarrow> t' = (if p then t else bounce t)"
begin

lemma links_after:
  assumes "serve gate down ts (s, d) = Some (rs, s', d')" and "\<And>t dl. (t, dl) \<in> set ts \<Longrightarrow> ok t"
    and "links s = {a. linked a cs}"
  shows "links s' = {a. linked a (cs @ map (cmd \<circ> fst) ts)}"
  using assms
proof (induction ts arbitrary: s d rs cs)
  case Nil
  then show ?case by simp
next
  case (Cons x ts)
  obtain t dl where x: "x = (t, dl)" by (cases x)
  obtain t' dl' s1 d1 rs1 where b: "gate_b_transport gate down t dl (s, d) = Some (t', dl', s1, d1)"
    and r: "serve gate down ts (s1, d1) = Some (rs1, s', d')"
    using Cons.prems(1) by (auto simp: x split: bind_splits)
  have ok: "ok t" using Cons.prems(2) x by auto
  obtain p t1 s2 where g: "gate t s = Some (p, t1, s2)" using gate_total[OF ok] by blast
  have "s1 = s2" using b g by (auto simp: gate_b_transport_def split: if_splits bind_splits)
  obtain l k a where c: "cmd t = (l, k, a)" by (cases "cmd t")
  have rule: "(p, links s1) = link_rule l k a (links s)" using gate_rule[OF ok g c] \<open>s1 = s2\<close> by simp
  have "b \<in> links s1 \<longleftrightarrow> linked b (cs @ [cmd t])" for b
    using link_rule_state[of b l k a "links s"] rule Cons.prems(3) c by (metis linked_snoc mem_Collect_eq snd_conv)
  then have "links s1 = {b. linked b (cs @ [cmd t])}" by blast
  moreover have "ok t'" if "(t', dl') \<in> set ts" for t' dl' using Cons.prems(2) that by auto
  ultimately show ?case using Cons.IH[OF r] by (simp add: x)
qed

text \<open>
  A store-conditional is executed exactly when its address is linked, and otherwise comes back as an error
  that the target never sees.
\<close>

lemma conditional:
  assumes "serve gate down ts (s0, d0) = Some (rs, s, d)" and "\<And>t dl. (t, dl) \<in> set ts \<Longrightarrow> ok t"
    and "links s0 = {}" and "ok t" and "cmd t = (Conditional, k, a)"
  shows "\<exists>s'. gate_b_transport gate down t dl (s, d) =
     (if linked a (map (cmd \<circ> fst) ts)
      then map_option (\<lambda>(t', dl', d'). (t', dl', s', d')) (down t dl d) else Some (bounce t, dl, s', d))"
proof -
  have "links s0 = {a. linked a []}" using assms(3) by (simp add: linked_def)
  from links_after[OF assms(1,2) this] have links: "links s = {a. linked a (map (cmd \<circ> fst) ts)}" by simp
  obtain p t' s' where g: "gate t s = Some (p, t', s')" using gate_total[OF assms(4)] by blast
  have "(p, links s') = (a \<in> links s, links s - {a})" using gate_rule[OF assms(4) g assms(5)] by simp
  then have p: "p \<longleftrightarrow> linked a (map (cmd \<circ> fst) ts)" using links by simp
  show ?thesis
    using g gate_trans[OF assms(4) g] p
    by (cases "down t dl d") (auto simp: gate_b_transport_def intro!: exI[of _ s'])
qed

end

end
