(* ===== verification/Gp_Mm.thy ===== *)
theory Gp_Mm
  imports Prelude
begin

text \<open>
  The transaction pool \<^verbatim>\<open>gp_mm\<close> (\<^verbatim>\<open>src/locknsnoop/common/gp_mm.h\<close>) on an explicit heap of
  its \<^verbatim>\<open>access\<close> nodes: pointers are optional numbers, \<^verbatim>\<open>new\<close> takes the next unused number,
  and a dereference of a null or unknown pointer is the result \<open>None\<close>. A transaction is its number; what
  \<^verbatim>\<open>trans->reset()\<close> does to it belongs to the theories of the extensions. The nodes form one doubly
  linked list with a cursor: left of it the empty nodes, right of it the free transactions.
\<close>

section \<open>The interface of a transaction pool\<close>

text \<open>
  What the users of the pool rely on. \<open>pooled\<close> lists the transactions ready for reuse, \<open>created\<close> are all
  that were ever made.
\<close>

locale transaction_pool =
  fixes alloc :: "'m \<Rightarrow> (nat \<times> 'm) option" and release :: "nat \<Rightarrow> 'm \<Rightarrow> 'm option"
    and inv :: "'m \<Rightarrow> bool" and pooled :: "'m \<Rightarrow> nat list" and created :: "'m \<Rightarrow> nat set"
  assumes alloc_total: "inv m \<Longrightarrow> \<exists>t m'. alloc m = Some (t, m')"
    and alloc_inv: "inv m \<Longrightarrow> alloc m = Some (t, m') \<Longrightarrow> inv m'"
    and alloc_reuse: "inv m \<Longrightarrow> alloc m = Some (t, m') \<Longrightarrow> pooled m = t0 # ts \<Longrightarrow>
      t = t0 \<and> pooled m' = ts \<and> created m' = created m"
    and alloc_fresh: "inv m \<Longrightarrow> alloc m = Some (t, m') \<Longrightarrow> pooled m = [] \<Longrightarrow>
      t \<notin> created m \<and> pooled m' = [] \<and> created m' = insert t (created m)"
    and release_total: "inv m \<Longrightarrow> t \<in> created m \<Longrightarrow> \<exists>m'. release t m = Some m'"
    and release_spec: "inv m \<Longrightarrow> t \<in> created m \<Longrightarrow> release t m = Some m' \<Longrightarrow>
      inv m' \<and> pooled m' = t # pooled m \<and> created m' = created m"

text \<open>A client that gives back only what it holds: it allocates, or returns its \<open>k\<close>-th transaction.\<close>

datatype pool_op = Alloc | Give_Back nat

fun pool_step :: "('m \<Rightarrow> (nat \<times> 'm) option) \<Rightarrow> (nat \<Rightarrow> 'm \<Rightarrow> 'm option) \<Rightarrow> pool_op \<Rightarrow>
    nat list \<times> 'm \<Rightarrow> (nat list \<times> 'm) option" where
  "pool_step alloc release Alloc (live, m) =
     (case alloc m of None \<Rightarrow> None | Some (t, m') \<Rightarrow> Some (t # live, m'))"
| "pool_step alloc release (Give_Back k) (live, m) =
     (if k < length live
      then (case release (live ! k) m of None \<Rightarrow> None | Some m' \<Rightarrow> Some (take k live @ drop (Suc k) live, m'))
      else Some (live, m))"

fun pool_run :: "('m \<Rightarrow> (nat \<times> 'm) option) \<Rightarrow> (nat \<Rightarrow> 'm \<Rightarrow> 'm option) \<Rightarrow> pool_op list \<Rightarrow>
    nat list \<times> 'm \<Rightarrow> (nat list \<times> 'm) option" where
  "pool_run alloc release [] s = Some s"
| "pool_run alloc release (c # cs) s =
     (case pool_step alloc release c s of None \<Rightarrow> None | Some s' \<Rightarrow> pool_run alloc release cs s')"

context transaction_pool begin

definition client_ok :: "nat list \<times> 'm \<Rightarrow> bool" where
  "client_ok s = (case s of (live, m) \<Rightarrow> inv m \<and> distinct (live @ pooled m) \<and> set (live @ pooled m) = created m)"

lemma client_step_ok:
  assumes "client_ok (live, m)"
  shows "\<exists>s'. pool_step alloc release c (live, m) = Some s' \<and> client_ok s'"
proof (cases c)
  case Alloc
  obtain t m' where a: "alloc m = Some (t, m')" using alloc_total[of m] assms by (auto simp: client_ok_def)
  have "client_ok (t # live, m')"
  proof (cases "pooled m")
    case Nil
    then show ?thesis using alloc_fresh[OF _ a] alloc_inv[OF _ a] assms by (auto simp: client_ok_def)
  next
    case (Cons t0 ts)
    then show ?thesis using alloc_reuse[OF _ a Cons] alloc_inv[OF _ a] assms by (auto simp: client_ok_def)
  qed
  with a Alloc show ?thesis by simp
next
  case (Give_Back k)
  show ?thesis
  proof (cases "k < length live")
    case True
    have split: "live = take k live @ live ! k # drop (Suc k) live" using True by (rule id_take_nth_drop)
    have t: "live ! k \<in> created m" using assms True by (auto simp: client_ok_def)
    then obtain m' where r: "release (live ! k) m = Some m'"
      using release_total[OF _ t] assms by (auto simp: client_ok_def)
    have p: "inv m'" "pooled m' = live ! k # pooled m" "created m' = created m"
      using release_spec[OF _ t r] assms by (auto simp: client_ok_def)
    have "distinct ((take k live @ live ! k # drop (Suc k) live) @ pooled m)"
      "set ((take k live @ live ! k # drop (Suc k) live) @ pooled m) = created m"
      using assms split by (simp_all add: client_ok_def)
    then have "client_ok (take k live @ drop (Suc k) live, m')"
      using p by (auto simp: client_ok_def)
    with r True Give_Back show ?thesis by simp
  next
    case False
    with assms Give_Back show ?thesis by simp
  qed
qed

lemma client_run_ok:
  "client_ok s \<Longrightarrow> \<exists>live m. pool_run alloc release cs s = Some (live, m) \<and> client_ok (live, m)"
proof (induction cs arbitrary: s)
  case Nil
  then show ?case by (cases s) simp
next
  case (Cons c cs)
  obtain live m where "s = (live, m)" by (cases s)
  with client_step_ok[of live m c] Cons show ?case by fastforce
qed

end

section \<open>The list of nodes\<close>

type_synonym ptr = "nat option"

record access =
  a_trans :: nat
  a_next :: ptr
  a_prev :: ptr

record gp_mm =
  free_list :: ptr
  empties :: ptr
  nodes :: "nat \<Rightarrow> access option"
  next_node :: nat
  next_trans :: nat

definition new_gp_mm :: gp_mm where
  "new_gp_mm = \<lparr>free_list = None, empties = None, nodes = (\<lambda>_. None), next_node = 0, next_trans = 0\<rparr>"

definition gp_allocate :: "gp_mm \<Rightarrow> (nat \<times> gp_mm) option" where
  "gp_allocate m =
     (case free_list m of
        Some f \<Rightarrow>
          (case nodes m f of
             None \<Rightarrow> None
           | Some a \<Rightarrow> Some (a_trans a, m\<lparr>empties := Some f, free_list := a_next a\<rparr>))
      | None \<Rightarrow> Some (next_trans m, m\<lparr>next_trans := next_trans m + 1\<rparr>))"

text \<open>The first part of \<^verbatim>\<open>free\<close>: there is an empty node, or a new one is put before the free list.\<close>

definition gp_empty_node :: "nat \<Rightarrow> gp_mm \<Rightarrow> gp_mm option" where
  "gp_empty_node t m =
     (case empties m of
        Some e \<Rightarrow> Some m
      | None \<Rightarrow>
          (let e = next_node m;
               h = (nodes m)(e \<mapsto> \<lparr>a_trans = t, a_next = free_list m, a_prev = None\<rparr>);
               m' = m\<lparr>empties := Some e, next_node := e + 1\<rparr>
           in case free_list m of
                None \<Rightarrow> Some (m'\<lparr>nodes := h\<rparr>)
              | Some f \<Rightarrow>
                  (case h f of
                     None \<Rightarrow> None
                   | Some a \<Rightarrow> Some (m'\<lparr>nodes := h(f \<mapsto> a\<lparr>a_prev := Some e\<rparr>)\<rparr>))))"

definition gp_free :: "nat \<Rightarrow> gp_mm \<Rightarrow> gp_mm option" where
  "gp_free t m =
     (case gp_empty_node t m of
        None \<Rightarrow> None
      | Some m1 \<Rightarrow>
          (case empties m1 of
             None \<Rightarrow> None
           | Some e \<Rightarrow>
               (case nodes m1 e of
                  None \<Rightarrow> None
                | Some a \<Rightarrow> Some (m1\<lparr>free_list := Some e, nodes := (nodes m1)(e \<mapsto> a\<lparr>a_trans := t\<rparr>),
                                     empties := a_prev a\<rparr>))))"

text \<open>
  The destructor: the transactions deleted by its first loop and the nodes deleted by its second. Both
  loops follow \<^verbatim>\<open>next\<close>; \<open>fuel\<close> bounds their length, and running out of it or meeting an unknown node
  is \<open>None\<close>.
\<close>

fun gp_walk :: "nat \<Rightarrow> (nat \<Rightarrow> access option) \<Rightarrow> ptr \<Rightarrow> nat list option" where
  "gp_walk fuel h None = Some []"
| "gp_walk 0 h (Some n) = None"
| "gp_walk (Suc fuel) h (Some n) =
     (case h n of
        None \<Rightarrow> None
      | Some a \<Rightarrow> (case gp_walk fuel h (a_next a) of None \<Rightarrow> None | Some ns \<Rightarrow> Some (n # ns)))"

definition gp_destroy :: "nat \<Rightarrow> gp_mm \<Rightarrow> (nat list \<times> nat list) option" where
  "gp_destroy fuel m =
     (case (gp_walk fuel (nodes m) (free_list m), gp_walk fuel (nodes m) (empties m)) of
        (Some fs, Some es) \<Rightarrow> Some (map (\<lambda>n. a_trans (the (nodes m n))) fs, es)
      | _ \<Rightarrow> None)"

section \<open>The invariant\<close>

definition first :: "nat list \<Rightarrow> ptr" where
  "first ns = (case ns of [] \<Rightarrow> None | n # _ \<Rightarrow> Some n)"

lemma first_simps [simp]: "first [] = None" "first (n # ns) = Some n"
  by (simp_all add: first_def)

fun dll :: "(nat \<Rightarrow> access option) \<Rightarrow> ptr \<Rightarrow> nat list \<Rightarrow> bool" where
  "dll h p [] = True"
| "dll h p (n # ns) \<longleftrightarrow> (\<exists>a. h n = Some a \<and> a_prev a = p \<and> a_next a = first ns) \<and> dll h (Some n) ns"

definition last_ptr :: "ptr \<Rightarrow> nat list \<Rightarrow> ptr" where
  "last_ptr p ns = (if ns = [] then p else Some (last ns))"

text \<open>\<open>es\<close> are the empty nodes, the one at the cursor first; \<open>fs\<close> the nodes of free transactions.\<close>

definition mm_list :: "nat list \<Rightarrow> nat list \<Rightarrow> gp_mm \<Rightarrow> bool" where
  "mm_list es fs m \<longleftrightarrow>
     dll (nodes m) None (rev es @ fs) \<and> distinct (rev es @ fs) \<and> dom (nodes m) = set (es @ fs) \<and>
     (\<forall>n \<in> dom (nodes m). n < next_node m) \<and> free_list m = first fs \<and> empties m = first es \<and>
     (\<forall>n \<in> set fs. a_trans (the (nodes m n)) < next_trans m)"

lemma dll_append: "dll h p (xs @ ys) \<Longrightarrow> dll h (last_ptr p xs) ys"
  by (induction xs arbitrary: p) (auto simp: last_ptr_def split: if_splits)

lemma dll_keep: "dll h p ns \<Longrightarrow> n \<notin> set ns \<Longrightarrow> dll (h(n := x)) p ns"
  by (induction ns arbitrary: p) auto

lemma dll_trans: "dll h p ns \<Longrightarrow> h n = Some a \<Longrightarrow> dll (h(n \<mapsto> a\<lparr>a_trans := t\<rparr>)) p ns"
  by (induction ns arbitrary: p) auto

lemma dll_nodes: "dll h p ns \<Longrightarrow> n \<in> set ns \<Longrightarrow> h n \<noteq> None"
  by (induction ns arbitrary: p) auto

lemma dll_head:
  "dll h p (n # ns) \<Longrightarrow> h n = Some a \<Longrightarrow> n \<notin> set ns \<Longrightarrow> dll (h(n \<mapsto> a\<lparr>a_prev := q\<rparr>)) q (n # ns)"
  by (auto intro: dll_keep)

definition gp_inv :: "gp_mm \<Rightarrow> bool" where
  "gp_inv m \<longleftrightarrow> (\<exists>es fs. mm_list es fs m)"

text \<open>The free transactions, the next one to be reused first.\<close>

fun chain :: "nat \<Rightarrow> (nat \<Rightarrow> access option) \<Rightarrow> ptr \<Rightarrow> nat list" where
  "chain fuel h None = []"
| "chain 0 h (Some n) = []"
| "chain (Suc fuel) h (Some n) = (case h n of None \<Rightarrow> [] | Some a \<Rightarrow> a_trans a # chain fuel h (a_next a))"

definition gp_pooled :: "gp_mm \<Rightarrow> nat list" where
  "gp_pooled m = chain (next_node m) (nodes m) (free_list m)"

definition gp_created :: "gp_mm \<Rightarrow> nat set" where
  "gp_created m = {t. t < next_trans m}"

lemma dll_chain:
  "dll h p ns \<Longrightarrow> length ns \<le> fuel \<Longrightarrow> chain fuel h (first ns) = map (\<lambda>n. a_trans (the (h n))) ns"
proof (induction ns arbitrary: p fuel)
  case (Cons n ns)
  then obtain f where "fuel = Suc f" by (cases fuel) auto
  with Cons show ?case by auto
qed simp

lemma dll_walk: "dll h p ns \<Longrightarrow> length ns \<le> fuel \<Longrightarrow> gp_walk fuel h (first ns) = Some ns"
proof (induction ns arbitrary: p fuel)
  case (Cons n ns)
  then obtain f where "fuel = Suc f" by (cases fuel) auto
  with Cons show ?case by auto
qed simp

lemma mm_list_length: "mm_list es fs m \<Longrightarrow> length (es @ fs) \<le> next_node m"
proof -
  assume l: "mm_list es fs m"
  then have "set (es @ fs) \<subseteq> {..<next_node m}" "distinct (es @ fs)" by (auto simp: mm_list_def)
  then show ?thesis using card_mono[of "{..<next_node m}" "set (es @ fs)"] distinct_card[of "es @ fs"] by simp
qed

lemma pooled_list: "mm_list es fs m \<Longrightarrow> gp_pooled m = map (\<lambda>n. a_trans (the (nodes m n))) fs"
  using mm_list_length[of es fs m] dll_append[of "nodes m" None "rev es" fs] dll_chain[of "nodes m" _ fs "next_node m"]
  by (simp add: gp_pooled_def mm_list_def)

lemma mm_list_new: "mm_list [] [] new_gp_mm"
  by (simp add: mm_list_def new_gp_mm_def)

lemma allocate_list:
  assumes "mm_list es fs m"
  shows "case fs of
      [] \<Rightarrow> gp_allocate m = Some (next_trans m, m\<lparr>next_trans := next_trans m + 1\<rparr>) \<and>
        mm_list es [] (m\<lparr>next_trans := next_trans m + 1\<rparr>)
    | f # fs' \<Rightarrow> \<exists>m'. gp_allocate m = Some (a_trans (the (nodes m f)), m') \<and> mm_list (f # es) fs' m' \<and>
        nodes m' = nodes m \<and> next_trans m' = next_trans m"
proof (cases fs)
  case Nil
  then show ?thesis using assms by (simp add: gp_allocate_def mm_list_def)
next
  case (Cons f fs')
  have "dll (nodes m) (last_ptr None (rev es)) (f # fs')"
    using assms Cons by (intro dll_append) (simp add: mm_list_def)
  then obtain a where "nodes m f = Some a" "a_next a = first fs'" by auto
  then show ?thesis using assms Cons by (auto simp: gp_allocate_def mm_list_def)
qed

lemma empty_node_list:
  assumes "mm_list es fs m"
  shows "\<exists>m1 e es'. gp_empty_node t m = Some m1 \<and> mm_list (e # es') fs m1 \<and> next_trans m1 = next_trans m \<and>
    (\<forall>n \<in> set fs. a_trans (the (nodes m1 n)) = a_trans (the (nodes m n)))"
proof (cases es)
  case (Cons e es')
  then show ?thesis using assms by (intro exI[of _ m] exI[of _ e] exI[of _ es']) (simp add: gp_empty_node_def mm_list_def)
next
  case Nil
  let ?e = "next_node m"
  have new: "?e \<notin> set fs" "nodes m ?e = None" and l: "dll (nodes m) None fs" "distinct fs" "dom (nodes m) = set fs"
    using assms Nil by (auto simp: mm_list_def)
  let ?h = "(nodes m)(?e \<mapsto> \<lparr>a_trans = t, a_next = free_list m, a_prev = None\<rparr>)"
  have fl: "free_list m = first fs" using assms by (simp add: mm_list_def)
  show ?thesis
  proof (cases fs)
    case Nil
    then show ?thesis
      using assms \<open>es = []\<close> new fl by (intro exI[of _ "m\<lparr>empties := Some ?e, next_node := ?e + 1, nodes := ?h\<rparr>"] exI[of _ ?e] exI[of _ "[]"])
        (auto simp: gp_empty_node_def mm_list_def Let_def)
  next
    case (Cons f fs')
    obtain a where a: "nodes m f = Some a" "a_next a = first fs'" using l(1) Cons by auto
    have "f \<noteq> ?e" using new(1) Cons by auto
    let ?h' = "?h(f \<mapsto> a\<lparr>a_prev := Some ?e\<rparr>)"
    let ?m = "m\<lparr>empties := Some ?e, next_node := ?e + 1, nodes := ?h'\<rparr>"
    have d1: "dll ?h None (f # fs')" using dll_keep[OF l(1) new(1)] Cons by simp
    have d2: "dll ?h' (Some ?e) (f # fs')"
      using dll_head[OF d1, of a "Some ?e"] a(1) \<open>f \<noteq> ?e\<close> l(2) Cons by simp
    have "dll ?h' None (?e # f # fs')"
      using d2 \<open>f \<noteq> ?e\<close> fl Cons by auto
    moreover have "gp_empty_node t m = Some ?m"
      using assms \<open>es = []\<close> Cons fl a \<open>f \<noteq> ?e\<close> by (simp add: gp_empty_node_def mm_list_def Let_def)
    moreover have "\<forall>n \<in> set fs. a_trans (the (?h' n)) = a_trans (the (nodes m n))"
      using new(1) a(1) by auto
    ultimately show ?thesis
      using assms \<open>es = []\<close> Cons l new a
      by (intro exI[of _ ?m] exI[of _ ?e] exI[of _ "[]"]) (auto simp: mm_list_def)
  qed
qed

lemma free_list_step:
  assumes "mm_list es fs m" and "t < next_trans m"
  shows "\<exists>m' es' e. gp_free t m = Some m' \<and> mm_list es' (e # fs) m' \<and> next_trans m' = next_trans m \<and>
    gp_pooled m' = t # gp_pooled m"
proof -
  obtain m1 e es' where m1: "gp_empty_node t m = Some m1" "mm_list (e # es') fs m1" "next_trans m1 = next_trans m"
    and tr: "\<forall>n \<in> set fs. a_trans (the (nodes m1 n)) = a_trans (the (nodes m n))"
    using empty_node_list[OF assms(1)] by blast
  have d: "dll (nodes m1) None (rev es' @ e # fs)" "distinct (rev es' @ e # fs)" and em: "empties m1 = Some e"
    using m1(2) by (simp_all add: mm_list_def)
  obtain a where a: "nodes m1 e = Some a" "a_prev a = last_ptr None (rev es')"
    using dll_append[OF d(1)] by auto
  have pe: "a_prev a = first es'" using a(2) by (cases es') (simp_all add: last_ptr_def)
  let ?m = "m1\<lparr>free_list := Some e, nodes := (nodes m1)(e \<mapsto> a\<lparr>a_trans := t\<rparr>), empties := first es'\<rparr>"
  have f: "gp_free t m = Some ?m" using m1(1) em a(1) pe by (simp add: gp_free_def)
  have l: "mm_list es' (e # fs) ?m"
    using m1(2,3) assms(2) dll_trans[OF d(1) a(1), of t] d(2) a(1) unfolding mm_list_def by auto
  have "gp_pooled ?m = t # gp_pooled m"
    using d(2) tr by (simp add: pooled_list[OF l] pooled_list[OF assms(1)])
  with f l m1(3) show ?thesis by (intro exI[of _ ?m] exI[of _ es'] exI[of _ e]) simp
qed

interpretation gp_pool: transaction_pool gp_allocate gp_free gp_inv gp_pooled gp_created
proof unfold_locales
  fix m t m'
  assume inv: "gp_inv m"
  then obtain es fs where l: "mm_list es fs m" by (auto simp: gp_inv_def)
  show "\<exists>t m'. gp_allocate m = Some (t, m')"
    using allocate_list[OF l] by (cases fs) auto
  assume a: "gp_allocate m = Some (t, m')"
  show "gp_inv m'" using allocate_list[OF l] a by (cases fs) (auto simp: gp_inv_def)
  show "t = t0 \<and> gp_pooled m' = ts \<and> gp_created m' = gp_created m" if p: "gp_pooled m = t0 # ts" for t0 ts
  proof -
    obtain f fs' where fs: "fs = f # fs'" using p pooled_list[OF l] by (cases fs) auto
    then have "mm_list (f # es) fs' m'" "nodes m' = nodes m" "next_trans m' = next_trans m" "t = a_trans (the (nodes m f))"
      using allocate_list[OF l] a by auto
    then show ?thesis using that pooled_list[OF l] fs pooled_list[of "f # es" fs' m'] by (simp add: gp_created_def)
  qed
  show "t \<notin> gp_created m \<and> gp_pooled m' = [] \<and> gp_created m' = insert t (gp_created m)" if "gp_pooled m = []"
  proof -
    have "fs = []" using that pooled_list[OF l] by simp
    then have "t = next_trans m" "m' = m\<lparr>next_trans := next_trans m + 1\<rparr>" "mm_list es [] m'"
      using allocate_list[OF l] a by auto
    then show ?thesis using pooled_list[of es "[]" m'] by (auto simp: gp_created_def)
  qed
next
  fix m t m'
  assume inv: "gp_inv m" and t: "t \<in> gp_created m"
  then obtain es fs where l: "mm_list es fs m" by (auto simp: gp_inv_def)
  have n: "t < next_trans m" using t by (simp add: gp_created_def)
  note step = free_list_step[OF l n]
  from step show "\<exists>m'. gp_free t m = Some m'" by blast
  assume "gp_free t m = Some m'"
  with step show "gp_inv m' \<and> gp_pooled m' = t # gp_pooled m \<and> gp_created m' = gp_created m"
    by (auto simp: gp_inv_def gp_created_def)
qed


section \<open>The pool is a stack\<close>

text \<open>The abstract pool: live transactions, a stack of free ones, and the number created.\<close>

fun stack_step :: "pool_op \<Rightarrow> nat list \<times> nat list \<times> nat \<Rightarrow> nat list \<times> nat list \<times> nat" where
  "stack_step Alloc (live, st, n) =
     (case st of [] \<Rightarrow> (n # live, [], n + 1) | t # ts \<Rightarrow> (t # live, ts, n))"
| "stack_step (Give_Back k) (live, st, n) =
     (if k < length live then (take k live @ drop (Suc k) live, live ! k # st, n) else (live, st, n))"

definition stack_abs :: "nat list \<times> gp_mm \<Rightarrow> nat list \<times> nat list \<times> nat" where
  "stack_abs s = (case s of (live, m) \<Rightarrow> (live, gp_pooled m, next_trans m))"

lemma pool_step_abs:
  assumes "gp_pool.client_ok (live, m)" and "pool_step gp_allocate gp_free c (live, m) = Some s'"
  shows "stack_abs s' = stack_step c (stack_abs (live, m))"
proof -
  obtain es fs where l: "mm_list es fs m" using assms(1) by (auto simp: gp_pool.client_ok_def gp_inv_def)
  show ?thesis
  proof (cases c)
    case Alloc
    show ?thesis
    proof (cases fs)
      case Nil
      then show ?thesis
        using allocate_list[OF l] assms(2) Alloc pooled_list[OF l]
          pooled_list[of es "[]" "m\<lparr>next_trans := next_trans m + 1\<rparr>"]
        by (auto simp: stack_abs_def)
    next
      case (Cons f fs')
      then obtain m' where "gp_allocate m = Some (a_trans (the (nodes m f)), m')" "mm_list (f # es) fs' m'"
        "nodes m' = nodes m" "next_trans m' = next_trans m"
        using allocate_list[OF l] by auto
      then show ?thesis
        using assms(2) Alloc pooled_list[OF l] Cons pooled_list[of "f # es" fs' m'] by (auto simp: stack_abs_def)
    qed
  next
    case (Give_Back k)
    show ?thesis
    proof (cases "k < length live")
      case True
      then have "live ! k \<in> gp_created m" using assms(1) by (auto simp: gp_pool.client_ok_def)
      then show ?thesis
        using free_list_step[OF l, of "live ! k"] assms(2) Give_Back True by (auto simp: stack_abs_def gp_created_def)
    next
      case False
      then show ?thesis using assms(2) Give_Back by (auto simp: stack_abs_def)
    qed
  qed
qed

lemma client_ok_new: "gp_pool.client_ok ([], new_gp_mm)"
  using mm_list_new pooled_list[OF mm_list_new]
  by (auto simp: gp_pool.client_ok_def gp_inv_def gp_created_def new_gp_mm_def)

lemma pool_run_abs:
  "gp_pool.client_ok s \<Longrightarrow>
   \<exists>s'. pool_run gp_allocate gp_free cs s = Some s' \<and> stack_abs s' = fold stack_step cs (stack_abs s)"
proof (induction cs arbitrary: s)
  case (Cons c cs)
  obtain live m where s: "s = (live, m)" by (cases s)
  with gp_pool.client_step_ok[of live m c] Cons.prems
  obtain s1 where s1: "pool_step gp_allocate gp_free c s = Some s1" "gp_pool.client_ok s1" by auto
  have "stack_abs s1 = stack_step c (stack_abs s)" using pool_step_abs s1(1) Cons.prems s by metis
  with Cons.IH[OF s1(2)] s1(1) show ?case by simp
qed simp

text \<open>C19: the pool of \<^verbatim>\<open>gp_mm\<close>, for all its pointers, is a stack: whatever sequence of allocations and
  returns its clients make, no null or dangling pointer is followed and every allocation hands out the
  transaction returned last, or a new one when none is free.\<close>
theorem gp_mm_refines_stack:
  "\<exists>live m. pool_run gp_allocate gp_free cs ([], new_gp_mm) = Some (live, m) \<and>
     fold stack_step cs ([], [], 0) = (live, gp_pooled m, next_trans m)"
proof -
  have "stack_abs ([], new_gp_mm) = ([], [], 0)"
    using pooled_list[OF mm_list_new] by (simp add: stack_abs_def) (simp add: new_gp_mm_def)
  with pool_run_abs[OF client_ok_new, of cs] show ?thesis by (fastforce simp: stack_abs_def)
qed

text \<open>the pool never hands the same transaction to two holders: after any run, the transactions held by
  clients and those in the pool are all different, and together they are exactly those ever created.\<close>
theorem gp_mm_no_double_allocation:
  "\<exists>live m. pool_run gp_allocate gp_free cs ([], new_gp_mm) = Some (live, m) \<and>
     distinct (live @ gp_pooled m) \<and> set (live @ gp_pooled m) = {t. t < next_trans m}"
  using gp_pool.client_run_ok[OF client_ok_new, of cs] by (auto simp: gp_pool.client_ok_def gp_created_def)

section \<open>The destructor\<close>

lemma destroy_list:
  assumes "mm_list es fs m" and "next_node m \<le> fuel"
  shows "gp_destroy fuel m = Some (gp_pooled m, case es of [] \<Rightarrow> [] | e # es' \<Rightarrow> e # fs)"
proof -
  have d: "dll (nodes m) None (rev es @ fs)" and f: "free_list m = first fs" "empties m = first es"
    using assms(1) by (simp_all add: mm_list_def)
  have len: "length (es @ fs) \<le> fuel" using mm_list_length[OF assms(1)] assms(2) by simp
  have wf: "gp_walk fuel (nodes m) (free_list m) = Some fs"
    using dll_walk[OF dll_append[OF d]] len f by simp
  have "gp_walk fuel (nodes m) (empties m) = Some (case es of [] \<Rightarrow> [] | e # es' \<Rightarrow> e # fs)"
  proof (cases es)
    case Nil
    then show ?thesis by (simp add: f)
  next
    case (Cons e es')
    then have "dll (nodes m) (last_ptr None (rev es')) (e # fs)" using d by (intro dll_append) simp
    from dll_walk[OF this, of fuel] show ?thesis using len Cons f by simp
  qed
  with wf show ?thesis by (simp add: gp_destroy_def pooled_list[OF assms(1)])
qed

text \<open>the destructor deletes exactly the free transactions, but not all the list nodes: of the empty
  nodes it deletes only the one at the cursor, and when there is no empty node (every transaction has
  been returned) it deletes no node at all.\<close>
theorem gp_mm_destructor_leaks_nodes:
  assumes "pool_run gp_allocate gp_free cs ([], new_gp_mm) = Some (live, m)" and "next_node m \<le> fuel"
  shows "\<exists>ns. gp_destroy fuel m = Some (gp_pooled m, ns) \<and> set ns \<subseteq> dom (nodes m) \<and>
    (if empties m = None then ns = [] else length ns = Suc (length (gp_pooled m)))"
proof -
  have "gp_inv m"
    using gp_pool.client_run_ok[OF client_ok_new, of cs] assms(1) by (auto simp: gp_pool.client_ok_def)
  then obtain es fs where l: "mm_list es fs m" by (auto simp: gp_inv_def)
  have "dom (nodes m) = set (es @ fs)" "empties m = first es" using l by (simp_all add: mm_list_def)
  then show ?thesis
    using destroy_list[OF l assms(2)] pooled_list[OF l] by (cases es) auto
qed

theorem gp_mm_destructor_leaks_nodes_witness:
  "\<exists>m. pool_run gp_allocate gp_free [Alloc, Alloc, Give_Back 0, Give_Back 0] ([], new_gp_mm) = Some ([], m) \<and>
     gp_destroy 2 m = Some ([0, 1], []) \<and> card (dom (nodes m)) = 2"
proof -
  let ?n0 = "\<lparr>a_trans = 1, a_next = None, a_prev = Some 1\<rparr>" and ?n1 = "\<lparr>a_trans = 0, a_next = Some 0, a_prev = None\<rparr>"
  obtain m where r: "pool_run gp_allocate gp_free [Alloc, Alloc, Give_Back 0, Give_Back 0] ([], new_gp_mm) = Some ([], m)"
    and m: "empties m = None" "next_node m = 2" "nodes m = [0 \<mapsto> ?n0, 1 \<mapsto> ?n1]" "gp_pooled m = [0, 1]"
    by (simp add: gp_allocate_def gp_free_def gp_empty_node_def new_gp_mm_def gp_pooled_def fun_eq_iff eval_nat_numeral)
  have "gp_destroy 2 m = Some ([0, 1], [])"
    using gp_mm_destructor_leaks_nodes[OF r, of 2] m by auto
  moreover have "card (dom (nodes m)) = 2" using m(3) by simp
  ultimately show ?thesis using r by blast
qed

end
