(* ===== verification/Transaction_Heap.thy ===== *)
theory Transaction_Heap
  imports Gp_Mm Tlm_Payload
begin

text \<open>
  Transactions in memory: the pool \<^verbatim>\<open>gp_mm\<close> together with the attributes and extensions of every
  transaction it made. What the SystemC library does to a transaction is an argument: \<open>fresh\<close> is what
  \<^verbatim>\<open>new gp_t(this)\<close> builds, \<open>reset\<close> is \<^verbatim>\<open>trans->reset()\<close>.
\<close>

record 't heap =
  pool :: gp_mm
  txs :: "nat \<Rightarrow> 't"

definition heap_allocate :: "'t \<Rightarrow> 't heap \<Rightarrow> (nat \<times> 't heap) option" where
  "heap_allocate fresh h =
     (case gp_allocate (pool h) of
        None \<Rightarrow> None
      | Some (t, p) \<Rightarrow>
          Some (t, \<lparr>pool = p, txs = (if free_list (pool h) = None then (txs h)(t := fresh) else txs h)\<rparr>))"

definition heap_free :: "('t \<Rightarrow> 't) \<Rightarrow> nat \<Rightarrow> 't heap \<Rightarrow> 't heap option" where
  "heap_free reset t h =
     (case gp_free t (pool h) of
        None \<Rightarrow> None
      | Some p \<Rightarrow> Some \<lparr>pool = p, txs = (txs h)(t := reset (txs h t))\<rparr>)"

definition put_tx :: "nat \<Rightarrow> 't \<Rightarrow> 't heap \<Rightarrow> 't heap" where
  "put_tx t x h = h\<lparr>txs := (txs h)(t := x)\<rparr>"

lemma put_tx_simps [simp]: "pool (put_tx t x h) = pool h" "txs (put_tx t x h) = (txs h)(t := x)"
  by (simp_all add: put_tx_def)

lemma put_tx_twice [simp]: "put_tx t x (put_tx t y h) = put_tx t x h"
  by (simp add: put_tx_def)

definition new_heap :: "'t \<Rightarrow> 't heap" where
  "new_heap fresh = \<lparr>pool = new_gp_mm, txs = (\<lambda>_. fresh)\<rparr>"

text \<open>
  The transactions held by clients (\<open>live\<close>) and those in the pool share nothing, and every pooled one
  satisfies \<open>P\<close>. Allocation hands out a transaction that is either fresh or satisfies \<open>P\<close>.
\<close>

definition heap_ok :: "('t \<Rightarrow> bool) \<Rightarrow> nat list \<Rightarrow> 't heap \<Rightarrow> bool" where
  "heap_ok P live h \<longleftrightarrow> gp_pool.client_ok (live, pool h) \<and> (\<forall>t \<in> set (gp_pooled (pool h)). P (txs h t))"

lemma heap_ok_new: "heap_ok P [] (new_heap fresh)"
proof -
  have "gp_pooled new_gp_mm = []" using pooled_list[OF mm_list_new] by simp
  then show ?thesis using client_ok_new by (simp add: heap_ok_def new_heap_def)
qed

lemma pooled_free_list:
  assumes "gp_inv m"
  shows "free_list m = None \<longleftrightarrow> gp_pooled m = []"
proof -
  obtain es fs where l: "mm_list es fs m" using assms by (auto simp: gp_inv_def)
  then have "free_list m = first fs" by (simp add: mm_list_def)
  then show ?thesis using pooled_list[OF l] by (cases fs) simp_all
qed

lemma heap_allocate_ok:
  assumes ok: "heap_ok P live h" and "P fresh"
  shows "\<exists>t h'. heap_allocate fresh h = Some (t, h') \<and> t \<notin> set live \<and> heap_ok P (t # live) h' \<and>
    P (txs h' t) \<and> (\<forall>u \<in> set live. txs h' u = txs h u)"
proof -
  have c: "gp_pool.client_ok (live, pool h)" and inv: "gp_inv (pool h)"
    using ok by (auto simp: heap_ok_def gp_pool.client_ok_def)
  obtain t p where a: "gp_allocate (pool h) = Some (t, p)" and c': "gp_pool.client_ok (t # live, p)"
    using gp_pool.client_step_ok[OF c, of Alloc] by (auto split: option.splits)
  have t: "t \<notin> set live" and d: "t \<notin> set (gp_pooled p)" using c' by (auto simp: gp_pool.client_ok_def)
  show ?thesis
  proof (cases "gp_pooled (pool h)")
    case Nil
    then have "free_list (pool h) = None" using pooled_free_list[OF inv] by simp
    moreover have "gp_pooled p = []" using gp_pool.alloc_fresh[OF inv a Nil] by simp
    ultimately show ?thesis using a c' t assms(2) by (auto simp: heap_allocate_def heap_ok_def)
  next
    case (Cons t0 ts)
    then have "free_list (pool h) \<noteq> None" using pooled_free_list[OF inv] by simp
    moreover have "t = t0" "gp_pooled p = ts" using gp_pool.alloc_reuse[OF inv a Cons] by simp_all
    ultimately show ?thesis using a c' t ok Cons by (auto simp: heap_allocate_def heap_ok_def)
  qed
qed

lemma heap_free_ok:
  assumes ok: "heap_ok P live h" and k: "k < length live" and "P (reset (txs h (live ! k)))"
  shows "\<exists>h'. heap_free reset (live ! k) h = Some h' \<and> heap_ok P (take k live @ drop (Suc k) live) h' \<and>
    (\<forall>u. u \<noteq> live ! k \<longrightarrow> txs h' u = txs h u)"
proof -
  have c: "gp_pool.client_ok (live, pool h)" and inv: "gp_inv (pool h)"
    using ok by (auto simp: heap_ok_def gp_pool.client_ok_def)
  obtain p where f: "gp_free (live ! k) (pool h) = Some p"
    and c': "gp_pool.client_ok (take k live @ drop (Suc k) live, p)"
    using gp_pool.client_step_ok[OF c, of "Give_Back k"] k by (auto split: option.splits)
  have "live ! k \<in> gp_created (pool h)" using c k by (auto simp: gp_pool.client_ok_def)
  from gp_pool.release_spec[OF inv this f] have "gp_pooled p = live ! k # gp_pooled (pool h)" by simp
  then show ?thesis using f c' ok assms(3) by (auto simp: heap_free_def heap_ok_def)
qed

lemma heap_ok_put:
  assumes "heap_ok P live h" and "t \<in> set live"
  shows "heap_ok P live (put_tx t x h)"
  using assms by (auto simp: heap_ok_def gp_pool.client_ok_def)

end
