(* ===== verification/Lock_Initiator.thy ===== *)
theory Lock_Initiator
  imports Lock_Protocol Transaction_Heap
begin

text \<open>
  The parts of the locking example that its three variants share: the target
  (\<^verbatim>\<open>src/locknsnoop/common/lock_lt_target.h\<close>) and the code of the two threads of
  \<^verbatim>\<open>Lock_LT_initiator\<close> that is the same text in \<^verbatim>\<open>locking_sticky\<close>, \<^verbatim>\<open>locking_auto\<close>
  and \<^verbatim>\<open>locking_two\<close>. An iteration of a thread is cut at \<^verbatim>\<open>socket->b_transport\<close>: what comes before it
  prepares the transaction, what follows looks at the response. The values returned by \<^verbatim>\<open>rand()\<close> are
  arguments. The last section says what an iteration amounts to, without transactions, pools and extensions.
\<close>

section \<open>The target\<close>

text \<open>
  The data pointer is read and written as an \<^verbatim>\<open>int\<close>: a buffer of fewer than four bytes is overrun.
\<close>

definition LATENCY :: sc_time where
  "LATENCY = ns 10"

definition lock_target_b_transport :: "('a payload_scheme, unit) b_transport" where
  "lock_target_b_transport tr delay u =
     (if byte_enable tr then Some (tr\<lparr>response := TLM_BYTE_ENABLE_ERROR_RESPONSE\<rparr>, delay, u)
      else if data_length tr > 4 \<or> streaming_width tr < data_length tr
      then Some (tr\<lparr>response := TLM_BURST_ERROR_RESPONSE\<rparr>, delay, u)
      else if command tr \<noteq> TLM_IGNORE_COMMAND \<and> length (data tr) < 4 then None
      else
        (let tr = (if command tr = TLM_READ_COMMAND
                   then tr\<lparr>data := int_bytes (- ucast (address tr)) @ drop 4 (data tr)\<rparr> else tr)
         in Some (tr\<lparr>response := TLM_OK_RESPONSE\<rparr>, delay + LATENCY, u)))"

section \<open>State of an interconnect\<close>

text \<open>Both maps return the default value for an address that was never entered.\<close>

record lock_maps =
  lock_map :: "u64 \<Rightarrow> bool"
  lock_id :: "u64 \<Rightarrow> i32"

definition no_locks :: lock_maps where
  "no_locks = \<lparr>lock_map = (\<lambda>_. False), lock_id = (\<lambda>_. 0)\<rparr>"

definition table_of :: "lock_maps \<Rightarrow> lock_table" where
  "table_of s a = (if lock_map s a then Some (lock_id s a) else None)"

section \<open>The read-modify-write thread\<close>

record rmw =
  rm_i :: nat
  next_read :: bool
  next_write :: bool
  rm_addr :: i32
  rm_store :: i32
  data1 :: "byte list"
  rm_delay :: sc_time

definition rmw_start :: "byte list \<Rightarrow> rmw" where
  "rmw_start d = \<lparr>rm_i = 0, next_read = True, next_write = False, rm_addr = 0, rm_store = 0, data1 = d, rm_delay = 0\<rparr>"

definition rmw_address :: "u32 \<Rightarrow> rmw \<Rightarrow> rmw" where
  "rmw_address r s =
     (if next_read s
      then s\<lparr>rm_addr := 0x400 OR ((r mod 256) AND 0xFC), next_read := False, next_write := True\<rparr> else s)"

definition rmw_data :: "u32 \<times> u32 \<Rightarrow> rmw \<Rightarrow> rmw" where
  "rmw_data r s =
     (if even (rm_i s) then s\<lparr>data1 := int_bytes 0\<rparr>
      else
        (let s = (if next_write s
                  then s\<lparr>rm_store := push_bit 16 (fst r) OR snd r, next_write := False\<rparr> else s)
         in s\<lparr>data1 := int_bytes (rm_store s)\<rparr>))"

definition rmw_fill :: "rmw \<Rightarrow> 'a payload_scheme \<Rightarrow> 'a payload_scheme" where
  "rmw_fill s tr = tr\<lparr>
     command := (if even (rm_i s) then TLM_READ_COMMAND else TLM_WRITE_COMMAND),
     address := scast (rm_addr s), data := data1 s, data_length := 4, streaming_width := 4,
     byte_enable := False, dmi_allowed := False, response := TLM_INCOMPLETE_RESPONSE\<rparr>"

definition rmw_after :: "bool \<Rightarrow> 'a payload_scheme \<Rightarrow> sc_time \<Rightarrow> rmw \<Rightarrow> rmw" where
  "rmw_after lk tr delay s = s\<lparr>
     next_read := (lk \<and> response tr \<noteq> TLM_COMMAND_ERROR_RESPONSE \<or> next_read s),
     data1 := data tr, rm_delay := delay, rm_i := rm_i s + 1\<rparr>"

text \<open>The error that is reported after a call; \<open>is_error\<close> is \<^verbatim>\<open>is_response_error()\<close>.\<close>

definition reported :: "(tlm_response \<Rightarrow> bool) \<Rightarrow> bool \<Rightarrow> 'a payload_scheme \<Rightarrow> bool" where
  "reported is_error may_retry tr \<longleftrightarrow>
     is_error (response tr) \<and> \<not> (may_retry \<and> response tr = TLM_COMMAND_ERROR_RESPONSE)"

section \<open>The load-link/store-conditional thread\<close>

record llsc =
  ls_i :: nat
  next_load :: bool
  next_store :: bool
  ls_addr :: i32
  ls_store :: i32
  data2 :: "byte list"
  ls_delay :: sc_time

definition llsc_start :: "byte list \<Rightarrow> llsc" where
  "llsc_start d = \<lparr>ls_i = 0, next_load = True, next_store = False, ls_addr = 0, ls_store = 0, data2 = d, ls_delay = 0\<rparr>"

definition llsc_address :: "u32 \<Rightarrow> llsc \<Rightarrow> llsc" where
  "llsc_address r s =
     (if next_load s
      then s\<lparr>ls_addr := 0x500 OR ((r mod 256) AND 0xFC), next_load := False, next_store := True\<rparr> else s)"

definition llsc_data :: "u32 \<times> u32 \<Rightarrow> llsc \<Rightarrow> llsc" where
  "llsc_data r s =
     (if even (ls_i s) then s\<lparr>data2 := int_bytes 0\<rparr>
      else
        (let s = (if next_store s
                  then s\<lparr>ls_store := push_bit 16 (fst r) OR snd r, next_store := False\<rparr> else s)
         in s\<lparr>data2 := int_bytes (ls_store s)\<rparr>))"

definition llsc_fill :: "llsc \<Rightarrow> 'a payload_scheme \<Rightarrow> 'a payload_scheme" where
  "llsc_fill s tr = tr\<lparr>
     command := (if even (ls_i s) then TLM_READ_COMMAND else TLM_WRITE_COMMAND),
     address := scast (ls_addr s), data := data2 s, data_length := 4, streaming_width := 4,
     byte_enable := False, dmi_allowed := False, response := TLM_INCOMPLETE_RESPONSE\<rparr>"

definition llsc_after :: "bool \<Rightarrow> 'a payload_scheme \<Rightarrow> sc_time \<Rightarrow> llsc \<Rightarrow> llsc" where
  "llsc_after cond tr delay s = s\<lparr>
     next_load := (cond \<and> response tr \<noteq> TLM_COMMAND_ERROR_RESPONSE \<or> next_load s),
     data2 := data tr, ls_delay := delay, ls_i := ls_i s + 1\<rparr>"

section \<open>What an iteration amounts to\<close>

text \<open>
  A request as the interconnect and the target see it, and one iteration of each thread when its requests go
  through the interconnect to the target.
\<close>

definition rmw_next :: "u32 \<times> u32 \<times> u32 \<Rightarrow> rmw \<Rightarrow> rmw" where
  "rmw_next r s = rmw_data (snd r) (rmw_address (fst r) s)"

definition rmw_command :: "rmw \<Rightarrow> lock_command" where
  "rmw_command s = (if even (rm_i s) then Lock 0 else Unlock 0)"

definition rmw_round :: "u32 \<times> u32 \<times> u32 \<Rightarrow> rmw \<times> lock_table \<Rightarrow> rmw \<times> lock_table" where
  "rmw_round r sT =
     (let s = rmw_next r (fst sT);
          a = scast (rm_addr s) :: u64;
          (pass, T) = lock_rule (rmw_command s) a (snd sT)
      in (s\<lparr>next_read := (even (rm_i s) \<and> pass \<or> next_read s),
            data1 := (if pass \<and> even (rm_i s) then int_bytes (- ucast a) else data1 s),
            rm_delay := (if pass then rm_delay s + LATENCY else rm_delay s), rm_i := rm_i s + 1\<rparr>, T))"

text \<open>The request of the thread is sent on to the target.\<close>

definition rmw_passes :: "u32 \<times> u32 \<times> u32 \<Rightarrow> rmw \<times> lock_table \<Rightarrow> bool" where
  "rmw_passes r sT =
     (let s = rmw_next r (fst sT) in fst (lock_rule (rmw_command s) (scast (rm_addr s)) (snd sT)))"

definition llsc_next :: "u32 \<times> u32 \<times> u32 \<Rightarrow> llsc \<Rightarrow> llsc" where
  "llsc_next r s = llsc_data (snd r) (llsc_address (fst r) s)"

definition llsc_command :: "llsc \<Rightarrow> link_command" where
  "llsc_command s = (if even (ls_i s) then Link else Conditional)"

definition llsc_round :: "u32 \<times> u32 \<times> u32 \<Rightarrow> llsc \<times> u64 set \<Rightarrow> llsc \<times> u64 set" where
  "llsc_round r sL =
     (let s = llsc_next r (fst sL);
          a = scast (ls_addr s) :: u64;
          (pass, L) = link_rule (llsc_command s) (if even (ls_i s) then TLM_READ_COMMAND else TLM_WRITE_COMMAND) a (snd sL)
      in (s\<lparr>next_load := (odd (ls_i s) \<and> pass \<or> next_load s),
            data2 := (if pass \<and> even (ls_i s) then int_bytes (- ucast a) else data2 s),
            ls_delay := (if pass then ls_delay s + LATENCY else ls_delay s), ls_i := ls_i s + 1\<rparr>, L))"

definition llsc_passes :: "u32 \<times> u32 \<times> u32 \<Rightarrow> llsc \<times> u64 set \<Rightarrow> bool" where
  "llsc_passes r sL =
     (let s = llsc_next r (fst sL) in even (ls_i s) \<or> scast (ls_addr s) \<in> snd sL)"

text \<open>
  What the initiators rely on of \<^verbatim>\<open>is_response_error()\<close>: an executed transaction is no error, a
  bounced one is.
\<close>

definition error_test :: "(tlm_response \<Rightarrow> bool) \<Rightarrow> bool" where
  "error_test is_error \<longleftrightarrow> \<not> is_error TLM_OK_RESPONSE \<and> is_error TLM_COMMAND_ERROR_RESPONSE"

text \<open>The target on a request of a thread, and the gate in front of it.\<close>

lemma rmw_next_simps [simp]:
  "rm_i (rmw_next r s) = rm_i s" "rm_delay (rmw_next r s) = rm_delay s" "length (data1 (rmw_next r s)) = 4"
  by (auto simp: rmw_next_def rmw_data_def rmw_address_def Let_def)

lemma llsc_next_simps [simp]:
  "ls_i (llsc_next r s) = ls_i s" "ls_delay (llsc_next r s) = ls_delay s" "length (data2 (llsc_next r s)) = 4"
  by (auto simp: llsc_next_def llsc_data_def llsc_address_def Let_def)

lemma next_address [simp]: "rm_i (rmw_address q s) = rm_i s" "ls_i (llsc_address q z) = ls_i z"
  by (simp_all add: rmw_address_def llsc_address_def)

lemma target_rmw:
  "length (data1 s) = 4 \<Longrightarrow> lock_target_b_transport (rmw_fill s tr) dl () =
     Some ((rmw_fill s tr)\<lparr>response := TLM_OK_RESPONSE,
       data := (if even (rm_i s) then int_bytes (- ucast (scast (rm_addr s) :: u64)) else data1 s)\<rparr>, dl + LATENCY, ())"
  by (simp add: lock_target_b_transport_def rmw_fill_def Let_def)

lemma target_llsc:
  "length (data2 s) = 4 \<Longrightarrow> lock_target_b_transport (llsc_fill s tr) dl () =
     Some ((llsc_fill s tr)\<lparr>response := TLM_OK_RESPONSE,
       data := (if even (ls_i s) then int_bytes (- ucast (scast (ls_addr s) :: u64)) else data2 s)\<rparr>, dl + LATENCY, ())"
  by (simp add: lock_target_b_transport_def llsc_fill_def Let_def)

lemma rmw_after_round:
  assumes "lock_rule (rmw_command s') (scast (rm_addr s')) T = (pass, T')" and "s' = rmw_next r s"
    and "response tr = (if pass then TLM_OK_RESPONSE else TLM_COMMAND_ERROR_RESPONSE)"
    and "data tr = (if pass \<and> even (rm_i s') then int_bytes (- ucast (scast (rm_addr s') :: u64)) else data1 s')"
    and "dl = (if pass then rm_delay s + LATENCY else rm_delay s)"
  shows "(rmw_after (even (rm_i s)) tr dl s', T') = rmw_round r (s, T)"
  using assms by (simp add: rmw_round_def rmw_after_def Let_def)

lemma llsc_after_round:
  assumes "link_rule (llsc_command s') (if even (ls_i s) then TLM_READ_COMMAND else TLM_WRITE_COMMAND)
      (scast (ls_addr s')) L = (pass, L')" and "s' = llsc_next r s"
    and "response tr = (if pass then TLM_OK_RESPONSE else TLM_COMMAND_ERROR_RESPONSE)"
    and "data tr = (if pass \<and> even (ls_i s') then int_bytes (- ucast (scast (ls_addr s') :: u64)) else data2 s')"
    and "dl = (if pass then ls_delay s + LATENCY else ls_delay s)"
  shows "(llsc_after (odd (ls_i s)) tr dl s', L') = llsc_round r (s, L)"
  using assms by (simp add: llsc_round_def llsc_after_def Let_def)

text \<open>A request at a gate with the target behind it; \<open>pass\<close> is the decision of the gate.\<close>

definition rmw_served :: "bool \<Rightarrow> rmw \<Rightarrow> 'a payload_scheme \<Rightarrow> 'a payload_scheme" where
  "rmw_served pass s tr =
     (if pass
      then (rmw_fill s tr)\<lparr>response := TLM_OK_RESPONSE,
        data := (if even (rm_i s) then int_bytes (- ucast (scast (rm_addr s) :: u64)) else data1 s)\<rparr>
      else (rmw_fill s tr)\<lparr>response := TLM_COMMAND_ERROR_RESPONSE\<rparr>)"

definition llsc_served :: "bool \<Rightarrow> llsc \<Rightarrow> 'a payload_scheme \<Rightarrow> 'a payload_scheme" where
  "llsc_served pass s tr =
     (if pass
      then (llsc_fill s tr)\<lparr>response := TLM_OK_RESPONSE,
        data := (if even (ls_i s) then int_bytes (- ucast (scast (ls_addr s) :: u64)) else data2 s)\<rparr>
      else (llsc_fill s tr)\<lparr>response := TLM_COMMAND_ERROR_RESPONSE\<rparr>)"

lemma rmw_served_simps [simp]:
  "response (rmw_served pass s tr) = (if pass then TLM_OK_RESPONSE else TLM_COMMAND_ERROR_RESPONSE)"
  "data (rmw_served pass s tr) =
     (if pass \<and> even (rm_i s) then int_bytes (- ucast (scast (rm_addr s) :: u64)) else data1 s)"
  by (simp_all add: rmw_served_def) (simp add: rmw_fill_def)

lemma llsc_served_simps [simp]:
  "response (llsc_served pass s tr) = (if pass then TLM_OK_RESPONSE else TLM_COMMAND_ERROR_RESPONSE)"
  "data (llsc_served pass s tr) =
     (if pass \<and> even (ls_i s) then int_bytes (- ucast (scast (ls_addr s) :: u64)) else data2 s)"
  by (simp_all add: llsc_served_def) (simp add: llsc_fill_def)

lemma gated_rmw:
  assumes "gate (rmw_fill s tr) m =
      Some (pass, if pass then rmw_fill s tr else (rmw_fill s tr)\<lparr>response := TLM_COMMAND_ERROR_RESPONSE\<rparr>, m')"
    and "length (data1 s) = 4"
  shows "gate_b_transport gate lock_target_b_transport (rmw_fill s tr) dl (m, ()) =
    Some (rmw_served pass s tr, if pass then dl + LATENCY else dl, m', ())"
  using assms(1) target_rmw[OF assms(2), of tr dl] by (cases pass) (auto simp: gate_b_transport_def rmw_served_def)

lemma gated_llsc:
  assumes "gate (llsc_fill s tr) m =
      Some (pass, if pass then llsc_fill s tr else (llsc_fill s tr)\<lparr>response := TLM_COMMAND_ERROR_RESPONSE\<rparr>, m')"
    and "length (data2 s) = 4"
  shows "gate_b_transport gate lock_target_b_transport (llsc_fill s tr) dl (m, ()) =
    Some (llsc_served pass s tr, if pass then dl + LATENCY else dl, m', ())"
  using assms(1) target_llsc[OF assms(2), of tr dl] by (cases pass) (auto simp: gate_b_transport_def llsc_served_def)

end
