(* ===== verification/Lock_Sticky.thy ===== *)
theory Lock_Sticky
  imports Lock_Initiator
begin

text \<open>
  The variant \<^verbatim>\<open>src/locknsnoop/locking_sticky\<close>: one extension of each kind stays attached to a
  transaction for ever, its field \<^verbatim>\<open>valid\<close> says whether it means anything, and the memory managers
  \<^verbatim>\<open>lock_mm\<close> and \<^verbatim>\<open>load_link_mm\<close> clear that field when a transaction goes back to the pool.
\<close>

section \<open>Extensions\<close>

record lock_extension =
  lx_lock :: bool
  lx_id :: i32
  lx_valid :: bool

definition new_lock_extension :: lock_extension where
  "new_lock_extension = \<lparr>lx_lock = False, lx_id = 0, lx_valid = False\<rparr>"

definition lock_extension_clone :: "lock_extension \<Rightarrow> lock_extension" where
  "lock_extension_clone this = new_lock_extension\<lparr>lx_lock := lx_lock this, lx_id := lx_id this\<rparr>"

definition lock_extension_copy_from :: "lock_extension \<Rightarrow> lock_extension \<Rightarrow> lock_extension" where
  "lock_extension_copy_from ext this = this\<lparr>lx_lock := lx_lock ext, lx_id := lx_id ext\<rparr>"

definition lock_extension_free :: "lock_extension \<Rightarrow> lock_extension" where
  "lock_extension_free this = this\<lparr>lx_valid := False\<rparr>"

datatype link_cmd = LOAD_LINK | STORE_CONDITIONAL

record load_link_extension =
  llx_cmd :: link_cmd
  llx_valid :: bool

definition new_load_link_extension :: load_link_extension where
  "new_load_link_extension = \<lparr>llx_cmd = LOAD_LINK, llx_valid = False\<rparr>"

definition load_link_extension_clone :: "load_link_extension \<Rightarrow> load_link_extension" where
  "load_link_extension_clone this = new_load_link_extension\<lparr>llx_cmd := llx_cmd this\<rparr>"

definition load_link_extension_copy_from :: "load_link_extension \<Rightarrow> load_link_extension \<Rightarrow> load_link_extension" where
  "load_link_extension_copy_from ext this = this\<lparr>llx_cmd := llx_cmd ext\<rparr>"

definition load_link_extension_free :: "load_link_extension \<Rightarrow> load_link_extension" where
  "load_link_extension_free this = this\<lparr>llx_valid := False\<rparr>"

record sticky_tx = payload +
  lock_ext :: "lock_extension option"
  link_ext :: "load_link_extension option"

section \<open>Memory managers\<close>

definition lock_mm_allocate :: "sticky_tx \<Rightarrow> sticky_tx heap \<Rightarrow> (nat \<times> sticky_tx heap) option" where
  "lock_mm_allocate fresh h = do {
     (t, h) \<leftarrow> heap_allocate fresh h;
     let tr = (txs h t)\<lparr>manager := Lock_Manager\<rparr>;
     let tr = (case lock_ext tr of None \<Rightarrow> tr\<lparr>lock_ext := Some new_lock_extension\<rparr> | Some ext \<Rightarrow> tr);
     Some (t, put_tx t tr h)
   }"

definition lock_mm_free :: "(sticky_tx \<Rightarrow> sticky_tx) \<Rightarrow> nat \<Rightarrow> sticky_tx heap \<Rightarrow> sticky_tx heap option" where
  "lock_mm_free reset t h = do {
     ext \<leftarrow> lock_ext (txs h t);
     let tr = (txs h t)\<lparr>lock_ext := Some (ext\<lparr>lx_valid := False\<rparr>), manager := Pool_Manager\<rparr>;
     heap_free reset t (put_tx t tr h)
   }"

definition load_link_mm_allocate :: "sticky_tx \<Rightarrow> sticky_tx heap \<Rightarrow> (nat \<times> sticky_tx heap) option" where
  "load_link_mm_allocate fresh h = do {
     (t, h) \<leftarrow> heap_allocate fresh h;
     let tr = (txs h t)\<lparr>manager := Load_Link_Manager\<rparr>;
     let tr = (case link_ext tr of None \<Rightarrow> tr\<lparr>link_ext := Some new_load_link_extension\<rparr> | Some ext \<Rightarrow> tr);
     Some (t, put_tx t tr h)
   }"

definition load_link_mm_free :: "(sticky_tx \<Rightarrow> sticky_tx) \<Rightarrow> nat \<Rightarrow> sticky_tx heap \<Rightarrow> sticky_tx heap option" where
  "load_link_mm_free reset t h = do {
     ext \<leftarrow> link_ext (txs h t);
     let tr = (txs h t)\<lparr>link_ext := Some (ext\<lparr>llx_valid := False\<rparr>), manager := Pool_Manager\<rparr>;
     heap_free reset t (put_tx t tr h)
   }"

text \<open>\<^verbatim>\<open>trans->release()\<close> by the only holder: the manager of the transaction frees it.\<close>

definition sticky_release :: "(sticky_tx \<Rightarrow> sticky_tx) \<Rightarrow> nat \<Rightarrow> sticky_tx heap \<Rightarrow> sticky_tx heap option" where
  "sticky_release reset t h =
     (case manager (txs h t) of
        Pool_Manager \<Rightarrow> heap_free reset t h
      | Lock_Manager \<Rightarrow> lock_mm_free reset t h
      | Load_Link_Manager \<Rightarrow> load_link_mm_free reset t h)"

section \<open>Interconnects\<close>

definition sticky_bounce :: "sticky_tx \<Rightarrow> sticky_tx" where
  "sticky_bounce tr = tr\<lparr>response := TLM_COMMAND_ERROR_RESPONSE\<rparr>"

definition sticky_locked :: "sticky_tx \<Rightarrow> lock_maps \<Rightarrow> bool \<times> sticky_tx \<times> lock_maps" where
  "sticky_locked tr s =
     (let adr = address tr in
      case lock_ext tr of
        Some ext \<Rightarrow>
          if lx_valid ext then
            if lx_lock ext then
              if lock_map s adr then (True, sticky_bounce tr, s)
              else (False, tr, s\<lparr>lock_map := (lock_map s)(adr := True), lock_id := (lock_id s)(adr := lx_id ext)\<rparr>)
            else if lock_map s adr then
              if lock_id s adr = 0 \<or> lock_id s adr = lx_id ext
              then (False, tr, s\<lparr>lock_map := (lock_map s)(adr := False)\<rparr>)
              else (True, sticky_bounce tr, s)
            else (False, tr, s)
          else if lock_map s adr then (True, sticky_bounce tr, s) else (False, tr, s)
      | None \<Rightarrow> if lock_map s adr then (True, sticky_bounce tr, s) else (False, tr, s))"

definition sticky_lock_gate :: "(sticky_tx, lock_maps) gate" where
  "sticky_lock_gate tr s = (case sticky_locked tr s of (lk, tr, s) \<Rightarrow> Some (\<not> lk, tr, s))"

definition sticky_lock_b_transport :: "(sticky_tx, 'd) b_transport \<Rightarrow> (sticky_tx, lock_maps \<times> 'd) b_transport" where
  "sticky_lock_b_transport = gate_b_transport sticky_lock_gate"

definition sticky_lock_nb_transport_fw ::
    "(sticky_tx, 'd) nb_transport \<Rightarrow> (sticky_tx, lock_maps \<times> 'd) nb_transport" where
  "sticky_lock_nb_transport_fw = gate_nb_transport_fw sticky_lock_gate"

definition sticky_linked :: "sticky_tx \<Rightarrow> (u64 \<Rightarrow> bool) \<Rightarrow> bool \<times> sticky_tx \<times> (u64 \<Rightarrow> bool)" where
  "sticky_linked tr links =
     (let cmd = command tr; adr = address tr;
          plain = (True, tr, if cmd = TLM_WRITE_COMMAND \<and> links adr then links(adr := False) else links)
      in case link_ext tr of
        Some ext \<Rightarrow>
          if llx_valid ext then
            (case llx_cmd ext of
               LOAD_LINK \<Rightarrow> (True, tr, links(adr := True))
             | STORE_CONDITIONAL \<Rightarrow>
                 if \<not> links adr then (False, sticky_bounce tr, links)
                 else (True, tr, links(adr := False)))
          else plain
      | None \<Rightarrow> plain)"

definition sticky_link_gate :: "(sticky_tx, u64 \<Rightarrow> bool) gate" where
  "sticky_link_gate tr s = Some (sticky_linked tr s)"

definition sticky_link_b_transport ::
    "(sticky_tx, 'd) b_transport \<Rightarrow> (sticky_tx, (u64 \<Rightarrow> bool) \<times> 'd) b_transport" where
  "sticky_link_b_transport = gate_b_transport sticky_link_gate"

definition sticky_link_nb_transport_fw ::
    "(sticky_tx, 'd) nb_transport \<Rightarrow> (sticky_tx, (u64 \<Rightarrow> bool) \<times> 'd) nb_transport" where
  "sticky_link_nb_transport_fw = gate_nb_transport_fw sticky_link_gate"

text \<open>The interconnects implement the rules.\<close>

definition sticky_lock_command :: "sticky_tx \<Rightarrow> lock_command" where
  "sticky_lock_command tr =
     (case lock_ext tr of
        Some ext \<Rightarrow> if lx_valid ext then if lx_lock ext then Lock (lx_id ext) else Unlock (lx_id ext) else Plain
      | None \<Rightarrow> Plain)"

definition sticky_link_command :: "sticky_tx \<Rightarrow> link_command" where
  "sticky_link_command tr =
     (case link_ext tr of
        Some ext \<Rightarrow>
          if llx_valid ext then (case llx_cmd ext of LOAD_LINK \<Rightarrow> Link | STORE_CONDITIONAL \<Rightarrow> Conditional) else Ordinary
      | None \<Rightarrow> Ordinary)"

interpretation sticky_lock: lock_gate sticky_lock_gate "\<lambda>_. True" sticky_lock_command address sticky_bounce table_of
proof unfold_locales
  fix tr s p tr' s'
  show "\<exists>p t' s'. sticky_lock_gate tr s = Some (p, t', s')"
    by (auto simp: sticky_lock_gate_def split: prod.split)
  assume "sticky_lock_gate tr s = Some (p, tr', s')"
  then show "(p, table_of s') = lock_rule (sticky_lock_command tr) (address tr) (table_of s)"
    and "tr' = (if p then tr else sticky_bounce tr)"
    by (auto simp: sticky_lock_gate_def sticky_locked_def sticky_lock_command_def table_of_def Let_def
        split: option.splits if_splits)
qed

interpretation sticky_link: link_gate sticky_link_gate "\<lambda>_. True"
  "\<lambda>tr. (sticky_link_command tr, command tr, address tr)" sticky_bounce Collect
proof unfold_locales
  fix tr s p tr' s' l k a
  show "\<exists>p t' s'. sticky_link_gate tr s = Some (p, t', s')"
    by (cases "sticky_linked tr s") (auto simp: sticky_link_gate_def)
  assume "sticky_link_gate tr s = Some (p, tr', s')"
  then show "tr' = (if p then tr else sticky_bounce tr)"
    and "(sticky_link_command tr, command tr, address tr) = (l, k, a) \<Longrightarrow> (p, Collect s') = link_rule l k a (Collect s)"
    by (auto simp: sticky_link_gate_def sticky_linked_def sticky_link_command_def Let_def
        split: option.splits if_splits link_cmd.splits)
qed

definition sticky_lock_forward :: "('x \<Rightarrow> 'd \<Rightarrow> 'y \<times> 'd) \<Rightarrow> 'x \<Rightarrow> lock_maps \<times> 'd \<Rightarrow> 'y \<times> lock_maps \<times> 'd" where
  "sticky_lock_forward = gate_forward"

definition sticky_link_forward ::
    "('x \<Rightarrow> 'd \<Rightarrow> 'y \<times> 'd) \<Rightarrow> 'x \<Rightarrow> (u64 \<Rightarrow> bool) \<times> 'd \<Rightarrow> 'y \<times> (u64 \<Rightarrow> bool) \<times> 'd" where
  "sticky_link_forward = gate_forward"

section \<open>The initiator\<close>

definition sticky_rmw_send :: "sticky_tx \<Rightarrow> u32 \<times> u32 \<times> u32 \<Rightarrow> rmw \<Rightarrow> sticky_tx heap \<Rightarrow>
    (nat \<times> rmw \<times> sticky_tx heap) option" where
  "sticky_rmw_send fresh r s h = do {
     (t, h) \<leftarrow> lock_mm_allocate fresh h;
     ext \<leftarrow> lock_ext (txs h t);
     let ext = ext\<lparr>lx_valid := True\<rparr>;
     let s = rmw_address (fst r) s;
     let ext = ext\<lparr>lx_lock := even (rm_i s)\<rparr>;
     let s = rmw_data (snd r) s;
     Some (t, s, put_tx t (rmw_fill s ((txs h t)\<lparr>lock_ext := Some ext\<rparr>)) h)
   }"

definition sticky_rmw_finish :: "(sticky_tx \<Rightarrow> sticky_tx) \<Rightarrow> (tlm_response \<Rightarrow> bool) \<Rightarrow> nat \<Rightarrow> sc_time \<Rightarrow>
    rmw \<Rightarrow> sticky_tx heap \<Rightarrow> (bool \<times> rmw \<times> sticky_tx heap) option" where
  "sticky_rmw_finish reset is_error t delay s h = do {
     let tr = txs h t;
     ext \<leftarrow> lock_ext tr;
     let s = rmw_after (lx_lock ext) tr delay s;
     h \<leftarrow> sticky_release reset t h;
     Some (reported is_error (lx_lock ext) tr, s, h)
   }"

definition sticky_rmw_iter :: "sticky_tx \<Rightarrow> (sticky_tx \<Rightarrow> sticky_tx) \<Rightarrow> (tlm_response \<Rightarrow> bool) \<Rightarrow>
    (sticky_tx, 'd) b_transport \<Rightarrow> u32 \<times> u32 \<times> u32 \<Rightarrow> rmw \<times> sticky_tx heap \<times> 'd \<Rightarrow>
    (bool \<times> rmw \<times> sticky_tx heap \<times> 'd) option" where
  "sticky_rmw_iter fresh reset is_error socket r x = do {
     (t, s, h) \<leftarrow> sticky_rmw_send fresh r (fst x) (fst (snd x));
     (tr, delay, d) \<leftarrow> socket (txs h t) (rm_delay s) (snd (snd x));
     (rep, s, h) \<leftarrow> sticky_rmw_finish reset is_error t delay s (put_tx t tr h);
     Some (rep, s, h, d)
   }"

definition sticky_llsc_send :: "sticky_tx \<Rightarrow> u32 \<times> u32 \<times> u32 \<Rightarrow> llsc \<Rightarrow> sticky_tx heap \<Rightarrow>
    (nat \<times> llsc \<times> sticky_tx heap) option" where
  "sticky_llsc_send fresh r s h = do {
     (t, h) \<leftarrow> load_link_mm_allocate fresh h;
     ext \<leftarrow> link_ext (txs h t);
     let ext = ext\<lparr>llx_valid := True\<rparr>;
     let s = llsc_address (fst r) s;
     let ext = ext\<lparr>llx_cmd := (if even (ls_i s) then LOAD_LINK else STORE_CONDITIONAL)\<rparr>;
     let s = llsc_data (snd r) s;
     Some (t, s, put_tx t (llsc_fill s ((txs h t)\<lparr>link_ext := Some ext\<rparr>)) h)
   }"

definition sticky_llsc_finish :: "(sticky_tx \<Rightarrow> sticky_tx) \<Rightarrow> (tlm_response \<Rightarrow> bool) \<Rightarrow> nat \<Rightarrow> sc_time \<Rightarrow>
    llsc \<Rightarrow> sticky_tx heap \<Rightarrow> (bool \<times> llsc \<times> sticky_tx heap) option" where
  "sticky_llsc_finish reset is_error t delay s h = do {
     let tr = txs h t;
     ext \<leftarrow> link_ext tr;
     let cond = (llx_cmd ext = STORE_CONDITIONAL);
     let s = llsc_after cond tr delay s;
     h \<leftarrow> sticky_release reset t h;
     Some (reported is_error cond tr, s, h)
   }"

definition sticky_llsc_iter :: "sticky_tx \<Rightarrow> (sticky_tx \<Rightarrow> sticky_tx) \<Rightarrow> (tlm_response \<Rightarrow> bool) \<Rightarrow>
    (sticky_tx, 'd) b_transport \<Rightarrow> u32 \<times> u32 \<times> u32 \<Rightarrow> llsc \<times> sticky_tx heap \<times> 'd \<Rightarrow>
    (bool \<times> llsc \<times> sticky_tx heap \<times> 'd) option" where
  "sticky_llsc_iter fresh reset is_error socket r x = do {
     (t, s, h) \<leftarrow> sticky_llsc_send fresh r (fst x) (fst (snd x));
     (tr, delay, d) \<leftarrow> socket (txs h t) (ls_delay s) (snd (snd x));
     (rep, s, h) \<leftarrow> sticky_llsc_finish reset is_error t delay s (put_tx t tr h);
     Some (rep, s, h, d)
   }"

section \<open>An iteration of a thread\<close>

text \<open>
  What the library does to a transaction: a new one belongs to the pool and has no extension, and
  \<^verbatim>\<open>reset()\<close> keeps the sticky extensions. A pooled transaction must not be taken for a lock command.
\<close>

definition sticky_library :: "sticky_tx \<Rightarrow> (sticky_tx \<Rightarrow> sticky_tx) \<Rightarrow> bool" where
  "sticky_library fresh reset \<longleftrightarrow>
     manager fresh = Pool_Manager \<and> lock_ext fresh = None \<and> link_ext fresh = None \<and>
     (\<forall>tr. manager (reset tr) = manager tr \<and> lock_ext (reset tr) = lock_ext tr \<and> link_ext (reset tr) = link_ext tr)"

definition sticky_idle :: "sticky_tx \<Rightarrow> bool" where
  "sticky_idle tr \<longleftrightarrow> manager tr = Pool_Manager \<and>
     (\<forall>e. lock_ext tr = Some e \<longrightarrow> \<not> lx_valid e \<and> lx_id e = 0) \<and> (\<forall>e. link_ext tr = Some e \<longrightarrow> \<not> llx_valid e)"

lemma fresh_idle: "sticky_library fresh reset \<Longrightarrow> sticky_idle fresh"
  by (simp add: sticky_library_def sticky_idle_def)

lemma idle_plain:
  "sticky_idle tr \<Longrightarrow> sticky_lock_command tr = Plain \<and> sticky_link_command tr = Ordinary"
  by (auto simp: sticky_idle_def sticky_lock_command_def sticky_link_command_def split: option.splits)

text \<open>Both kinds of command are given up by a release.\<close>

lemma release_first:
  assumes "sticky_library fresh reset" and "heap_ok sticky_idle (t # live) h"
    and "manager (txs h t) = Lock_Manager \<and> (\<exists>e. lock_ext (txs h t) = Some e \<and> lx_id e = 0) \<and>
        (\<forall>e. link_ext (txs h t) = Some e \<longrightarrow> \<not> llx_valid e) \<or>
      manager (txs h t) = Load_Link_Manager \<and> (\<exists>e. link_ext (txs h t) = Some e) \<and>
        (\<forall>e. lock_ext (txs h t) = Some e \<longrightarrow> \<not> lx_valid e \<and> lx_id e = 0)"
  shows "\<exists>h'. sticky_release reset t h = Some h' \<and> heap_ok sticky_idle live h'"
proof -
  have free: "\<exists>h'. heap_free reset t (put_tx t tr h) = Some h' \<and> heap_ok sticky_idle live h'"
    if "sticky_idle tr" for tr
  proof -
    have "sticky_idle (reset tr)" using that assms(1) by (simp add: sticky_library_def sticky_idle_def)
    then show ?thesis
      using heap_free_ok[OF heap_ok_put[OF assms(2), of t tr], of 0 reset] by auto
  qed
  show ?thesis
    using assms(3)
  proof
    assume l: "manager (txs h t) = Lock_Manager \<and> (\<exists>e. lock_ext (txs h t) = Some e \<and> lx_id e = 0) \<and>
      (\<forall>e. link_ext (txs h t) = Some e \<longrightarrow> \<not> llx_valid e)"
    then obtain e where "lock_ext (txs h t) = Some e" "lx_id e = 0" by blast
    then show ?thesis
      using l free[of "(txs h t)\<lparr>lock_ext := Some (e\<lparr>lx_valid := False\<rparr>), manager := Pool_Manager\<rparr>"]
      by (simp add: sticky_release_def lock_mm_free_def sticky_idle_def)
  next
    assume l: "manager (txs h t) = Load_Link_Manager \<and> (\<exists>e. link_ext (txs h t) = Some e) \<and>
      (\<forall>e. lock_ext (txs h t) = Some e \<longrightarrow> \<not> lx_valid e \<and> lx_id e = 0)"
    then obtain e where "link_ext (txs h t) = Some e" by blast
    then show ?thesis
      using l free[of "(txs h t)\<lparr>link_ext := Some (e\<lparr>llx_valid := False\<rparr>), manager := Pool_Manager\<rparr>"]
      by (simp add: sticky_release_def load_link_mm_free_def sticky_idle_def)
  qed
qed

lemma rmw_fill_exts [simp]:
  "lock_ext (rmw_fill s tr) = lock_ext tr" "link_ext (rmw_fill s tr) = link_ext tr" "manager (rmw_fill s tr) = manager tr"
  by (simp_all add: rmw_fill_def)

lemma llsc_fill_exts [simp]:
  "lock_ext (llsc_fill s tr) = lock_ext tr" "link_ext (llsc_fill s tr) = link_ext tr" "manager (llsc_fill s tr) = manager tr"
  by (simp_all add: llsc_fill_def)

lemma sticky_rmw_send_ok:
  assumes "sticky_library fresh reset" and "heap_ok sticky_idle live h"
  shows "\<exists>t h' tr e. sticky_rmw_send fresh r s h = Some (t, rmw_next r s, h') \<and> heap_ok sticky_idle (t # live) h' \<and>
    txs h' t = rmw_fill (rmw_next r s) tr \<and> manager tr = Lock_Manager \<and>
    lock_ext tr = Some e \<and> lx_valid e \<and> lx_lock e = even (rm_i s) \<and> lx_id e = 0 \<and>
    (\<forall>e. link_ext tr = Some e \<longrightarrow> \<not> llx_valid e)"
proof -
  obtain t h1 where a: "heap_allocate fresh h = Some (t, h1)" "heap_ok sticky_idle (t # live) h1" "sticky_idle (txs h1 t)"
    using heap_allocate_ok[OF assms(2) fresh_idle[OF assms(1)]] by blast
  let ?e = "case lock_ext (txs h1 t) of None \<Rightarrow> new_lock_extension | Some e \<Rightarrow> e"
  let ?tr = "(txs h1 t)\<lparr>manager := Lock_Manager, lock_ext := Some (?e\<lparr>lx_valid := True, lx_lock := even (rm_i s)\<rparr>)\<rparr>"
  have "sticky_rmw_send fresh r s h = Some (t, rmw_next r s, put_tx t (rmw_fill (rmw_next r s) ?tr) h1)"
    using a(1) by (cases "lock_ext (txs h1 t)") (simp_all add: sticky_rmw_send_def lock_mm_allocate_def rmw_next_def Let_def)
  moreover have "lx_id ?e = 0" using a(3) by (simp add: sticky_idle_def new_lock_extension_def split: option.split)
  ultimately show ?thesis
    using heap_ok_put[OF a(2), of t "rmw_fill (rmw_next r s) ?tr"] a(3) by (auto simp: sticky_idle_def)
qed

lemma sticky_llsc_send_ok:
  assumes "sticky_library fresh reset" and "heap_ok sticky_idle live h"
  shows "\<exists>t h' tr e. sticky_llsc_send fresh r s h = Some (t, llsc_next r s, h') \<and> heap_ok sticky_idle (t # live) h' \<and>
    txs h' t = llsc_fill (llsc_next r s) tr \<and> manager tr = Load_Link_Manager \<and>
    link_ext tr = Some e \<and> llx_valid e \<and> llx_cmd e = (if even (ls_i s) then LOAD_LINK else STORE_CONDITIONAL) \<and>
    (\<forall>e. lock_ext tr = Some e \<longrightarrow> \<not> lx_valid e \<and> lx_id e = 0)"
proof -
  obtain t h1 where a: "heap_allocate fresh h = Some (t, h1)" "heap_ok sticky_idle (t # live) h1" "sticky_idle (txs h1 t)"
    using heap_allocate_ok[OF assms(2) fresh_idle[OF assms(1)]] by blast
  let ?e = "case link_ext (txs h1 t) of None \<Rightarrow> new_load_link_extension | Some e \<Rightarrow> e"
  let ?c = "if even (ls_i s) then LOAD_LINK else STORE_CONDITIONAL"
  let ?tr = "(txs h1 t)\<lparr>manager := Load_Link_Manager, link_ext := Some (?e\<lparr>llx_valid := True, llx_cmd := ?c\<rparr>)\<rparr>"
  have "sticky_llsc_send fresh r s h = Some (t, llsc_next r s, put_tx t (llsc_fill (llsc_next r s) ?tr) h1)"
    using a(1) by (cases "link_ext (txs h1 t)") (simp_all add: sticky_llsc_send_def load_link_mm_allocate_def llsc_next_def Let_def)
  then show ?thesis
    using heap_ok_put[OF a(2), of t "llsc_fill (llsc_next r s) ?tr"] a(3) by (auto simp: sticky_idle_def)
qed

lemma served_exts [simp]:
  "lock_ext (rmw_served p s tr) = lock_ext tr" "link_ext (rmw_served p s tr) = link_ext tr"
  "lock_ext (llsc_served p z tr) = lock_ext tr" "link_ext (llsc_served p z tr) = link_ext tr"
  "manager (rmw_served p s tr) = manager tr" "manager (llsc_served p z tr) = manager tr"
  by (simp_all add: rmw_served_def llsc_served_def)

lemma sticky_rmw_iter_round:
  assumes lib: "sticky_library fresh reset" and err: "error_test is_error" and hp: "heap_ok sticky_idle live h"
  shows "\<exists>s' h' m'. sticky_rmw_iter fresh reset is_error (sticky_lock_b_transport lock_target_b_transport) r (s, h, m, ()) =
      Some (odd (rm_i s) \<and> \<not> rmw_passes r (s, table_of m), s', h', m', ()) \<and>
    (s', table_of m') = rmw_round r (s, table_of m) \<and> heap_ok sticky_idle live h'"
proof -
  let ?s = "rmw_next r s"
  obtain t h1 tr e where send: "sticky_rmw_send fresh r s h = Some (t, ?s, h1)"
    and h1: "heap_ok sticky_idle (t # live) h1" and x: "txs h1 t = rmw_fill ?s tr"
    and tr: "manager tr = Lock_Manager" "lock_ext tr = Some e" "lx_valid e" "lx_lock e = even (rm_i s)" "lx_id e = 0"
      "\<forall>e. link_ext tr = Some e \<longrightarrow> \<not> llx_valid e"
    using sticky_rmw_send_ok[OF lib hp, of r s] by blast
  have c: "sticky_lock_command (rmw_fill ?s tr) = rmw_command ?s" "address (rmw_fill ?s tr) = scast (rm_addr ?s)"
    using tr by (simp_all add: sticky_lock_command_def rmw_command_def) (simp add: rmw_fill_def)
  obtain pass y m' where g: "sticky_lock_gate (rmw_fill ?s tr) m = Some (pass, y, m')"
    using sticky_lock.gate_total[of "rmw_fill ?s tr" m] by blast
  have rule: "lock_rule (rmw_command ?s) (scast (rm_addr ?s)) (table_of m) = (pass, table_of m')"
    using sticky_lock.gate_rule[OF _ g] c by simp
  have b: "sticky_lock_b_transport lock_target_b_transport (rmw_fill ?s tr) (rm_delay s) (m, ()) =
      Some (rmw_served pass ?s tr, if pass then rm_delay s + LATENCY else rm_delay s, m', ())"
    unfolding sticky_lock_b_transport_def
    using g sticky_lock.gate_trans[OF _ g] by (intro gated_rmw) (simp_all add: sticky_bounce_def)
  obtain h' where h': "sticky_release reset t (put_tx t (rmw_served pass ?s tr) h1) = Some h'" "heap_ok sticky_idle live h'"
    using release_first[OF lib heap_ok_put[OF h1], of t "rmw_served pass ?s tr"] tr by auto
  have "(rmw_after (even (rm_i s)) (rmw_served pass ?s tr) (if pass then rm_delay s + LATENCY else rm_delay s) ?s, table_of m') =
      rmw_round r (s, table_of m)"
    using rmw_after_round[OF rule refl _ _ refl, of "rmw_served pass ?s tr"] by simp
  moreover have "rmw_passes r (s, table_of m) = pass" using rule by (simp add: rmw_passes_def)
  ultimately show ?thesis
    using send x b h' tr err by (auto simp: sticky_rmw_iter_def sticky_rmw_finish_def reported_def error_test_def)
qed

lemma sticky_llsc_iter_round:
  assumes lib: "sticky_library fresh reset" and err: "error_test is_error" and hp: "heap_ok sticky_idle live h"
  shows "\<exists>s' h' m'. sticky_llsc_iter fresh reset is_error (sticky_link_b_transport lock_target_b_transport) r (s, h, m, ()) =
      Some (False, s', h', m', ()) \<and>
    (s', Collect m') = llsc_round r (s, Collect m) \<and> heap_ok sticky_idle live h'"
proof -
  let ?s = "llsc_next r s" and ?k = "if even (ls_i s) then TLM_READ_COMMAND else TLM_WRITE_COMMAND"
  obtain t h1 tr e where send: "sticky_llsc_send fresh r s h = Some (t, ?s, h1)"
    and h1: "heap_ok sticky_idle (t # live) h1" and x: "txs h1 t = llsc_fill ?s tr"
    and tr: "manager tr = Load_Link_Manager" "link_ext tr = Some e" "llx_valid e"
      "llx_cmd e = (if even (ls_i s) then LOAD_LINK else STORE_CONDITIONAL)"
      "\<forall>e. lock_ext tr = Some e \<longrightarrow> \<not> lx_valid e \<and> lx_id e = 0"
    using sticky_llsc_send_ok[OF lib hp, of r s] by blast
  have c: "(sticky_link_command (llsc_fill ?s tr), command (llsc_fill ?s tr), address (llsc_fill ?s tr)) =
      (llsc_command ?s, ?k, scast (ls_addr ?s))"
    using tr by (simp add: sticky_link_command_def llsc_command_def) (simp add: llsc_fill_def)
  obtain pass y m' where g: "sticky_link_gate (llsc_fill ?s tr) m = Some (pass, y, m')"
    using sticky_link.gate_total[of "llsc_fill ?s tr" m] by blast
  have rule: "link_rule (llsc_command ?s) ?k (scast (ls_addr ?s)) (Collect m) = (pass, Collect m')"
    using sticky_link.gate_rule[OF _ g c] by simp
  have b: "sticky_link_b_transport lock_target_b_transport (llsc_fill ?s tr) (ls_delay s) (m, ()) =
      Some (llsc_served pass ?s tr, if pass then ls_delay s + LATENCY else ls_delay s, m', ())"
    unfolding sticky_link_b_transport_def
    using g sticky_link.gate_trans[OF _ g] by (intro gated_llsc) (simp_all add: sticky_bounce_def)
  obtain h' where h': "sticky_release reset t (put_tx t (llsc_served pass ?s tr) h1) = Some h'" "heap_ok sticky_idle live h'"
    using release_first[OF lib heap_ok_put[OF h1], of t "llsc_served pass ?s tr"] tr by auto
  have "(llsc_after (odd (ls_i s)) (llsc_served pass ?s tr) (if pass then ls_delay s + LATENCY else ls_delay s) ?s, Collect m') =
      llsc_round r (s, Collect m)"
    using llsc_after_round[OF rule refl _ _ refl, of "llsc_served pass ?s tr"] by simp
  moreover have "pass" if "even (ls_i s)" using rule that by (simp add: llsc_command_def)
  ultimately show ?thesis
    using send x b h' tr err
    by (cases "even (ls_i s)") (auto simp: sticky_llsc_iter_def sticky_llsc_finish_def reported_def error_test_def)
qed

end
