(* ===== verification/Lock_Auto.thy ===== *)
theory Lock_Auto
  imports Lock_Initiator
begin

text \<open>
  The variant \<^verbatim>\<open>src/locknsnoop/locking_auto\<close>: the extension is an automatic one, created for each
  transaction and deleted when the transaction is reset on its way back to the pool.
\<close>

section \<open>Extensions\<close>

record auto_lock_ext =
  alx_lock :: bool
  alx_id :: i32

definition new_auto_lock_ext :: auto_lock_ext where
  "new_auto_lock_ext = \<lparr>alx_lock = False, alx_id = 0\<rparr>"

definition auto_lock_ext_clone :: "auto_lock_ext \<Rightarrow> auto_lock_ext" where
  "auto_lock_ext_clone this = new_auto_lock_ext\<lparr>alx_lock := alx_lock this, alx_id := alx_id this\<rparr>"

definition auto_lock_ext_copy_from :: "auto_lock_ext \<Rightarrow> auto_lock_ext \<Rightarrow> auto_lock_ext" where
  "auto_lock_ext_copy_from ext this = this\<lparr>alx_lock := alx_lock ext, alx_id := alx_id ext\<rparr>"

datatype auto_link_cmd = AUTO_LOAD_LINK | AUTO_STORE_CONDITIONAL

record auto_link_ext =
  allx_cmd :: auto_link_cmd

definition new_auto_link_ext :: auto_link_ext where
  "new_auto_link_ext = \<lparr>allx_cmd = AUTO_LOAD_LINK\<rparr>"

definition auto_link_ext_clone :: "auto_link_ext \<Rightarrow> auto_link_ext" where
  "auto_link_ext_clone this = new_auto_link_ext\<lparr>allx_cmd := allx_cmd this\<rparr>"

definition auto_link_ext_copy_from :: "auto_link_ext \<Rightarrow> auto_link_ext \<Rightarrow> auto_link_ext" where
  "auto_link_ext_copy_from ext this = this\<lparr>allx_cmd := allx_cmd ext\<rparr>"

record auto_tx = payload +
  a_lock :: "auto_lock_ext option"
  a_link :: "auto_link_ext option"

section \<open>Interconnects\<close>

definition auto_bounce :: "auto_tx \<Rightarrow> auto_tx" where
  "auto_bounce tr = tr\<lparr>response := TLM_COMMAND_ERROR_RESPONSE\<rparr>"

definition auto_locked :: "auto_tx \<Rightarrow> lock_maps \<Rightarrow> bool \<times> auto_tx \<times> lock_maps" where
  "auto_locked tr s =
     (let adr = address tr in
      case a_lock tr of
        Some ext \<Rightarrow>
          if alx_lock ext then
            if lock_map s adr then (True, auto_bounce tr, s)
            else (False, tr, s\<lparr>lock_map := (lock_map s)(adr := True), lock_id := (lock_id s)(adr := alx_id ext)\<rparr>)
          else if lock_map s adr then
            if lock_id s adr = 0 \<or> lock_id s adr = alx_id ext
            then (False, tr, s\<lparr>lock_map := (lock_map s)(adr := False)\<rparr>)
            else (True, auto_bounce tr, s)
          else (False, tr, s)
      | None \<Rightarrow> if lock_map s adr then (True, auto_bounce tr, s) else (False, tr, s))"

definition auto_lock_gate :: "(auto_tx, lock_maps) gate" where
  "auto_lock_gate tr s = (case auto_locked tr s of (lk, tr, s) \<Rightarrow> Some (\<not> lk, tr, s))"

definition auto_lock_b_transport :: "(auto_tx, 'd) b_transport \<Rightarrow> (auto_tx, lock_maps \<times> 'd) b_transport" where
  "auto_lock_b_transport = gate_b_transport auto_lock_gate"

definition auto_lock_nb_transport_fw :: "(auto_tx, 'd) nb_transport \<Rightarrow> (auto_tx, lock_maps \<times> 'd) nb_transport" where
  "auto_lock_nb_transport_fw = gate_nb_transport_fw auto_lock_gate"

definition auto_lock_forward :: "('x \<Rightarrow> 'd \<Rightarrow> 'y \<times> 'd) \<Rightarrow> 'x \<Rightarrow> lock_maps \<times> 'd \<Rightarrow> 'y \<times> lock_maps \<times> 'd" where
  "auto_lock_forward = gate_forward"

definition auto_linked :: "auto_tx \<Rightarrow> (u64 \<Rightarrow> bool) \<Rightarrow> bool \<times> auto_tx \<times> (u64 \<Rightarrow> bool)" where
  "auto_linked tr links =
     (let cmd = command tr; adr = address tr in
      case a_link tr of
        Some ext \<Rightarrow>
          (case allx_cmd ext of
             AUTO_LOAD_LINK \<Rightarrow> (True, tr, links(adr := True))
           | AUTO_STORE_CONDITIONAL \<Rightarrow>
               if \<not> links adr then (False, auto_bounce tr, links)
               else (True, tr, links(adr := False)))
      | None \<Rightarrow> (True, tr, if cmd = TLM_WRITE_COMMAND \<and> links adr then links(adr := False) else links))"

definition auto_link_gate :: "(auto_tx, u64 \<Rightarrow> bool) gate" where
  "auto_link_gate tr s = Some (auto_linked tr s)"

definition auto_link_b_transport :: "(auto_tx, 'd) b_transport \<Rightarrow> (auto_tx, (u64 \<Rightarrow> bool) \<times> 'd) b_transport" where
  "auto_link_b_transport = gate_b_transport auto_link_gate"

definition auto_link_nb_transport_fw ::
    "(auto_tx, 'd) nb_transport \<Rightarrow> (auto_tx, (u64 \<Rightarrow> bool) \<times> 'd) nb_transport" where
  "auto_link_nb_transport_fw = gate_nb_transport_fw auto_link_gate"

definition auto_link_forward ::
    "('x \<Rightarrow> 'd \<Rightarrow> 'y \<times> 'd) \<Rightarrow> 'x \<Rightarrow> (u64 \<Rightarrow> bool) \<times> 'd \<Rightarrow> 'y \<times> (u64 \<Rightarrow> bool) \<times> 'd" where
  "auto_link_forward = gate_forward"

definition auto_lock_command :: "auto_tx \<Rightarrow> lock_command" where
  "auto_lock_command tr =
     (case a_lock tr of
        Some ext \<Rightarrow> if alx_lock ext then Lock (alx_id ext) else Unlock (alx_id ext)
      | None \<Rightarrow> Plain)"

definition auto_link_command :: "auto_tx \<Rightarrow> link_command" where
  "auto_link_command tr =
     (case a_link tr of
        Some ext \<Rightarrow> (case allx_cmd ext of AUTO_LOAD_LINK \<Rightarrow> Link | AUTO_STORE_CONDITIONAL \<Rightarrow> Conditional)
      | None \<Rightarrow> Ordinary)"

interpretation auto_lock: lock_gate auto_lock_gate "\<lambda>_. True" auto_lock_command address auto_bounce table_of
proof unfold_locales
  fix tr s p tr' s'
  show "\<exists>p t' s'. auto_lock_gate tr s = Some (p, t', s')"
    by (auto simp: auto_lock_gate_def split: prod.split)
  assume "auto_lock_gate tr s = Some (p, tr', s')"
  then show "(p, table_of s') = lock_rule (auto_lock_command tr) (address tr) (table_of s)"
    and "tr' = (if p then tr else auto_bounce tr)"
    by (auto simp: auto_lock_gate_def auto_locked_def auto_lock_command_def table_of_def Let_def
        split: option.splits if_splits)
qed

interpretation auto_link: link_gate auto_link_gate "\<lambda>_. True"
  "\<lambda>tr. (auto_link_command tr, command tr, address tr)" auto_bounce Collect
proof unfold_locales
  fix tr s p tr' s' l k a
  show "\<exists>p t' s'. auto_link_gate tr s = Some (p, t', s')"
    by (cases "auto_linked tr s") (auto simp: auto_link_gate_def)
  assume "auto_link_gate tr s = Some (p, tr', s')"
  then show "tr' = (if p then tr else auto_bounce tr)"
    and "(auto_link_command tr, command tr, address tr) = (l, k, a) \<Longrightarrow> (p, Collect s') = link_rule l k a (Collect s)"
    by (auto simp: auto_link_gate_def auto_linked_def auto_link_command_def Let_def
        split: option.splits if_splits auto_link_cmd.splits)
qed

section \<open>The initiator\<close>

definition auto_rmw_send :: "auto_tx \<Rightarrow> u32 \<times> u32 \<times> u32 \<Rightarrow> rmw \<Rightarrow> auto_tx heap \<Rightarrow>
    (nat \<times> rmw \<times> auto_tx heap) option" where
  "auto_rmw_send fresh r s h = do {
     (t, h) \<leftarrow> heap_allocate fresh h;
     let ext = new_auto_lock_ext;
     let s = rmw_address (fst r) s;
     let ext = ext\<lparr>alx_lock := even (rm_i s)\<rparr>;
     let s = rmw_data (snd r) s;
     Some (t, s, put_tx t (rmw_fill s ((txs h t)\<lparr>a_lock := Some ext\<rparr>)) h)
   }"

definition auto_rmw_finish :: "(auto_tx \<Rightarrow> auto_tx) \<Rightarrow> (tlm_response \<Rightarrow> bool) \<Rightarrow> nat \<Rightarrow> sc_time \<Rightarrow>
    rmw \<Rightarrow> auto_tx heap \<Rightarrow> (bool \<times> rmw \<times> auto_tx heap) option" where
  "auto_rmw_finish reset is_error t delay s h = do {
     let tr = txs h t;
     ext \<leftarrow> a_lock tr;
     let s = rmw_after (alx_lock ext) tr delay s;
     h \<leftarrow> heap_free reset t h;
     Some (reported is_error (alx_lock ext) tr, s, h)
   }"

definition auto_rmw_iter :: "auto_tx \<Rightarrow> (auto_tx \<Rightarrow> auto_tx) \<Rightarrow> (tlm_response \<Rightarrow> bool) \<Rightarrow>
    (auto_tx, 'd) b_transport \<Rightarrow> u32 \<times> u32 \<times> u32 \<Rightarrow> rmw \<times> auto_tx heap \<times> 'd \<Rightarrow>
    (bool \<times> rmw \<times> auto_tx heap \<times> 'd) option" where
  "auto_rmw_iter fresh reset is_error socket r x = do {
     (t, s, h) \<leftarrow> auto_rmw_send fresh r (fst x) (fst (snd x));
     (tr, delay, d) \<leftarrow> socket (txs h t) (rm_delay s) (snd (snd x));
     (rep, s, h) \<leftarrow> auto_rmw_finish reset is_error t delay s (put_tx t tr h);
     Some (rep, s, h, d)
   }"

definition auto_llsc_send :: "auto_tx \<Rightarrow> u32 \<times> u32 \<times> u32 \<Rightarrow> llsc \<Rightarrow> auto_tx heap \<Rightarrow>
    (nat \<times> llsc \<times> auto_tx heap) option" where
  "auto_llsc_send fresh r s h = do {
     (t, h) \<leftarrow> heap_allocate fresh h;
     let ext = new_auto_link_ext;
     let s = llsc_address (fst r) s;
     let ext = ext\<lparr>allx_cmd := (if even (ls_i s) then AUTO_LOAD_LINK else AUTO_STORE_CONDITIONAL)\<rparr>;
     let s = llsc_data (snd r) s;
     Some (t, s, put_tx t (llsc_fill s ((txs h t)\<lparr>a_link := Some ext\<rparr>)) h)
   }"

definition auto_llsc_finish :: "(auto_tx \<Rightarrow> auto_tx) \<Rightarrow> (tlm_response \<Rightarrow> bool) \<Rightarrow> nat \<Rightarrow> sc_time \<Rightarrow>
    llsc \<Rightarrow> auto_tx heap \<Rightarrow> (bool \<times> llsc \<times> auto_tx heap) option" where
  "auto_llsc_finish reset is_error t delay s h = do {
     let tr = txs h t;
     ext \<leftarrow> a_link tr;
     let cond = (allx_cmd ext = AUTO_STORE_CONDITIONAL);
     let s = llsc_after cond tr delay s;
     h \<leftarrow> heap_free reset t h;
     Some (reported is_error cond tr, s, h)
   }"

definition auto_llsc_iter :: "auto_tx \<Rightarrow> (auto_tx \<Rightarrow> auto_tx) \<Rightarrow> (tlm_response \<Rightarrow> bool) \<Rightarrow>
    (auto_tx, 'd) b_transport \<Rightarrow> u32 \<times> u32 \<times> u32 \<Rightarrow> llsc \<times> auto_tx heap \<times> 'd \<Rightarrow>
    (bool \<times> llsc \<times> auto_tx heap \<times> 'd) option" where
  "auto_llsc_iter fresh reset is_error socket r x = do {
     (t, s, h) \<leftarrow> auto_llsc_send fresh r (fst x) (fst (snd x));
     (tr, delay, d) \<leftarrow> socket (txs h t) (ls_delay s) (snd (snd x));
     (rep, s, h) \<leftarrow> auto_llsc_finish reset is_error t delay s (put_tx t tr h);
     Some (rep, s, h, d)
   }"

section \<open>An iteration of a thread\<close>

text \<open>
  What the library does to a transaction: a new one has no extension, \<^verbatim>\<open>reset()\<close> deletes the automatic
  ones.
\<close>

definition auto_idle :: "auto_tx \<Rightarrow> bool" where
  "auto_idle tr \<longleftrightarrow> a_lock tr = None \<and> a_link tr = None"

definition auto_library :: "auto_tx \<Rightarrow> (auto_tx \<Rightarrow> auto_tx) \<Rightarrow> bool" where
  "auto_library fresh reset \<longleftrightarrow> a_lock fresh = None \<and> a_link fresh = None \<and>
     (\<forall>tr. a_lock (reset tr) = None \<and> a_link (reset tr) = None)"

lemma auto_fresh_idle: "auto_library fresh reset \<Longrightarrow> auto_idle fresh"
  by (simp add: auto_library_def auto_idle_def)

lemma auto_idle_plain: "auto_idle tr \<Longrightarrow> auto_lock_command tr = Plain \<and> auto_link_command tr = Ordinary"
  by (simp add: auto_idle_def auto_lock_command_def auto_link_command_def)

lemma auto_release_first:
  assumes "auto_library fresh reset" and "heap_ok auto_idle (t # live) h"
  shows "\<exists>h'. heap_free reset t h = Some h' \<and> heap_ok auto_idle live h'"
  using heap_free_ok[OF assms(2), of 0 reset] assms(1) by (auto simp: auto_library_def auto_idle_def)

lemma auto_fill_exts [simp]:
  "a_lock (rmw_fill s tr) = a_lock tr" "a_link (rmw_fill s tr) = a_link tr"
  "a_lock (llsc_fill z tr) = a_lock tr" "a_link (llsc_fill z tr) = a_link tr"
  by (simp_all add: rmw_fill_def llsc_fill_def)

lemma auto_rmw_send_ok:
  assumes "auto_library fresh reset" and "heap_ok auto_idle live h"
  shows "\<exists>t h' tr. auto_rmw_send fresh r s h = Some (t, rmw_next r s, h') \<and> heap_ok auto_idle (t # live) h' \<and>
    txs h' t = rmw_fill (rmw_next r s) tr \<and> a_lock tr = Some \<lparr>alx_lock = even (rm_i s), alx_id = 0\<rparr>"
proof -
  obtain t h1 where a: "heap_allocate fresh h = Some (t, h1)" "heap_ok auto_idle (t # live) h1"
    using heap_allocate_ok[OF assms(2) auto_fresh_idle[OF assms(1)]] by blast
  let ?tr = "(txs h1 t)\<lparr>a_lock := Some \<lparr>alx_lock = even (rm_i s), alx_id = 0\<rparr>\<rparr>"
  show ?thesis
    using a(1) heap_ok_put[OF a(2), of t "rmw_fill (rmw_next r s) ?tr"]
    by (intro exI[of _ t] exI[of _ "put_tx t (rmw_fill (rmw_next r s) ?tr) h1"] exI[of _ ?tr])
      (simp add: auto_rmw_send_def new_auto_lock_ext_def rmw_next_def Let_def)
qed

lemma auto_llsc_send_ok:
  assumes "auto_library fresh reset" and "heap_ok auto_idle live h"
  shows "\<exists>t h' tr. auto_llsc_send fresh r s h = Some (t, llsc_next r s, h') \<and> heap_ok auto_idle (t # live) h' \<and>
    txs h' t = llsc_fill (llsc_next r s) tr \<and>
    a_link tr = Some \<lparr>allx_cmd = (if even (ls_i s) then AUTO_LOAD_LINK else AUTO_STORE_CONDITIONAL)\<rparr>"
proof -
  obtain t h1 where a: "heap_allocate fresh h = Some (t, h1)" "heap_ok auto_idle (t # live) h1"
    using heap_allocate_ok[OF assms(2) auto_fresh_idle[OF assms(1)]] by blast
  let ?tr = "(txs h1 t)\<lparr>a_link := Some \<lparr>allx_cmd = (if even (ls_i s) then AUTO_LOAD_LINK else AUTO_STORE_CONDITIONAL)\<rparr>\<rparr>"
  show ?thesis
    using a(1) heap_ok_put[OF a(2), of t "llsc_fill (llsc_next r s) ?tr"]
    by (intro exI[of _ t] exI[of _ "put_tx t (llsc_fill (llsc_next r s) ?tr) h1"] exI[of _ ?tr])
      (simp add: auto_llsc_send_def new_auto_link_ext_def llsc_next_def Let_def)
qed

lemma auto_served_exts [simp]:
  "a_lock (rmw_served p s tr) = a_lock tr" "a_link (rmw_served p s tr) = a_link tr"
  "a_lock (llsc_served p z tr) = a_lock tr" "a_link (llsc_served p z tr) = a_link tr"
  by (simp_all add: rmw_served_def llsc_served_def)

lemma auto_rmw_iter_round:
  assumes lib: "auto_library fresh reset" and err: "error_test is_error" and ok: "heap_ok auto_idle live h"
  shows "\<exists>s' h' m'. auto_rmw_iter fresh reset is_error (auto_lock_b_transport lock_target_b_transport) r (s, h, m, ()) =
      Some (odd (rm_i s) \<and> \<not> rmw_passes r (s, table_of m), s', h', m', ()) \<and>
    (s', table_of m') = rmw_round r (s, table_of m) \<and> heap_ok auto_idle live h'"
proof -
  let ?s = "rmw_next r s"
  obtain t h1 tr where send: "auto_rmw_send fresh r s h = Some (t, ?s, h1)"
    and h1: "heap_ok auto_idle (t # live) h1" and x: "txs h1 t = rmw_fill ?s tr"
    and tr: "a_lock tr = Some \<lparr>alx_lock = even (rm_i s), alx_id = 0\<rparr>"
    using auto_rmw_send_ok[OF lib ok, of r s] by blast
  have c: "auto_lock_command (rmw_fill ?s tr) = rmw_command ?s" "address (rmw_fill ?s tr) = scast (rm_addr ?s)"
    using tr by (simp_all add: auto_lock_command_def rmw_command_def) (simp add: rmw_fill_def)
  obtain pass y m' where g: "auto_lock_gate (rmw_fill ?s tr) m = Some (pass, y, m')"
    using auto_lock.gate_total[of "rmw_fill ?s tr" m] by blast
  have rule: "lock_rule (rmw_command ?s) (scast (rm_addr ?s)) (table_of m) = (pass, table_of m')"
    using auto_lock.gate_rule[OF _ g] c by simp
  have b: "auto_lock_b_transport lock_target_b_transport (rmw_fill ?s tr) (rm_delay s) (m, ()) =
      Some (rmw_served pass ?s tr, if pass then rm_delay s + LATENCY else rm_delay s, m', ())"
    unfolding auto_lock_b_transport_def
    using g auto_lock.gate_trans[OF _ g] by (intro gated_rmw) (simp_all add: auto_bounce_def)
  obtain h' where h': "heap_free reset t (put_tx t (rmw_served pass ?s tr) h1) = Some h'" "heap_ok auto_idle live h'"
    using auto_release_first[OF lib heap_ok_put[OF h1], of t "rmw_served pass ?s tr"] by auto
  have "(rmw_after (even (rm_i s)) (rmw_served pass ?s tr) (if pass then rm_delay s + LATENCY else rm_delay s) ?s, table_of m') =
      rmw_round r (s, table_of m)"
    using rmw_after_round[OF rule refl _ _ refl, of "rmw_served pass ?s tr"] by simp
  moreover have "rmw_passes r (s, table_of m) = pass" using rule by (simp add: rmw_passes_def)
  ultimately show ?thesis
    using send x b h' tr err by (auto simp: auto_rmw_iter_def auto_rmw_finish_def reported_def error_test_def)
qed

lemma auto_llsc_iter_round:
  assumes lib: "auto_library fresh reset" and err: "error_test is_error" and ok: "heap_ok auto_idle live h"
  shows "\<exists>s' h' m'. auto_llsc_iter fresh reset is_error (auto_link_b_transport lock_target_b_transport) r (s, h, m, ()) =
      Some (False, s', h', m', ()) \<and>
    (s', Collect m') = llsc_round r (s, Collect m) \<and> heap_ok auto_idle live h'"
proof -
  let ?s = "llsc_next r s" and ?k = "if even (ls_i s) then TLM_READ_COMMAND else TLM_WRITE_COMMAND"
  obtain t h1 tr where send: "auto_llsc_send fresh r s h = Some (t, ?s, h1)"
    and h1: "heap_ok auto_idle (t # live) h1" and x: "txs h1 t = llsc_fill ?s tr"
    and tr: "a_link tr = Some \<lparr>allx_cmd = (if even (ls_i s) then AUTO_LOAD_LINK else AUTO_STORE_CONDITIONAL)\<rparr>"
    using auto_llsc_send_ok[OF lib ok, of r s] by blast
  have c: "(auto_link_command (llsc_fill ?s tr), command (llsc_fill ?s tr), address (llsc_fill ?s tr)) =
      (llsc_command ?s, ?k, scast (ls_addr ?s))"
    using tr by (simp add: auto_link_command_def llsc_command_def) (simp add: llsc_fill_def)
  obtain pass y m' where g: "auto_link_gate (llsc_fill ?s tr) m = Some (pass, y, m')"
    using auto_link.gate_total[of "llsc_fill ?s tr" m] by blast
  have rule: "link_rule (llsc_command ?s) ?k (scast (ls_addr ?s)) (Collect m) = (pass, Collect m')"
    using auto_link.gate_rule[OF _ g c] by simp
  have b: "auto_link_b_transport lock_target_b_transport (llsc_fill ?s tr) (ls_delay s) (m, ()) =
      Some (llsc_served pass ?s tr, if pass then ls_delay s + LATENCY else ls_delay s, m', ())"
    unfolding auto_link_b_transport_def
    using g auto_link.gate_trans[OF _ g] by (intro gated_llsc) (simp_all add: auto_bounce_def)
  obtain h' where h': "heap_free reset t (put_tx t (llsc_served pass ?s tr) h1) = Some h'" "heap_ok auto_idle live h'"
    using auto_release_first[OF lib heap_ok_put[OF h1], of t "llsc_served pass ?s tr"] by auto
  have "(llsc_after (odd (ls_i s)) (llsc_served pass ?s tr) (if pass then ls_delay s + LATENCY else ls_delay s) ?s, Collect m') =
      llsc_round r (s, Collect m)"
    using llsc_after_round[OF rule refl _ _ refl, of "llsc_served pass ?s tr"] by simp
  moreover have "pass" if "even (ls_i s)" using rule that by (simp add: llsc_command_def)
  ultimately show ?thesis
    using send x b h' tr err
    by (cases "even (ls_i s)") (auto simp: auto_llsc_iter_def auto_llsc_finish_def reported_def error_test_def)
qed

end
