(* ===== verification/Lock_Two.thy ===== *)
theory Lock_Two
  imports Lock_Initiator
begin

text \<open>
  The variant \<^verbatim>\<open>src/locknsnoop/locking_two\<close>: a sticky extension holds the data of a command and an
  automatic guard extension, one static object shared by all transactions, says that the data is meant. The
  interconnects follow the pointer to the data without a test; following a null pointer is \<open>None\<close>.
\<close>

section \<open>Extensions\<close>

record lock_data_ext =
  dx_lock :: bool
  dx_id :: i32

definition new_lock_data_ext :: lock_data_ext where
  "new_lock_data_ext = \<lparr>dx_lock = False, dx_id = 0\<rparr>"

definition lock_data_ext_clone :: "lock_data_ext \<Rightarrow> lock_data_ext" where
  "lock_data_ext_clone this = new_lock_data_ext\<lparr>dx_lock := dx_lock this, dx_id := dx_id this\<rparr>"

definition lock_data_ext_copy_from :: "lock_data_ext \<Rightarrow> lock_data_ext \<Rightarrow> lock_data_ext" where
  "lock_data_ext_copy_from ext this = this\<lparr>dx_lock := dx_lock ext, dx_id := dx_id ext\<rparr>"

datatype two_link_cmd = TWO_LOAD_LINK | TWO_STORE_CONDITIONAL

record link_data_ext =
  dlx_cmd :: two_link_cmd

definition new_link_data_ext :: link_data_ext where
  "new_link_data_ext = \<lparr>dlx_cmd = TWO_LOAD_LINK\<rparr>"

definition link_data_ext_clone :: "link_data_ext \<Rightarrow> link_data_ext" where
  "link_data_ext_clone this = new_link_data_ext\<lparr>dlx_cmd := dlx_cmd this\<rparr>"

definition link_data_ext_copy_from :: "link_data_ext \<Rightarrow> link_data_ext \<Rightarrow> link_data_ext" where
  "link_data_ext_copy_from ext this = this\<lparr>dlx_cmd := dlx_cmd ext\<rparr>"

datatype lock_guard_ext = Lock_Guard

definition lock_guard_clone :: "lock_guard_ext \<Rightarrow> lock_guard_ext" where
  "lock_guard_clone this = Lock_Guard"

datatype link_guard_ext = Link_Guard

definition link_guard_clone :: "link_guard_ext \<Rightarrow> link_guard_ext" where
  "link_guard_clone this = Link_Guard"

record two_tx = payload +
  lock_guard :: "lock_guard_ext option"
  lock_data :: "lock_data_ext option"
  link_guard :: "link_guard_ext option"
  link_data :: "link_data_ext option"

section \<open>Interconnects\<close>

definition two_bounce :: "two_tx \<Rightarrow> two_tx" where
  "two_bounce tr = tr\<lparr>response := TLM_COMMAND_ERROR_RESPONSE\<rparr>"

definition two_locked :: "two_tx \<Rightarrow> lock_maps \<Rightarrow> (bool \<times> two_tx \<times> lock_maps) option" where
  "two_locked tr s =
     (let adr = address tr in
      case lock_guard tr of
        Some guard \<Rightarrow>
          (case lock_data tr of
             None \<Rightarrow> None
           | Some ext \<Rightarrow>
               if dx_lock ext then
                 if lock_map s adr then Some (True, two_bounce tr, s)
                 else Some (False, tr, s\<lparr>lock_map := (lock_map s)(adr := True), lock_id := (lock_id s)(adr := dx_id ext)\<rparr>)
               else if lock_map s adr then
                 if lock_id s adr = 0 \<or> lock_id s adr = dx_id ext
                 then Some (False, tr, s\<lparr>lock_map := (lock_map s)(adr := False)\<rparr>)
                 else Some (True, two_bounce tr, s)
               else Some (False, tr, s))
      | None \<Rightarrow> if lock_map s adr then Some (True, two_bounce tr, s) else Some (False, tr, s))"

definition two_lock_gate :: "(two_tx, lock_maps) gate" where
  "two_lock_gate tr s = map_option (\<lambda>(lk, tr, s). (\<not> lk, tr, s)) (two_locked tr s)"

definition two_lock_b_transport :: "(two_tx, 'd) b_transport \<Rightarrow> (two_tx, lock_maps \<times> 'd) b_transport" where
  "two_lock_b_transport = gate_b_transport two_lock_gate"

definition two_lock_nb_transport_fw :: "(two_tx, 'd) nb_transport \<Rightarrow> (two_tx, lock_maps \<times> 'd) nb_transport" where
  "two_lock_nb_transport_fw = gate_nb_transport_fw two_lock_gate"

definition two_lock_forward :: "('x \<Rightarrow> 'd \<Rightarrow> 'y \<times> 'd) \<Rightarrow> 'x \<Rightarrow> lock_maps \<times> 'd \<Rightarrow> 'y \<times> lock_maps \<times> 'd" where
  "two_lock_forward = gate_forward"

definition two_linked :: "two_tx \<Rightarrow> (u64 \<Rightarrow> bool) \<Rightarrow> (bool \<times> two_tx \<times> (u64 \<Rightarrow> bool)) option" where
  "two_linked tr links =
     (let cmd = command tr; adr = address tr in
      case link_guard tr of
        Some guard \<Rightarrow>
          (case link_data tr of
             None \<Rightarrow> None
           | Some ext \<Rightarrow>
               (case dlx_cmd ext of
                  TWO_LOAD_LINK \<Rightarrow> Some (True, tr, links(adr := True))
                | TWO_STORE_CONDITIONAL \<Rightarrow>
                    if \<not> links adr then Some (False, two_bounce tr, links)
                    else Some (True, tr, links(adr := False))))
      | None \<Rightarrow> Some (True, tr, if cmd = TLM_WRITE_COMMAND \<and> links adr then links(adr := False) else links))"

definition two_link_gate :: "(two_tx, u64 \<Rightarrow> bool) gate" where
  "two_link_gate = two_linked"

definition two_link_b_transport :: "(two_tx, 'd) b_transport \<Rightarrow> (two_tx, (u64 \<Rightarrow> bool) \<times> 'd) b_transport" where
  "two_link_b_transport = gate_b_transport two_link_gate"

definition two_link_nb_transport_fw ::
    "(two_tx, 'd) nb_transport \<Rightarrow> (two_tx, (u64 \<Rightarrow> bool) \<times> 'd) nb_transport" where
  "two_link_nb_transport_fw = gate_nb_transport_fw two_link_gate"

definition two_link_forward ::
    "('x \<Rightarrow> 'd \<Rightarrow> 'y \<times> 'd) \<Rightarrow> 'x \<Rightarrow> (u64 \<Rightarrow> bool) \<times> 'd \<Rightarrow> 'y \<times> (u64 \<Rightarrow> bool) \<times> 'd" where
  "two_link_forward = gate_forward"

text \<open>What the sender owes the interconnects: no guard without data.\<close>

definition two_lock_ok :: "two_tx \<Rightarrow> bool" where
  "two_lock_ok tr \<longleftrightarrow> (lock_guard tr \<noteq> None \<longrightarrow> lock_data tr \<noteq> None)"

definition two_link_ok :: "two_tx \<Rightarrow> bool" where
  "two_link_ok tr \<longleftrightarrow> (link_guard tr \<noteq> None \<longrightarrow> link_data tr \<noteq> None)"

definition two_lock_command :: "two_tx \<Rightarrow> lock_command" where
  "two_lock_command tr =
     (case (lock_guard tr, lock_data tr) of
        (Some _, Some ext) \<Rightarrow> if dx_lock ext then Lock (dx_id ext) else Unlock (dx_id ext)
      | _ \<Rightarrow> Plain)"

definition two_link_command :: "two_tx \<Rightarrow> link_command" where
  "two_link_command tr =
     (case (link_guard tr, link_data tr) of
        (Some _, Some ext) \<Rightarrow> (case dlx_cmd ext of TWO_LOAD_LINK \<Rightarrow> Link | TWO_STORE_CONDITIONAL \<Rightarrow> Conditional)
      | _ \<Rightarrow> Ordinary)"

interpretation two_lock: lock_gate two_lock_gate two_lock_ok two_lock_command address two_bounce table_of
proof unfold_locales
  fix tr s p tr' s'
  assume ok: "two_lock_ok tr"
  then show "\<exists>p t' s'. two_lock_gate tr s = Some (p, t', s')"
    by (auto simp: two_lock_gate_def two_locked_def two_lock_ok_def Let_def split: option.splits)
  assume "two_lock_gate tr s = Some (p, tr', s')"
  with ok show "(p, table_of s') = lock_rule (two_lock_command tr) (address tr) (table_of s)"
    and "tr' = (if p then tr else two_bounce tr)"
    by (auto simp: two_lock_gate_def two_locked_def two_lock_command_def two_lock_ok_def table_of_def Let_def
        split: option.splits if_splits)
qed

interpretation two_link: link_gate two_link_gate two_link_ok
  "\<lambda>tr. (two_link_command tr, command tr, address tr)" two_bounce Collect
proof unfold_locales
  fix tr s p tr' s' l k a
  assume ok: "two_link_ok tr"
  then show "\<exists>p t' s'. two_link_gate tr s = Some (p, t', s')"
    by (auto simp: two_link_gate_def two_linked_def two_link_ok_def Let_def split: option.splits two_link_cmd.splits)
  assume "two_link_gate tr s = Some (p, tr', s')"
  with ok show "tr' = (if p then tr else two_bounce tr)"
    and "(two_link_command tr, command tr, address tr) = (l, k, a) \<Longrightarrow> (p, Collect s') = link_rule l k a (Collect s)"
    by (auto simp: two_link_gate_def two_linked_def two_link_command_def two_link_ok_def Let_def
        split: option.splits if_splits two_link_cmd.splits)
qed

section \<open>The initiator\<close>

definition two_rmw_send :: "two_tx \<Rightarrow> u32 \<times> u32 \<times> u32 \<Rightarrow> rmw \<Rightarrow> two_tx heap \<Rightarrow>
    (nat \<times> rmw \<times> two_tx heap) option" where
  "two_rmw_send fresh r s h = do {
     (t, h) \<leftarrow> heap_allocate fresh h;
     let tr = (txs h t);
     let ext = (case lock_data tr of None \<Rightarrow> new_lock_data_ext | Some ext \<Rightarrow> ext);
     let tr = tr\<lparr>lock_guard := Some Lock_Guard\<rparr>;
     let s = rmw_address (fst r) s;
     let ext = ext\<lparr>dx_lock := even (rm_i s)\<rparr>;
     let s = rmw_data (snd r) s;
     Some (t, s, put_tx t (rmw_fill s (tr\<lparr>lock_data := Some ext\<rparr>)) h)
   }"

definition two_rmw_finish :: "(two_tx \<Rightarrow> two_tx) \<Rightarrow> (tlm_response \<Rightarrow> bool) \<Rightarrow> nat \<Rightarrow> sc_time \<Rightarrow>
    rmw \<Rightarrow> two_tx heap \<Rightarrow> (bool \<times> rmw \<times> two_tx heap) option" where
  "two_rmw_finish reset is_error t delay s h = do {
     let tr = txs h t;
     ext \<leftarrow> lock_data tr;
     let s = rmw_after (dx_lock ext) tr delay s;
     h \<leftarrow> heap_free reset t h;
     Some (reported is_error (dx_lock ext) tr, s, h)
   }"

definition two_rmw_iter :: "two_tx \<Rightarrow> (two_tx \<Rightarrow> two_tx) \<Rightarrow> (tlm_response \<Rightarrow> bool) \<Rightarrow>
    (two_tx, 'd) b_transport \<Rightarrow> u32 \<times> u32 \<times> u32 \<Rightarrow> rmw \<times> two_tx heap \<times> 'd \<Rightarrow>
    (bool \<times> rmw \<times> two_tx heap \<times> 'd) option" where
  "two_rmw_iter fresh reset is_error socket r x = do {
     (t, s, h) \<leftarrow> two_rmw_send fresh r (fst x) (fst (snd x));
     (tr, delay, d) \<leftarrow> socket (txs h t) (rm_delay s) (snd (snd x));
     (rep, s, h) \<leftarrow> two_rmw_finish reset is_error t delay s (put_tx t tr h);
     Some (rep, s, h, d)
   }"

definition two_llsc_send :: "two_tx \<Rightarrow> u32 \<times> u32 \<times> u32 \<Rightarrow> llsc \<Rightarrow> two_tx heap \<Rightarrow>
    (nat \<times> llsc \<times> two_tx heap) option" where
  "two_llsc_send fresh r s h = do {
     (t, h) \<leftarrow> heap_allocate fresh h;
     let tr = (txs h t);
     let ext = (case link_data tr of None \<Rightarrow> new_link_data_ext | Some ext \<Rightarrow> ext);
     let tr = tr\<lparr>link_guard := Some Link_Guard\<rparr>;
     let s = llsc_address (fst r) s;
     let ext = ext\<lparr>dlx_cmd := (if even (ls_i s) then TWO_LOAD_LINK else TWO_STORE_CONDITIONAL)\<rparr>;
     let s = llsc_data (snd r) s;
     Some (t, s, put_tx t (llsc_fill s (tr\<lparr>link_data := Some ext\<rparr>)) h)
   }"

definition two_llsc_finish :: "(two_tx \<Rightarrow> two_tx) \<Rightarrow> (tlm_response \<Rightarrow> bool) \<Rightarrow> nat \<Rightarrow> sc_time \<Rightarrow>
    llsc \<Rightarrow> two_tx heap \<Rightarrow> (bool \<times> llsc \<times> two_tx heap) option" where
  "two_llsc_finish reset is_error t delay s h = do {
     let tr = txs h t;
     ext \<leftarrow> link_data tr;
     let cond = (dlx_cmd ext = TWO_STORE_CONDITIONAL);
     let s = llsc_after cond tr delay s;
     h \<leftarrow> heap_free reset t h;
     Some (reported is_error cond tr, s, h)
   }"

definition two_llsc_iter :: "two_tx \<Rightarrow> (two_tx \<Rightarrow> two_tx) \<Rightarrow> (tlm_response \<Rightarrow> bool) \<Rightarrow>
    (two_tx, 'd) b_transport \<Rightarrow> u32 \<times> u32 \<times> u32 \<Rightarrow> llsc \<times> two_tx heap \<times> 'd \<Rightarrow>
    (bool \<times> llsc \<times> two_tx heap \<times> 'd) option" where
  "two_llsc_iter fresh reset is_error socket r x = do {
     (t, s, h) \<leftarrow> two_llsc_send fresh r (fst x) (fst (snd x));
     (tr, delay, d) \<leftarrow> socket (txs h t) (ls_delay s) (snd (snd x));
     (rep, s, h) \<leftarrow> two_llsc_finish reset is_error t delay s (put_tx t tr h);
     Some (rep, s, h, d)
   }"

section \<open>An iteration of a thread\<close>

text \<open>
  What the library does to a transaction: a new one has no extension, \<^verbatim>\<open>reset()\<close> takes the guards off
  and keeps the sticky data.
\<close>

definition two_idle :: "two_tx \<Rightarrow> bool" where
  "two_idle tr \<longleftrightarrow> lock_guard tr = None \<and> link_guard tr = None \<and> (\<forall>e. lock_data tr = Some e \<longrightarrow> dx_id e = 0)"

definition two_library :: "two_tx \<Rightarrow> (two_tx \<Rightarrow> two_tx) \<Rightarrow> bool" where
  "two_library fresh reset \<longleftrightarrow>
     lock_guard fresh = None \<and> lock_data fresh = None \<and> link_guard fresh = None \<and> link_data fresh = None \<and>
     (\<forall>tr. lock_guard (reset tr) = None \<and> link_guard (reset tr) = None \<and>
       lock_data (reset tr) = lock_data tr \<and> link_data (reset tr) = link_data tr)"

lemma two_fresh_idle: "two_library fresh reset \<Longrightarrow> two_idle fresh"
  by (simp add: two_library_def two_idle_def)

lemma two_idle_plain: "two_idle tr \<Longrightarrow> two_lock_command tr = Plain \<and> two_link_command tr = Ordinary"
  by (simp add: two_idle_def two_lock_command_def two_link_command_def)

lemma two_release_first:
  assumes "two_library fresh reset" and "heap_ok two_idle (t # live) h"
    and "\<forall>e. lock_data (txs h t) = Some e \<longrightarrow> dx_id e = 0"
  shows "\<exists>h'. heap_free reset t h = Some h' \<and> heap_ok two_idle live h'"
  using heap_free_ok[OF assms(2), of 0 reset] assms(1,3) by (auto simp: two_library_def two_idle_def)

lemma two_fill_exts [simp]:
  "lock_guard (rmw_fill s tr) = lock_guard tr" "link_guard (rmw_fill s tr) = link_guard tr"
  "lock_data (rmw_fill s tr) = lock_data tr" "link_data (rmw_fill s tr) = link_data tr"
  "lock_guard (llsc_fill z tr) = lock_guard tr" "link_guard (llsc_fill z tr) = link_guard tr"
  "lock_data (llsc_fill z tr) = lock_data tr" "link_data (llsc_fill z tr) = link_data tr"
  by (simp_all add: rmw_fill_def llsc_fill_def)

lemma two_rmw_send_ok:
  assumes "two_library fresh reset" and "heap_ok two_idle live h"
  shows "\<exists>t h' tr e. two_rmw_send fresh r s h = Some (t, rmw_next r s, h') \<and> heap_ok two_idle (t # live) h' \<and>
    txs h' t = rmw_fill (rmw_next r s) tr \<and> lock_guard tr = Some Lock_Guard \<and> lock_data tr = Some e \<and>
    dx_lock e = even (rm_i s) \<and> dx_id e = 0"
proof -
  obtain t h1 where a: "heap_allocate fresh h = Some (t, h1)" "heap_ok two_idle (t # live) h1" "two_idle (txs h1 t)"
    using heap_allocate_ok[OF assms(2) two_fresh_idle[OF assms(1)]] by blast
  let ?e = "case lock_data (txs h1 t) of None \<Rightarrow> new_lock_data_ext | Some e \<Rightarrow> e"
  let ?tr = "(txs h1 t)\<lparr>lock_guard := Some Lock_Guard, lock_data := Some (?e\<lparr>dx_lock := even (rm_i s)\<rparr>)\<rparr>"
  have "two_rmw_send fresh r s h = Some (t, rmw_next r s, put_tx t (rmw_fill (rmw_next r s) ?tr) h1)"
    using a(1) by (simp add: two_rmw_send_def rmw_next_def Let_def)
  moreover have "dx_id ?e = 0" using a(3) by (simp add: two_idle_def new_lock_data_ext_def split: option.split)
  ultimately show ?thesis
    using heap_ok_put[OF a(2), of t "rmw_fill (rmw_next r s) ?tr"] by auto
qed

lemma two_llsc_send_ok:
  assumes "two_library fresh reset" and "heap_ok two_idle live h"
  shows "\<exists>t h' tr e. two_llsc_send fresh r s h = Some (t, llsc_next r s, h') \<and> heap_ok two_idle (t # live) h' \<and>
    txs h' t = llsc_fill (llsc_next r s) tr \<and> link_guard tr = Some Link_Guard \<and> link_data tr = Some e \<and>
    dlx_cmd e = (if even (ls_i s) then TWO_LOAD_LINK else TWO_STORE_CONDITIONAL) \<and>
    (\<forall>e. lock_data tr = Some e \<longrightarrow> dx_id e = 0)"
proof -
  obtain t h1 where a: "heap_allocate fresh h = Some (t, h1)" "heap_ok two_idle (t # live) h1" "two_idle (txs h1 t)"
    using heap_allocate_ok[OF assms(2) two_fresh_idle[OF assms(1)]] by blast
  let ?e = "case link_data (txs h1 t) of None \<Rightarrow> new_link_data_ext | Some e \<Rightarrow> e"
  let ?c = "if even (ls_i s) then TWO_LOAD_LINK else TWO_STORE_CONDITIONAL"
  let ?tr = "(txs h1 t)\<lparr>link_guard := Some Link_Guard, link_data := Some (?e\<lparr>dlx_cmd := ?c\<rparr>)\<rparr>"
  have "two_llsc_send fresh r s h = Some (t, llsc_next r s, put_tx t (llsc_fill (llsc_next r s) ?tr) h1)"
    using a(1) by (simp add: two_llsc_send_def llsc_next_def Let_def)
  then show ?thesis
    using heap_ok_put[OF a(2), of t "llsc_fill (llsc_next r s) ?tr"] a(3) by (auto simp: two_idle_def)
qed

lemma two_served_exts [simp]:
  "lock_guard (rmw_served p s tr) = lock_guard tr" "link_guard (rmw_served p s tr) = link_guard tr"
  "lock_guard (llsc_served p z tr) = lock_guard tr" "link_guard (llsc_served p z tr) = link_guard tr"
  "lock_data (rmw_served p s tr) = lock_data tr" "link_data (rmw_served p s tr) = link_data tr"
  "lock_data (llsc_served p z tr) = lock_data tr" "link_data (llsc_served p z tr) = link_data tr"
  by (simp_all add: rmw_served_def llsc_served_def)

lemma two_rmw_iter_round:
  assumes lib: "two_library fresh reset" and err: "error_test is_error" and hp: "heap_ok two_idle live h"
  shows "\<exists>s' h' m'. two_rmw_iter fresh reset is_error (two_lock_b_transport lock_target_b_transport) r (s, h, m, ()) =
      Some (odd (rm_i s) \<and> \<not> rmw_passes r (s, table_of m), s', h', m', ()) \<and>
    (s', table_of m') = rmw_round r (s, table_of m) \<and> heap_ok two_idle live h'"
proof -
  let ?s = "rmw_next r s"
  obtain t h1 tr e where send: "two_rmw_send fresh r s h = Some (t, ?s, h1)"
    and h1: "heap_ok two_idle (t # live) h1" and x: "txs h1 t = rmw_fill ?s tr"
    and tr: "lock_guard tr = Some Lock_Guard" "lock_data tr = Some e" "dx_lock e = even (rm_i s)" "dx_id e = 0"
    using two_rmw_send_ok[OF lib hp, of r s] by blast
  have c: "two_lock_command (rmw_fill ?s tr) = rmw_command ?s" "address (rmw_fill ?s tr) = scast (rm_addr ?s)"
    using tr by (simp_all add: two_lock_command_def rmw_command_def) (simp add: rmw_fill_def)
  have ok: "two_lock_ok (rmw_fill ?s tr)" using tr by (simp add: two_lock_ok_def)
  obtain pass y m' where g: "two_lock_gate (rmw_fill ?s tr) m = Some (pass, y, m')"
    using two_lock.gate_total[OF ok, of m] by blast
  have rule: "lock_rule (rmw_command ?s) (scast (rm_addr ?s)) (table_of m) = (pass, table_of m')"
    using two_lock.gate_rule[OF ok g] c by simp
  have b: "two_lock_b_transport lock_target_b_transport (rmw_fill ?s tr) (rm_delay s) (m, ()) =
      Some (rmw_served pass ?s tr, if pass then rm_delay s + LATENCY else rm_delay s, m', ())"
    unfolding two_lock_b_transport_def
    using g two_lock.gate_trans[OF ok g] by (intro gated_rmw) (simp_all add: two_bounce_def)
  obtain h' where h': "heap_free reset t (put_tx t (rmw_served pass ?s tr) h1) = Some h'" "heap_ok two_idle live h'"
    using two_release_first[OF lib heap_ok_put[OF h1], of t "rmw_served pass ?s tr"] tr by auto
  have "(rmw_after (even (rm_i s)) (rmw_served pass ?s tr) (if pass then rm_delay s + LATENCY else rm_delay s) ?s, table_of m') =
      rmw_round r (s, table_of m)"
    using rmw_after_round[OF rule refl _ _ refl, of "rmw_served pass ?s tr"] by simp
  moreover have "rmw_passes r (s, table_of m) = pass" using rule by (simp add: rmw_passes_def)
  ultimately show ?thesis
    using send x b h' tr err by (auto simp: two_rmw_iter_def two_rmw_finish_def reported_def error_test_def)
qed

lemma two_llsc_iter_round:
  assumes lib: "two_library fresh reset" and err: "error_test is_error" and hp: "heap_ok two_idle live h"
  shows "\<exists>s' h' m'. two_llsc_iter fresh reset is_error (two_link_b_transport lock_target_b_transport) r (s, h, m, ()) =
      Some (False, s', h', m', ()) \<and>
    (s', Collect m') = llsc_round r (s, Collect m) \<and> heap_ok two_idle live h'"
proof -
  let ?s = "llsc_next r s" and ?k = "if even (ls_i s) then TLM_READ_COMMAND else TLM_WRITE_COMMAND"
  obtain t h1 tr e where send: "two_llsc_send fresh r s h = Some (t, ?s, h1)"
    and h1: "heap_ok two_idle (t # live) h1" and x: "txs h1 t = llsc_fill ?s tr"
    and tr: "link_guard tr = Some Link_Guard" "link_data tr = Some e"
      "dlx_cmd e = (if even (ls_i s) then TWO_LOAD_LINK else TWO_STORE_CONDITIONAL)"
      "\<forall>e. lock_data tr = Some e \<longrightarrow> dx_id e = 0"
    using two_llsc_send_ok[OF lib hp, of r s] by blast
  have c: "(two_link_command (llsc_fill ?s tr), command (llsc_fill ?s tr), address (llsc_fill ?s tr)) =
      (llsc_command ?s, ?k, scast (ls_addr ?s))"
    using tr by (simp add: two_link_command_def llsc_command_def) (simp add: llsc_fill_def)
  have ok: "two_link_ok (llsc_fill ?s tr)" using tr by (simp add: two_link_ok_def)
  obtain pass y m' where g: "two_link_gate (llsc_fill ?s tr) m = Some (pass, y, m')"
    using two_link.gate_total[OF ok, of m] by blast
  have rule: "link_rule (llsc_command ?s) ?k (scast (ls_addr ?s)) (Collect m) = (pass, Collect m')"
    using two_link.gate_rule[OF ok g c] by simp
  have b: "two_link_b_transport lock_target_b_transport (llsc_fill ?s tr) (ls_delay s) (m, ()) =
      Some (llsc_served pass ?s tr, if pass then ls_delay s + LATENCY else ls_delay s, m', ())"
    unfolding two_link_b_transport_def
    using g two_link.gate_trans[OF ok g] by (intro gated_llsc) (simp_all add: two_bounce_def)
  obtain h' where h': "heap_free reset t (put_tx t (llsc_served pass ?s tr) h1) = Some h'" "heap_ok two_idle live h'"
    using two_release_first[OF lib heap_ok_put[OF h1], of t "llsc_served pass ?s tr"] tr by auto
  have "(llsc_after (odd (ls_i s)) (llsc_served pass ?s tr) (if pass then ls_delay s + LATENCY else ls_delay s) ?s, Collect m') =
      llsc_round r (s, Collect m)"
    using llsc_after_round[OF rule refl _ _ refl, of "llsc_served pass ?s tr"] by simp
  moreover have "pass" if "even (ls_i s)" using rule that by (simp add: llsc_command_def)
  ultimately show ?thesis
    using send x b h' tr err
    by (cases "even (ls_i s)") (auto simp: two_llsc_iter_def two_llsc_finish_def reported_def error_test_def)
qed

end
