(* ===== verification/Locking.thy ===== *)
theory Locking
  imports Lock_Sticky Lock_Auto Lock_Two
begin

text \<open>
  The locking example as a whole: what the interconnects guarantee to the initiators, that the three ways of
  attaching a command to a transaction behave alike, and what the two threads of the initiator make of them.
\<close>

section \<open>The interconnects\<close>

text \<open>C9: as long as an address is locked, every transaction for it that cannot lift the lock (plain, locking, or
  unlocking with an identity other than that of the holder) comes back with \<^verbatim>\<open>TLM_COMMAND_ERROR_RESPONSE\<close>
  and its delay unchanged, whatever else passes through the interconnect, and the lock is still held.\<close>
theorem locked_address_is_exclusive:
  assumes "serve sticky_lock_gate down ts (s, d) = Some (rs, s', d')"
    and "lock_map s a" and "lock_id s a = i"
    and "\<forall>(t, dl) \<in> set ts. \<not> lifts i a (sticky_lock_command t, address t)"
  shows "lock_map s' a \<and> lock_id s' a = i \<and>
    (\<forall>k < length ts. address (fst (ts ! k)) = a \<longrightarrow>
       rs ! k = ((fst (ts ! k))\<lparr>response := TLM_COMMAND_ERROR_RESPONSE\<rparr>, snd (ts ! k)))"
proof -
  have "table_of s a = Some i" using assms(2,3) by (simp add: table_of_def)
  moreover have "True \<and> \<not> lifts i a (sticky_lock_command t, address t)" if "(t, dl) \<in> set ts" for t dl
    using assms(4) that by auto
  ultimately have "table_of s' a = Some i \<and> (\<forall>k < length ts. address (fst (ts ! k)) = a \<longrightarrow>
      rs ! k = (sticky_bounce (fst (ts ! k)), snd (ts ! k)))"
    by (rule sticky_lock.exclusion[OF assms(1)])
  then show ?thesis by (simp add: table_of_def sticky_bounce_def split: if_splits)
qed

definition plain_tx :: "tlm_command \<Rightarrow> u64 \<Rightarrow> sticky_tx" where
  "plain_tx c a = \<lparr>command = c, address = a, data = [0, 0, 0, 0], data_length = 4, byte_enable = False,
     streaming_width = 4, dmi_allowed = False, response = TLM_INCOMPLETE_RESPONSE, manager = Pool_Manager,
     lock_ext = None, link_ext = None\<rparr>"

theorem locked_address_is_exclusive_witness:
  "\<exists>rs s'. serve sticky_lock_gate lock_target_b_transport
      [(plain_tx TLM_WRITE_COMMAND 0x400, 0), (plain_tx TLM_READ_COMMAND 0x404, 0)]
      (\<lparr>lock_map = (\<lambda>a. a = 0x400), lock_id = (\<lambda>_. 7)\<rparr>, ()) = Some (rs, s', ()) \<and>
    lock_map s' 0x400 \<and> rs ! 0 = ((plain_tx TLM_WRITE_COMMAND 0x400)\<lparr>response := TLM_COMMAND_ERROR_RESPONSE\<rparr>, 0)"
proof -
  let ?ts = "[(plain_tx TLM_WRITE_COMMAND 0x400, 0), (plain_tx TLM_READ_COMMAND 0x404, 0)] :: (sticky_tx \<times> sc_time) list"
  obtain rs s' where r: "serve sticky_lock_gate lock_target_b_transport ?ts
      (\<lparr>lock_map = (\<lambda>a. a = 0x400), lock_id = (\<lambda>_. 7)\<rparr>, ()) = Some (rs, s', ())"
    by (simp add: gate_b_transport_def sticky_lock_gate_def sticky_locked_def plain_tx_def Let_def
        lock_target_b_transport_def sticky_bounce_def)
  have "\<forall>(t, dl) \<in> set ?ts. \<not> lifts 7 0x400 (sticky_lock_command t, address t)"
    by (simp add: lifts_def sticky_lock_command_def plain_tx_def)
  from locked_address_is_exclusive[OF r _ _ this] have e: "lock_map s' 0x400"
    by simp
  from locked_address_is_exclusive[OF r _ _ \<open>\<forall>(t, dl) \<in> set ?ts. \<not> lifts 7 0x400 (sticky_lock_command t, address t)\<close>]
  have "\<forall>k < length ?ts. address (fst (?ts ! k)) = 0x400 \<longrightarrow>
       rs ! k = ((fst (?ts ! k))\<lparr>response := TLM_COMMAND_ERROR_RESPONSE\<rparr>, snd (?ts ! k))"
    by (simp del: length_Cons)
  from this[rule_format, of 0]
  have "rs ! 0 = ((plain_tx TLM_WRITE_COMMAND 0x400)\<lparr>response := TLM_COMMAND_ERROR_RESPONSE\<rparr>, 0)"
    by (simp add: plain_tx_def)
  with r e show ?thesis by blast
qed

text \<open>C8: a store-conditional reaches the target exactly when a load-link for its address came after every write
  and every store-conditional for that address; otherwise it comes back with
  \<^verbatim>\<open>TLM_COMMAND_ERROR_RESPONSE\<close> and the target never sees it.\<close>
theorem store_conditional_iff_linked:
  assumes "serve auto_link_gate down ts (\<lambda>_. False, d0) = Some (rs, s, d)"
    and "auto_link_command t = Conditional"
  shows "\<exists>s'. auto_link_b_transport down t dl (s, d) =
     (if linked (address t) (map (\<lambda>(t, dl). (auto_link_command t, command t, address t)) ts)
      then map_option (\<lambda>(t', dl', d'). (t', dl', s', d')) (down t dl d)
      else Some (t\<lparr>response := TLM_COMMAND_ERROR_RESPONSE\<rparr>, dl, s', d))"
proof -
  have *: "map (\<lambda>(t, dl). (auto_link_command t, command t, address t)) ts =
      map ((\<lambda>t. (auto_link_command t, command t, address t)) \<circ> fst) ts" by auto
  show ?thesis
    unfolding auto_link_b_transport_def * auto_bounce_def [symmetric]
    by (rule auto_link.conditional[OF assms(1)]) (simp_all add: assms(2))
qed

definition link_tx :: "auto_link_cmd option \<Rightarrow> tlm_command \<Rightarrow> auto_tx" where
  "link_tx l c = \<lparr>command = c, address = 0x500, data = [0, 0, 0, 0], data_length = 4, byte_enable = False,
     streaming_width = 4, dmi_allowed = False, response = TLM_INCOMPLETE_RESPONSE, manager = Pool_Manager,
     a_lock = None, a_link = map_option (\<lambda>c. \<lparr>allx_cmd = c\<rparr>) l\<rparr>"

theorem store_conditional_iff_linked_witness:
  "\<exists>rs s s'. serve auto_link_gate lock_target_b_transport
      [(link_tx (Some AUTO_LOAD_LINK) TLM_READ_COMMAND, 0), (link_tx None TLM_WRITE_COMMAND, 0)] (\<lambda>_. False, ()) =
      Some (rs, s, ()) \<and>
    auto_link_b_transport lock_target_b_transport (link_tx (Some AUTO_STORE_CONDITIONAL) TLM_WRITE_COMMAND) 5 (s, ()) =
      Some ((link_tx (Some AUTO_STORE_CONDITIONAL) TLM_WRITE_COMMAND)\<lparr>response := TLM_COMMAND_ERROR_RESPONSE\<rparr>, 5, s', ())"
proof -
  let ?ts = "[(link_tx (Some AUTO_LOAD_LINK) TLM_READ_COMMAND, 0), (link_tx None TLM_WRITE_COMMAND, 0)] :: (auto_tx \<times> sc_time) list"
  let ?t = "link_tx (Some AUTO_STORE_CONDITIONAL) TLM_WRITE_COMMAND"
  obtain rs s where r: "serve auto_link_gate lock_target_b_transport ?ts (\<lambda>_. False, ()) = Some (rs, s, ())"
    by (simp add: gate_b_transport_def auto_link_gate_def auto_linked_def link_tx_def Let_def lock_target_b_transport_def)
  have "auto_link_command ?t = Conditional" by (simp add: auto_link_command_def link_tx_def)
  moreover have "\<not> linked (address ?t) (map (\<lambda>(t, dl). (auto_link_command t, command t, address t)) ?ts)"
    using linked_snoc[of "address ?t" "[(Link, TLM_READ_COMMAND, 0x500)]" "(Ordinary, TLM_WRITE_COMMAND, 0x500)"]
    by (simp add: link_tx_def auto_link_command_def sets_link_def clears_def)
  ultimately show ?thesis
    using store_conditional_iff_linked[OF r, of ?t 5] r by fastforce
qed

text \<open>C36: the three variants of both interconnects take the same decision and change their tables alike, when a
  transaction carries the same command for the same address.\<close>
theorem interconnect_variants_agree:
  assumes "two_lock_ok t2" and "two_link_ok t2" and "table_of m1 = table_of m2" and "table_of m2 = table_of m3"
    and "sticky_lock_command t1 = two_lock_command t2" and "auto_lock_command t3 = two_lock_command t2"
    and "sticky_link_command t1 = two_link_command t2" and "auto_link_command t3 = two_link_command t2"
    and "command t1 = command t2" and "command t3 = command t2" and "address t1 = address t2" and "address t3 = address t2"
  shows "\<exists>p n1 n2 n3 q k.
    sticky_lock_gate t1 m1 = Some (p, if p then t1 else sticky_bounce t1, n1) \<and>
    two_lock_gate t2 m2 = Some (p, if p then t2 else two_bounce t2, n2) \<and>
    auto_lock_gate t3 m3 = Some (p, if p then t3 else auto_bounce t3, n3) \<and>
    table_of n1 = table_of n2 \<and> table_of n2 = table_of n3 \<and>
    sticky_link_gate t1 l = Some (q, if q then t1 else sticky_bounce t1, k) \<and>
    two_link_gate t2 l = Some (q, if q then t2 else two_bounce t2, k) \<and>
    auto_link_gate t3 l = Some (q, if q then t3 else auto_bounce t3, k)"
proof -
  obtain p1 x1 n1 where g1: "sticky_lock_gate t1 m1 = Some (p1, x1, n1)" using sticky_lock.gate_total by blast
  obtain p2 x2 n2 where g2: "two_lock_gate t2 m2 = Some (p2, x2, n2)" using two_lock.gate_total[OF assms(1)] by blast
  obtain p3 x3 n3 where g3: "auto_lock_gate t3 m3 = Some (p3, x3, n3)" using auto_lock.gate_total by blast
  obtain q1 y1 k1 where h1: "sticky_link_gate t1 l = Some (q1, y1, k1)" using sticky_link.gate_total by blast
  obtain q2 y2 k2 where h2: "two_link_gate t2 l = Some (q2, y2, k2)" using two_link.gate_total[OF assms(2)] by blast
  obtain q3 y3 k3 where h3: "auto_link_gate t3 l = Some (q3, y3, k3)" using auto_link.gate_total by blast
  have "(p1, table_of n1) = (p2, table_of n2)" "(p3, table_of n3) = (p2, table_of n2)"
    using sticky_lock.gate_rule[OF _ g1] two_lock.gate_rule[OF assms(1) g2] auto_lock.gate_rule[OF _ g3] assms by simp_all
  moreover have "(q1, Collect k1) = (q2, Collect k2)" "(q3, Collect k3) = (q2, Collect k2)"
    using sticky_link.gate_rule[OF _ h1 refl] two_link.gate_rule[OF assms(2) h2 refl] auto_link.gate_rule[OF _ h3 refl] assms
    by simp_all
  then have "q1 = q2" "q3 = q2" "k1 = k2" "k3 = k2" by (simp_all add: Collect_inj)
  ultimately show ?thesis
    using g1 g2 g3 h1 h2 h3 sticky_lock.gate_trans[OF _ g1] two_lock.gate_trans[OF assms(1) g2] auto_lock.gate_trans[OF _ g3]
      sticky_link.gate_trans[OF _ h1] two_link.gate_trans[OF assms(2) h2] auto_link.gate_trans[OF _ h3] by auto
qed

definition two_tx_of :: "lock_data_ext option \<Rightarrow> two_tx" where
  "two_tx_of l = \<lparr>command = TLM_READ_COMMAND, address = 0x400, data = [0, 0, 0, 0], data_length = 4, byte_enable = False,
     streaming_width = 4, dmi_allowed = False, response = TLM_INCOMPLETE_RESPONSE, manager = Pool_Manager,
     lock_guard = map_option (\<lambda>_. Lock_Guard) l, lock_data = l, link_guard = None, link_data = None\<rparr>"

definition auto_tx_of :: "auto_lock_ext option \<Rightarrow> auto_tx" where
  "auto_tx_of l = \<lparr>command = TLM_READ_COMMAND, address = 0x400, data = [0, 0, 0, 0], data_length = 4, byte_enable = False,
     streaming_width = 4, dmi_allowed = False, response = TLM_INCOMPLETE_RESPONSE, manager = Pool_Manager,
     a_lock = l, a_link = None\<rparr>"

theorem interconnect_variants_agree_witness:
  "\<exists>t1 t2 t3 p n1 n2. two_lock_command t2 = Lock 3 \<and>
     sticky_lock_gate t1 no_locks = Some (p, if p then t1 else sticky_bounce t1, n1) \<and>
     two_lock_gate t2 no_locks = Some (p, if p then t2 else two_bounce t2, n2) \<and> table_of n1 = table_of n2"
proof -
  let ?t1 = "(plain_tx TLM_READ_COMMAND 0x400)\<lparr>lock_ext := Some \<lparr>lx_lock = True, lx_id = 3, lx_valid = True\<rparr>\<rparr>"
  let ?t2 = "two_tx_of (Some \<lparr>dx_lock = True, dx_id = 3\<rparr>)" and ?t3 = "auto_tx_of (Some \<lparr>alx_lock = True, alx_id = 3\<rparr>)"
  have c: "two_lock_command ?t2 = Lock 3" by (simp add: two_lock_command_def two_tx_of_def)
  have "\<exists>p n1 n2 n3 q k.
    sticky_lock_gate ?t1 no_locks = Some (p, if p then ?t1 else sticky_bounce ?t1, n1) \<and>
    two_lock_gate ?t2 no_locks = Some (p, if p then ?t2 else two_bounce ?t2, n2) \<and>
    auto_lock_gate ?t3 no_locks = Some (p, if p then ?t3 else auto_bounce ?t3, n3) \<and>
    table_of n1 = table_of n2 \<and> table_of n2 = table_of n3 \<and>
    sticky_link_gate ?t1 (\<lambda>_. False) = Some (q, if q then ?t1 else sticky_bounce ?t1, k) \<and>
    two_link_gate ?t2 (\<lambda>_. False) = Some (q, if q then ?t2 else two_bounce ?t2, k) \<and>
    auto_link_gate ?t3 (\<lambda>_. False) = Some (q, if q then ?t3 else auto_bounce ?t3, k)"
    by (rule interconnect_variants_agree)
      (simp_all add: two_lock_ok_def two_link_ok_def two_tx_of_def auto_tx_of_def plain_tx_def sticky_lock_command_def
        two_lock_command_def auto_lock_command_def sticky_link_command_def two_link_command_def auto_link_command_def)
  with c show ?thesis by blast
qed

section \<open>The threads of the initiator\<close>

text \<open>C24: an iteration of \<^verbatim>\<open>thread_process_1\<close> in front of its interconnect and target never fails (no
  assertion, no null pointer), leaves no transaction in the pool that could be taken for a lock command, and
  in all three variants has the same effect on the thread, the lock table and the error report: the one of
  \<open>rmw_round\<close>.\<close>
theorem rmw_thread_refines_round:
  assumes "sticky_library f1 r1" and "auto_library f2 r2" and "two_library f3 r3" and "error_test is_error"
    and "heap_ok sticky_idle l1 h1" and "heap_ok auto_idle l2 h2" and "heap_ok two_idle l3 h3"
    and "table_of m1 = T" and "table_of m2 = T" and "table_of m3 = T"
  shows "\<exists>rep s' T' h1' h2' h3' m1' m2' m3'. (s', T') = rmw_round r (s, T) \<and>
    (rep \<longleftrightarrow> odd (rm_i s) \<and> \<not> rmw_passes r (s, T)) \<and>
    sticky_rmw_iter f1 r1 is_error (sticky_lock_b_transport lock_target_b_transport) r (s, h1, m1, ()) =
      Some (rep, s', h1', m1', ()) \<and> table_of m1' = T' \<and> heap_ok sticky_idle l1 h1' \<and>
    auto_rmw_iter f2 r2 is_error (auto_lock_b_transport lock_target_b_transport) r (s, h2, m2, ()) =
      Some (rep, s', h2', m2', ()) \<and> table_of m2' = T' \<and> heap_ok auto_idle l2 h2' \<and>
    two_rmw_iter f3 r3 is_error (two_lock_b_transport lock_target_b_transport) r (s, h3, m3, ()) =
      Some (rep, s', h3', m3', ()) \<and> table_of m3' = T' \<and> heap_ok two_idle l3 h3'"
proof -
  obtain s' T' where R: "rmw_round r (s, T) = (s', T')" by fastforce
  show ?thesis
    using sticky_rmw_iter_round[OF assms(1,4,5), of r s m1] auto_rmw_iter_round[OF assms(2,4,6), of r s m2]
      two_rmw_iter_round[OF assms(3,4,7), of r s m3] R assms(8-10)
    by auto
qed

text \<open>C25: an iteration of \<^verbatim>\<open>thread_process_2\<close> never fails and never reports an error, leaves no transaction
  in the pool that could be taken for a load-link or store-conditional, and has in all three variants the effect
  of \<open>llsc_round\<close> on the thread and the links.\<close>
theorem llsc_thread_refines_round:
  assumes "sticky_library f1 r1" and "auto_library f2 r2" and "two_library f3 r3" and "error_test is_error"
    and "heap_ok sticky_idle l1 h1" and "heap_ok auto_idle l2 h2" and "heap_ok two_idle l3 h3"
  shows "\<exists>s' L' h1' h2' h3'. (s', Collect L') = llsc_round r (s, Collect L) \<and>
    sticky_llsc_iter f1 r1 is_error (sticky_link_b_transport lock_target_b_transport) r (s, h1, L, ()) =
      Some (False, s', h1', L', ()) \<and> heap_ok sticky_idle l1 h1' \<and>
    auto_llsc_iter f2 r2 is_error (auto_link_b_transport lock_target_b_transport) r (s, h2, L, ()) =
      Some (False, s', h2', L', ()) \<and> heap_ok auto_idle l2 h2' \<and>
    two_llsc_iter f3 r3 is_error (two_link_b_transport lock_target_b_transport) r (s, h3, L, ()) =
      Some (False, s', h3', L', ()) \<and> heap_ok two_idle l3 h3'"
proof -
  obtain s' L' where R: "llsc_round r (s, Collect L) = (s', Collect L')"
    by (metis Collect_mem_eq surj_pair)
  show ?thesis
    using sticky_llsc_iter_round[OF assms(1,4,5), of r s L] auto_llsc_iter_round[OF assms(2,4,6), of r s L]
      two_llsc_iter_round[OF assms(3,4,7), of r s L] R
    by (auto simp: Collect_inj)
qed

text \<open>A library, and the initial state of each variant.\<close>

definition sticky_fresh :: sticky_tx where "sticky_fresh = plain_tx TLM_IGNORE_COMMAND 0"

definition auto_reset :: "auto_tx \<Rightarrow> auto_tx" where "auto_reset tr = tr\<lparr>a_lock := None, a_link := None\<rparr>"

definition two_reset :: "two_tx \<Rightarrow> two_tx" where "two_reset tr = tr\<lparr>lock_guard := None, link_guard := None\<rparr>"

definition not_ok :: "tlm_response \<Rightarrow> bool" where "not_ok r = (r \<noteq> TLM_OK_RESPONSE)"

lemma libraries:
  "sticky_library sticky_fresh (\<lambda>tr. tr)" "auto_library (auto_tx_of None) auto_reset"
  "two_library (two_tx_of None) two_reset" "error_test not_ok" "table_of no_locks = Map.empty"
  by (auto simp: sticky_library_def sticky_fresh_def plain_tx_def auto_library_def auto_tx_of_def auto_reset_def
      two_library_def two_tx_of_def two_reset_def error_test_def not_ok_def table_of_def no_locks_def)

theorem rmw_thread_refines_round_witness:
  "\<exists>s' h m. sticky_rmw_iter sticky_fresh (\<lambda>tr. tr) not_ok (sticky_lock_b_transport lock_target_b_transport) (7, 0, 0)
      (rmw_start [], new_heap sticky_fresh, no_locks, ()) = Some (False, s', h, m, ()) \<and> table_of m 0x404 = Some 0"
proof -
  have *: "(s', T') = rmw_round (7, 0, 0) (rmw_start [], Map.empty) \<Longrightarrow> T' 0x404 = Some 0" for s' T'
    by (simp add: rmw_round_def rmw_next_def rmw_address_def rmw_data_def rmw_start_def rmw_command_def Let_def)
  show ?thesis
    using rmw_thread_refines_round[OF libraries(1-4) heap_ok_new heap_ok_new heap_ok_new libraries(5) libraries(5) libraries(5),
        of "(7, 0, 0)" "rmw_start []" sticky_fresh "auto_tx_of None" "two_tx_of None"] *
    by (fastforce simp: rmw_start_def)
qed

theorem llsc_thread_refines_round_witness:
  "\<exists>s' h L. two_llsc_iter (two_tx_of None) two_reset not_ok (two_link_b_transport lock_target_b_transport) (7, 0, 0)
      (llsc_start [], new_heap (two_tx_of None), \<lambda>_. False, ()) = Some (False, s', h, L, ()) \<and> L 0x504"
proof -
  have *: "(s', Collect L') = llsc_round (7, 0, 0) (llsc_start [], Collect (\<lambda>_. False)) \<Longrightarrow> L' 0x504" for s' L'
    by (simp add: llsc_round_def llsc_next_def llsc_address_def llsc_data_def llsc_start_def llsc_command_def Let_def
        set_eq_iff)
  show ?thesis
    using llsc_thread_refines_round[OF libraries(1-4) heap_ok_new heap_ok_new heap_ok_new,
        of "(7, 0, 0)" "llsc_start []" "\<lambda>_. False" sticky_fresh "auto_tx_of None" "two_tx_of None"] *
    by fastforce
qed

definition rmw_target_address :: "u32 \<times> u32 \<times> u32 \<Rightarrow> u64" where
  "rmw_target_address r = scast (0x400 OR ((fst r mod 256) AND 0xFC) :: i32)"

lemma rmw_locking_round:
  assumes "even (rm_i s)" and "next_read s" and "T (rmw_target_address r) = None"
  shows "\<exists>s'. rmw_round r (s, T) = (s', T(rmw_target_address r \<mapsto> 0)) \<and> next_read s' \<and> rm_i s' = rm_i s + 1"
  using assms
  by (simp add: rmw_round_def rmw_next_def rmw_address_def rmw_data_def rmw_command_def rmw_target_address_def Let_def)

lemma rmw_unlocking_round:
  assumes "odd (rm_i s)" and "next_read s" and "a \<noteq> rmw_target_address r"
  shows "\<exists>s' T'. rmw_round r (s, T) = (s', T') \<and> T' a = T a \<and> scast (rm_addr s') = rmw_target_address r"
  using assms
  by (auto simp: rmw_round_def rmw_next_def rmw_address_def rmw_data_def rmw_command_def rmw_target_address_def Let_def
      split: option.splits)

text \<open>the read-modify-write thread does not unlock what it locked: after a successful locking read it draws a
  new address before the unlocking write, so the write goes to that new address and the lock it took stays
  in place (unless the two random addresses happen to be equal).\<close>
theorem rmw_lock_is_not_released:
  assumes "sticky_library fresh reset" and "error_test is_error" and "heap_ok sticky_idle live h"
    and "even (rm_i s)" and "next_read s" and "\<not> lock_map m (rmw_target_address r1)"
    and "rmw_target_address r1 \<noteq> rmw_target_address r2"
  shows "\<exists>s1 h1 m1 rep s2 h2 m2.
    sticky_rmw_iter fresh reset is_error (sticky_lock_b_transport lock_target_b_transport) r1 (s, h, m, ()) =
      Some (False, s1, h1, m1, ()) \<and>
    sticky_rmw_iter fresh reset is_error (sticky_lock_b_transport lock_target_b_transport) r2 (s1, h1, m1, ()) =
      Some (rep, s2, h2, m2, ()) \<and>
    lock_map m1 (rmw_target_address r1) \<and> lock_map m2 (rmw_target_address r1) \<and>
    scast (rm_addr s2) = rmw_target_address r2 \<and> rm_i s2 = rm_i s + 2"
proof -
  have free: "table_of m (rmw_target_address r1) = None" using assms(6) by (simp add: table_of_def)
  obtain s1' where R1: "rmw_round r1 (s, table_of m) = (s1', (table_of m)(rmw_target_address r1 \<mapsto> 0))"
    and s1': "next_read s1'" "rm_i s1' = rm_i s + 1"
    using rmw_locking_round[of s "table_of m" r1, OF assms(4,5) free] by blast
  obtain s1 h1 m1 where i1: "sticky_rmw_iter fresh reset is_error (sticky_lock_b_transport lock_target_b_transport) r1
      (s, h, m, ()) = Some (False, s1, h1, m1, ())"
    and r1: "(s1, table_of m1) = rmw_round r1 (s, table_of m)" and ok1: "heap_ok sticky_idle live h1"
    using sticky_rmw_iter_round[OF assms(1-3), of r1 s m] assms(4) by auto
  have s1: "s1 = s1'" "table_of m1 (rmw_target_address r1) = Some 0" using r1 R1 by simp_all
  have odd: "odd (rm_i s1)" using s1 s1' assms(4) by simp
  obtain s2 T2 where R2: "rmw_round r2 (s1, table_of m1) = (s2, T2)" "T2 (rmw_target_address r1) = Some 0"
    "scast (rm_addr s2) = rmw_target_address r2"
    using rmw_unlocking_round[of s1 "rmw_target_address r1" r2 "table_of m1"] odd s1 s1' assms(7) by auto
  moreover obtain rep s2' h2 m2 where i2: "sticky_rmw_iter fresh reset is_error
      (sticky_lock_b_transport lock_target_b_transport) r2 (s1, h1, m1, ()) = Some (rep, s2', h2, m2, ())"
    and r2: "(s2', table_of m2) = rmw_round r2 (s1, table_of m1)"
    using sticky_rmw_iter_round[OF assms(1,2) ok1, of r2 s1 m1] by blast
  moreover have "rm_i s2 = rm_i s1 + 1" using R2(1) by (auto simp: rmw_round_def Let_def split: prod.splits)
  ultimately show ?thesis
    using i1 s1 s1' by (auto simp: table_of_def split: if_splits)
qed

theorem rmw_lock_is_not_released_witness:
  "\<exists>s1 h1 m1 rep s2 h2 m2.
    sticky_rmw_iter sticky_fresh (\<lambda>tr. tr) not_ok (sticky_lock_b_transport lock_target_b_transport) (4, 0, 0)
      (rmw_start [], new_heap sticky_fresh, no_locks, ()) = Some (False, s1, h1, m1, ()) \<and>
    sticky_rmw_iter sticky_fresh (\<lambda>tr. tr) not_ok (sticky_lock_b_transport lock_target_b_transport) (8, 1, 1)
      (s1, h1, m1, ()) = Some (rep, s2, h2, m2, ()) \<and> lock_map m2 0x404 \<and> scast (rm_addr s2) = (0x408 :: u64)"
proof -
  have a: "rmw_target_address (4, 0, 0) = 0x404" "rmw_target_address (8, 1, 1) = 0x408"
    by (simp_all add: rmw_target_address_def)
  have "\<exists>s1 h1 m1 rep s2 h2 m2.
    sticky_rmw_iter sticky_fresh (\<lambda>tr. tr) not_ok (sticky_lock_b_transport lock_target_b_transport) (4, 0, 0)
      (rmw_start [], new_heap sticky_fresh, no_locks, ()) = Some (False, s1, h1, m1, ()) \<and>
    sticky_rmw_iter sticky_fresh (\<lambda>tr. tr) not_ok (sticky_lock_b_transport lock_target_b_transport) (8, 1, 1)
      (s1, h1, m1, ()) = Some (rep, s2, h2, m2, ()) \<and>
    lock_map m1 (rmw_target_address (4, 0, 0)) \<and> lock_map m2 (rmw_target_address (4, 0, 0)) \<and>
    scast (rm_addr s2) = rmw_target_address (8, 1, 1) \<and> rm_i s2 = rm_i (rmw_start []) + 2"
    by (rule rmw_lock_is_not_released[OF libraries(1,4) heap_ok_new])
      (simp_all add: rmw_start_def no_locks_def a)
  then show ?thesis unfolding a by blast
qed

text \<open>the load-link/store-conditional thread works in pairs of iterations. Both requests of a pair go to the same
  address; the store-conditional is executed exactly when the link is still set, whatever other initiators did in
  between; after a failure the next pair repeats the same address and the same data, and a fresh address and fresh
  data are drawn only after a success. The time waited is never reset: it grows by the latency of every
  executed request.\<close>
theorem llsc_pair:
  assumes "sticky_library fresh reset" and "error_test is_error" and "even (ls_i s)"
    and "next_load s \<or> \<not> next_store s" and "heap_ok sticky_idle live h" and "heap_ok sticky_idle live' h1'"
    and "sticky_llsc_iter fresh reset is_error (sticky_link_b_transport lock_target_b_transport) r1 (s, h, L, ()) =
      Some (rep1, s1, h1, L1, ())"
    and "sticky_llsc_iter fresh reset is_error (sticky_link_b_transport lock_target_b_transport) r2 (s1, h1', L1', ()) =
      Some (rep2, s2, h2, L2, ())"
  shows "L1 (scast (ls_addr s1)) \<and> \<not> L2 (scast (ls_addr s1)) \<and> ls_addr s2 = ls_addr s1 \<and>
    ls_addr s1 = (if next_load s then 0x500 OR ((fst r1 mod 256) AND 0xFC) else ls_addr s) \<and>
    ls_store s2 = (if next_load s then push_bit 16 (fst (snd r2)) OR snd (snd r2) else ls_store s) \<and>
    (next_load s2 \<longleftrightarrow> L1' (scast (ls_addr s1))) \<and> \<not> next_store s2 \<and>
    ls_delay s2 = ls_delay s + (if next_load s2 then 2 * LATENCY else LATENCY) \<and> \<not> rep1 \<and> \<not> rep2"
proof -
  have R1: "(s1, Collect L1) = llsc_round r1 (s, Collect L)" and rep1: "\<not> rep1"
    using sticky_llsc_iter_round[OF assms(1,2,5), of r1 s L] assms(7) by auto
  have R2: "(s2, Collect L2) = llsc_round r2 (s1, Collect L1')" and rep2: "\<not> rep2"
    using sticky_llsc_iter_round[OF assms(1,2,6), of r2 s1 L1'] assms(8) by auto
  have L1: "Collect L1 = insert (scast (ls_addr (llsc_next r1 s))) (Collect L)"
    using R1 assms(3) by (simp add: llsc_round_def llsc_command_def Let_def)
  have n1: "\<not> next_load (llsc_next r1 s)" "next_store (llsc_next r1 s) \<longleftrightarrow> next_load s" "ls_store (llsc_next r1 s) = ls_store s"
    "ls_addr (llsc_next r1 s) = (if next_load s then 0x500 OR ((fst r1 mod 256) AND 0xFC) else ls_addr s)"
    using assms(3,4) by (auto simp: llsc_next_def llsc_data_def llsc_address_def Let_def)
  have f1: "\<not> next_load s1" "next_store s1 \<longleftrightarrow> next_load s" "ls_store s1 = ls_store s" "odd (ls_i s1)"
    "ls_addr s1 = ls_addr (llsc_next r1 s)" "ls_delay s1 = ls_delay s + LATENCY"
    "ls_addr s1 = (if next_load s then 0x500 OR ((fst r1 mod 256) AND 0xFC) else ls_addr s)"
    using R1 n1 assms(3) by (simp_all add: llsc_round_def llsc_command_def Let_def)
  let ?p = "L1' (scast (ls_addr s1))"
  have n2: "ls_addr (llsc_next r2 s1) = ls_addr s1" "\<not> next_load (llsc_next r2 s1)" "\<not> next_store (llsc_next r2 s1)"
    "ls_store (llsc_next r2 s1) = (if next_load s then push_bit 16 (fst (snd r2)) OR snd (snd r2) else ls_store s)"
    using f1 by (simp_all add: llsc_next_def llsc_data_def llsc_address_def Let_def)
  have "next_load s2 \<longleftrightarrow> ?p" "ls_addr s2 = ls_addr s1" "\<not> next_store s2"
    "ls_store s2 = ls_store (llsc_next r2 s1)" "ls_delay s2 = ls_delay s1 + (if ?p then LATENCY else 0)"
    "Collect L2 = Collect L1' - {scast (ls_addr s1)}"
    using R2 f1(4) n2(1-3) by (simp_all add: llsc_round_def llsc_command_def Let_def)
  then show ?thesis using f1 n2(4) rep1 rep2 L1 by (auto simp: set_eq_iff)
qed

theorem llsc_pair_witness:
  "\<exists>s1 h1 L1 s2 h2 L2.
    sticky_llsc_iter sticky_fresh (\<lambda>tr. tr) not_ok (sticky_link_b_transport lock_target_b_transport) (4, 0, 0)
      (llsc_start [], new_heap sticky_fresh, \<lambda>_. False, ()) = Some (False, s1, h1, L1, ()) \<and>
    sticky_llsc_iter sticky_fresh (\<lambda>tr. tr) not_ok (sticky_link_b_transport lock_target_b_transport) (9, 1, 1)
      (s1, h1, \<lambda>_. False, ()) = Some (False, s2, h2, L2, ()) \<and>
    ls_addr s2 = 0x504 \<and> \<not> next_load s2 \<and> ls_store s2 = 0x10001"
proof -
  let ?it = "sticky_llsc_iter sticky_fresh (\<lambda>tr. tr) not_ok (sticky_link_b_transport lock_target_b_transport)"
  obtain s1 h1 L1 where i1: "?it (4, 0, 0) (llsc_start [], new_heap sticky_fresh, \<lambda>_. False, ()) = Some (False, s1, h1, L1, ())"
    and ok1: "heap_ok sticky_idle [] h1"
    using sticky_llsc_iter_round[OF libraries(1,4) heap_ok_new, of "(4, 0, 0)" "llsc_start []" sticky_fresh "\<lambda>_. False"] by blast
  obtain s2 h2 L2 where i2: "?it (9, 1, 1) (s1, h1, \<lambda>_. False, ()) = Some (False, s2, h2, L2, ())"
    using sticky_llsc_iter_round[OF libraries(1,4) ok1, of "(9, 1, 1)" s1 "\<lambda>_. False"] by blast
  from llsc_pair[OF libraries(1,4) _ _ heap_ok_new ok1 i1 i2]
  have "ls_addr s2 = 0x504 \<and> \<not> next_load s2 \<and> ls_store s2 = 0x10001" by (simp add: llsc_start_def)
  with i1 i2 show ?thesis by blast
qed

section \<open>Extensions and target\<close>

text \<open>The copy of a transaction loses its lock command: an extension made by \<^verbatim>\<open>clone()\<close> is never
  valid, so the interconnect treats the copy of a locking or unlocking transaction as a plain one.\<close>
theorem cloned_lock_command_is_plain:
  "sticky_lock_gate (tr\<lparr>lock_ext := Some (lock_extension_clone e)\<rparr>) m =
   map_option (\<lambda>(p, x, n). (p, x\<lparr>lock_ext := Some (lock_extension_clone e)\<rparr>, n)) (sticky_lock_gate (tr\<lparr>lock_ext := None\<rparr>) m) \<and>
   sticky_lock_command (tr\<lparr>lock_ext := Some (lock_extension_clone e)\<rparr>) = Plain"
  by (simp add: sticky_lock_gate_def sticky_locked_def sticky_lock_command_def lock_extension_clone_def
      new_lock_extension_def sticky_bounce_def Let_def)

text \<open>the target accepts transfers of fewer than four bytes but reads or writes a whole \<^verbatim>\<open>int\<close>
  through the data pointer: every such read or write that passes its checks overruns the buffer.\<close>
theorem lock_target_overruns_short_buffer:
  assumes "\<not> byte_enable tr" and "data_length tr \<le> streaming_width tr" and "data_length tr < 4"
    and "length (data tr) = unat (data_length tr)" and "command tr \<noteq> TLM_IGNORE_COMMAND"
  shows "lock_target_b_transport tr delay () = None"
proof -
  have "unat (data_length tr) < 4" using unat_mono[OF assms(3)] by simp
  moreover have "\<not> data_length tr > 4" using assms(3) by (simp add: not_less)
  ultimately show ?thesis using assms by (simp add: lock_target_b_transport_def not_less)
qed

theorem lock_target_overruns_short_buffer_witness:
  "lock_target_b_transport ((plain_tx TLM_READ_COMMAND 8)\<lparr>data := [0, 0], data_length := 2\<rparr>) 3 () = None"
  by (rule lock_target_overruns_short_buffer) (simp_all add: plain_tx_def)

end
