(* ===== verification/At_Interconnect.thy ===== *)
theory At_Interconnect
  imports Tlm_Payload "HOL-Library.Monad_Syntax"
begin

text \<open>
  The interconnect of the approximately-timed examples (\<^verbatim>\<open>src/locknsnoop/common/at_interconnect.h\<close>): it
  routes transactions to targets, keeps one request per target and one response per initiator in progress,
  and queues the others. A transaction is its number. What the modules behind the sockets answer (status, phase
  and delay after the call) is an input of each handler, the calls made on the sockets are appended to a trace.
  \<^verbatim>\<open>notify()\<close> sets the flag of an event, the process of the event clears it when it runs. A failed
  assertion is \<open>None\<close>. \<open>held\<close> counts the references the interconnect has acquired and not released.
\<close>

section \<open>State\<close>

record route =
  rt_init :: nat
  rt_target :: nat
  dont_propagate_fw :: bool

datatype call =
  Call_Fw nat nat tlm_phase sc_time        \<comment> \<open>target, transaction\<close>
| Call_Bw nat nat tlm_phase sc_time        \<comment> \<open>initiator, transaction\<close>
| Reply nat nat tlm_sync tlm_phase         \<comment> \<open>return of \<^verbatim>\<open>nb_transport_fw\<close> to an initiator\<close>
| Run_End_Req nat                          \<comment> \<open>a run of the process of a target\<close>
| Run_End_Rsp nat                          \<comment> \<open>a run of the process of an initiator\<close>

type_synonym answer = "tlm_sync \<times> tlm_phase \<times> sc_time"

record at_ic =
  req_in_progress :: "nat \<Rightarrow> nat option"
  rsp_in_progress :: "nat \<Rightarrow> nat option"
  end_req_event :: "nat \<Rightarrow> bool"
  end_rsp_event :: "nat \<Rightarrow> bool"
  req_queue :: "nat \<Rightarrow> (nat \<times> sc_time) list"
  rsp_queue :: "nat \<Rightarrow> (nat \<times> sc_time) list"
  routes :: "nat \<Rightarrow> route option"
  held :: "nat \<Rightarrow> nat"
  trace :: "call list"

definition new_at_ic :: at_ic where
  "new_at_ic = \<lparr>req_in_progress = (\<lambda>_. None), rsp_in_progress = (\<lambda>_. None), end_req_event = (\<lambda>_. False),
     end_rsp_event = (\<lambda>_. False), req_queue = (\<lambda>_. []), rsp_queue = (\<lambda>_. []), routes = (\<lambda>_. None),
     held = (\<lambda>_. 0), trace = []\<rparr>"

section \<open>Operations\<close>

definition at_decode :: "nat \<Rightarrow> u64 \<Rightarrow> nat \<times> u64" where
  "at_decode n_targets a = (unat (ucast (drop_bit 8 a) :: u32) mod n_targets, a AND 0xff)"

definition at_reconstruct :: "u64 \<Rightarrow> nat \<Rightarrow> u64" where
  "at_reconstruct a target = a OR ucast (push_bit 8 (of_nat target :: u32))"

definition made :: "call \<Rightarrow> at_ic \<Rightarrow> at_ic" where
  "made c s = s\<lparr>trace := trace s @ [c]\<rparr>"

definition notify_req :: "nat \<Rightarrow> at_ic \<Rightarrow> at_ic" where
  "notify_req target s = s\<lparr>end_req_event := (end_req_event s)(target := True)\<rparr>"

definition notify_rsp :: "nat \<Rightarrow> at_ic \<Rightarrow> at_ic" where
  "notify_rsp i s = s\<lparr>end_rsp_event := (end_rsp_event s)(i := True)\<rparr>"

definition queue_the_rsp :: "sc_time \<Rightarrow> nat \<Rightarrow> nat \<Rightarrow> sc_time \<Rightarrow> at_ic \<Rightarrow> at_ic" where
  "queue_the_rsp now i t delay s =
     s\<lparr>held := (held s)(t := held s t + 1), rsp_queue := (rsp_queue s)(i := rsp_queue s i @ [(t, now + delay)])\<rparr>"

definition remaining :: "sc_time \<Rightarrow> sc_time \<Rightarrow> sc_time" where
  "remaining now time = (if time < now then 0 else time - now)"

text \<open>\<^verbatim>\<open>b_transport\<close>, \<^verbatim>\<open>transport_dbg\<close> and \<^verbatim>\<open>get_direct_mem_ptr\<close> route one call; \<open>down\<close> is the
  call on the socket of a target, \<open>d\<close> the start and end address in the DMI record.\<close>

definition at_b_transport :: "nat \<Rightarrow> (nat \<Rightarrow> ('a payload_scheme, 'd) b_transport) \<Rightarrow> ('a payload_scheme, 'd) b_transport" where
  "at_b_transport n_targets down tr delay d =
     (let (target, masked) = at_decode n_targets (address tr) in down target (tr\<lparr>address := masked\<rparr>) delay d)"

definition at_transport_dbg :: "nat \<Rightarrow> (nat \<Rightarrow> 'a payload_scheme \<Rightarrow> 'r) \<Rightarrow> 'a payload_scheme \<Rightarrow> 'r" where
  "at_transport_dbg n_targets down tr =
     (let (target, masked) = at_decode n_targets (address tr) in down target (tr\<lparr>address := masked\<rparr>))"

definition at_get_direct_mem_ptr ::
    "nat \<Rightarrow> (nat \<Rightarrow> 'a payload_scheme \<Rightarrow> bool \<times> 'a payload_scheme \<times> u64 \<times> u64) \<Rightarrow> 'a payload_scheme \<Rightarrow>
     bool \<times> 'a payload_scheme \<times> u64 \<times> u64" where
  "at_get_direct_mem_ptr n_targets down tr =
     (let (target, masked) = at_decode n_targets (address tr);
          (status, tr, s, e) = down target (tr\<lparr>address := masked\<rparr>)
      in (status, tr, at_reconstruct s target, at_reconstruct e target))"

definition at_invalidate :: "nat \<Rightarrow> u64 \<times> u64 \<Rightarrow> u64 \<times> u64" where
  "at_invalidate target r = (at_reconstruct (fst r) target, at_reconstruct (snd r) target)"

text \<open>The part of \<^verbatim>\<open>nb_transport_fw\<close> after the call on the target.\<close>

definition fw_answer :: "sc_time \<Rightarrow> nat \<Rightarrow> nat \<Rightarrow> nat \<Rightarrow> bool \<Rightarrow> answer \<Rightarrow> at_ic \<Rightarrow> (tlm_sync \<times> tlm_phase \<times> at_ic) option" where
  "fw_answer now i t target is_request ans s =
     (case ans of (status, phase, delay) \<Rightarrow>
        if status = TLM_UPDATED then
          if (phase = END_REQ \<or> phase = BEGIN_RESP) \<and> req_in_progress s target = None then None
          else
            (let s = (if phase = END_REQ \<or> phase = BEGIN_RESP then notify_req target s else s) in
             if phase = BEGIN_RESP then
               if rsp_in_progress s i \<noteq> None then Some (TLM_ACCEPTED, phase, queue_the_rsp now i t delay s)
               else Some (status, phase, s\<lparr>rsp_in_progress := (rsp_in_progress s)(i := Some t)\<rparr>)
             else Some (status, phase, s))
        else if status = TLM_COMPLETED \<and> is_request then
          (case routes s t of
             None \<Rightarrow> None
           | Some ext \<Rightarrow>
               (let s = (notify_req target s)\<lparr>routes := (routes s)(t \<mapsto> ext\<lparr>dont_propagate_fw := True\<rparr>)\<rparr> in
                if rsp_in_progress s i \<noteq> None then Some (TLM_ACCEPTED, phase, queue_the_rsp now i t delay s)
                else Some (status, phase, s)))
        else Some (status, phase, s))"

text \<open>The whole of it: the new address of the transaction, and the reply in the trace.\<close>

definition at_nb_transport_fw :: "nat \<Rightarrow> sc_time \<Rightarrow> nat \<Rightarrow> nat \<Rightarrow> u64 \<Rightarrow> tlm_phase \<Rightarrow> sc_time \<Rightarrow> answer \<Rightarrow> at_ic \<Rightarrow>
    (u64 \<times> at_ic) option" where
  "at_nb_transport_fw n_targets now i t adr phase delay ans s =
     (if phase = BEGIN_REQ then
        (let (target, masked) = at_decode n_targets adr;
             s = s\<lparr>routes := (routes s)(t \<mapsto> \<lparr>rt_init = i, rt_target = target, dont_propagate_fw = False\<rparr>)\<rparr>
         in if req_in_progress s target \<noteq> None
            then Some (masked, made (Reply i t TLM_ACCEPTED phase)
              (s\<lparr>held := (held s)(t := held s t + 1),
                 req_queue := (req_queue s)(target := req_queue s target @ [(t, now + delay)])\<rparr>))
            else do {
              (status, phase', s) \<leftarrow> fw_answer now i t target True ans
                (made (Call_Fw target t phase delay) (s\<lparr>req_in_progress := (req_in_progress s)(target := Some t)\<rparr>));
              Some (masked, made (Reply i t status phase') s)
            })
      else if phase = END_RESP then
        (case routes s t of
           None \<Rightarrow> None
         | Some ext \<Rightarrow>
             if rt_init ext \<noteq> i \<or> rsp_in_progress s i = None then None
             else if dont_propagate_fw ext
             then Some (adr, made (Reply i t TLM_ACCEPTED phase) (notify_rsp i s))
             else do {
               (status, phase', s) \<leftarrow> fw_answer now i t (rt_target ext) False ans
                 (made (Call_Fw (rt_target ext) t phase delay) (notify_rsp i s));
               Some (adr, made (Reply i t status phase') s)
             })
      else do {
        (status, phase', s) \<leftarrow> fw_answer now i t 0 False ans (made (Call_Fw 0 t phase delay) s);
        Some (adr, made (Reply i t status phase') s)
      })"

definition at_nb_transport_bw :: "sc_time \<Rightarrow> nat \<Rightarrow> nat \<Rightarrow> tlm_phase \<Rightarrow> sc_time \<Rightarrow> answer \<Rightarrow> at_ic \<Rightarrow>
    (tlm_sync \<times> at_ic) option" where
  "at_nb_transport_bw now target t phase delay ans s =
     (let ended = (phase = END_REQ \<or> req_in_progress s target = Some t \<and> phase = BEGIN_RESP) in
      if ended \<and> req_in_progress s target = None then None
      else
        (let s = (if ended then notify_req target s else s) in
         case routes s t of
           None \<Rightarrow> None
         | Some ext \<Rightarrow>
             (let i = rt_init ext in
              if phase = BEGIN_RESP \<and> rsp_in_progress s i \<noteq> None
              then Some (TLM_ACCEPTED, queue_the_rsp now i t delay s)
              else
                (let s = (if phase = BEGIN_RESP then s\<lparr>rsp_in_progress := (rsp_in_progress s)(i := Some t)\<rparr> else s);
                     delay = (if phase = BEGIN_RESP then delay + 1000 else delay);
                     s = made (Call_Bw i t phase delay) s
                 in case ans of (status, phase, _) \<Rightarrow>
                      if status = TLM_COMPLETED then
                        if phase \<noteq> BEGIN_RESP \<or> rsp_in_progress s i = None then None
                        else Some (status, notify_rsp i s)
                      else Some (status, s)))))"

text \<open>\<open>ans2\<close> is the status the target returns for the \<^verbatim>\<open>END_RESP\<close>.\<close>

definition send_bw_to_initiator :: "nat \<Rightarrow> tlm_phase \<Rightarrow> sc_time \<Rightarrow> answer \<Rightarrow> tlm_sync \<Rightarrow> at_ic \<Rightarrow> at_ic option" where
  "send_bw_to_initiator t phase delay ans ans2 s =
     (case routes s t of
        None \<Rightarrow> None
      | Some ext \<Rightarrow>
          (let i = rt_init ext; s = made (Call_Bw i t phase delay) s in
           case ans of (status, phase, delay) \<Rightarrow>
             if status = TLM_UPDATED \<or> status = TLM_COMPLETED then
               if rsp_in_progress s i = None then None
               else
                 (let s = notify_rsp i s in
                  if dont_propagate_fw ext then Some s
                  else if ans2 = TLM_UPDATED then None
                  else Some (made (Call_Fw (rt_target ext) t END_RESP delay) s))
             else Some s))"

definition release_ref :: "nat \<Rightarrow> at_ic \<Rightarrow> at_ic" where
  "release_ref t s = s\<lparr>held := (held s)(t := held s t - 1)\<rparr>"

text \<open>The process of a target: what it does with the answer to a delayed request, and the whole of it. The early
  returns leave the reference of the request queue held.\<close>

definition end_req_answer :: "sc_time \<Rightarrow> nat \<Rightarrow> nat \<Rightarrow> route \<Rightarrow> answer \<Rightarrow> answer \<Rightarrow> tlm_sync \<Rightarrow> at_ic \<Rightarrow> at_ic option" where
  "end_req_answer now target t ext ans ans_bw ans2 s =
     (case ans of (status, phase, delay) \<Rightarrow>
        let i = rt_init ext in
        if status = TLM_UPDATED then
          (let s = (if phase = END_REQ \<or> phase = BEGIN_RESP then notify_req target s else s) in
           if phase = BEGIN_RESP then
             if rsp_in_progress s i \<noteq> None then Some (queue_the_rsp now i t delay s)
             else map_option (release_ref t) (send_bw_to_initiator t phase delay ans_bw ans2
               (s\<lparr>rsp_in_progress := (rsp_in_progress s)(i := Some t)\<rparr>))
           else map_option (release_ref t) (send_bw_to_initiator t phase delay ans_bw ans2 s))
        else if status = TLM_COMPLETED then
          (let s = (notify_req target s)\<lparr>routes := (routes s)(t \<mapsto> ext\<lparr>dont_propagate_fw := True\<rparr>)\<rparr> in
           if rsp_in_progress s i \<noteq> None then Some (queue_the_rsp now i t delay s)
           else map_option (release_ref t) (send_bw_to_initiator t BEGIN_RESP delay ans_bw ans2
             (s\<lparr>rsp_in_progress := (rsp_in_progress s)(i := Some t)\<rparr>)))
        else Some (release_ref t s))"

definition end_req_process :: "sc_time \<Rightarrow> nat \<Rightarrow> answer \<Rightarrow> answer \<Rightarrow> tlm_sync \<Rightarrow> at_ic \<Rightarrow> at_ic option" where
  "end_req_process now target ans ans_bw ans2 s =
     (let s = made (Run_End_Req target) (s\<lparr>end_req_event := (end_req_event s)(target := False)\<rparr>) in
      if req_in_progress s target = None then None
      else
        (case req_queue s target of
           [] \<Rightarrow> Some (s\<lparr>req_in_progress := (req_in_progress s)(target := None)\<rparr>)
         | (t, time) # reqs \<Rightarrow>
             (let s = s\<lparr>req_queue := (req_queue s)(target := reqs), req_in_progress := (req_in_progress s)(target := Some t)\<rparr> in
              case routes s t of
                None \<Rightarrow> None
              | Some ext \<Rightarrow>
                  if rt_target ext \<noteq> target then None
                  else end_req_answer now target t ext ans ans_bw ans2
                         (made (Call_Fw target t BEGIN_REQ (remaining now time)) s))))"

definition end_rsp_process :: "sc_time \<Rightarrow> nat \<Rightarrow> answer \<Rightarrow> tlm_sync \<Rightarrow> at_ic \<Rightarrow> at_ic option" where
  "end_rsp_process now i ans_bw ans2 s =
     (let s = made (Run_End_Rsp i) (s\<lparr>end_rsp_event := (end_rsp_event s)(i := False)\<rparr>) in
      if rsp_in_progress s i = None then None
      else
        (case rsp_queue s i of
           [] \<Rightarrow> Some (s\<lparr>rsp_in_progress := (rsp_in_progress s)(i := None)\<rparr>)
         | (t, time) # rsps \<Rightarrow>
             map_option (release_ref t) (send_bw_to_initiator t BEGIN_RESP (remaining now time) ans_bw ans2
               (s\<lparr>rsp_queue := (rsp_queue s)(i := rsps), rsp_in_progress := (rsp_in_progress s)(i := Some t)\<rparr>))))"

section \<open>Runs\<close>

datatype at_event =
  Fw_Called sc_time nat nat u64 tlm_phase sc_time answer
| Bw_Called sc_time nat nat tlm_phase sc_time answer
| End_Req_Runs sc_time nat answer answer tlm_sync
| End_Rsp_Runs sc_time nat answer tlm_sync

text \<open>A process runs only after its event has been notified.\<close>

fun at_step :: "nat \<Rightarrow> at_event \<Rightarrow> at_ic \<Rightarrow> at_ic option" where
  "at_step n (Fw_Called now i t adr phase delay ans) s = map_option snd (at_nb_transport_fw n now i t adr phase delay ans s)"
| "at_step n (Bw_Called now target t phase delay ans) s = map_option snd (at_nb_transport_bw now target t phase delay ans s)"
| "at_step n (End_Req_Runs now target ans ans_bw ans2) s =
     (if end_req_event s target then end_req_process now target ans ans_bw ans2 s else Some s)"
| "at_step n (End_Rsp_Runs now i ans_bw ans2) s =
     (if end_rsp_event s i then end_rsp_process now i ans_bw ans2 s else Some s)"

fun at_run :: "nat \<Rightarrow> at_event list \<Rightarrow> at_ic \<Rightarrow> at_ic option" where
  "at_run n [] s = Some s"
| "at_run n (e # es) s = do { s \<leftarrow> at_step n e s; at_run n es s }"

end
