(* ===== verification/At_Targets.thy ===== *)
theory At_Targets
  imports Tlm_Payload "HOL-Library.Monad_Syntax"
begin

text \<open>
  The approximately-timed targets (\<^verbatim>\<open>src/locknsnoop/common/at_typea_target.h\<close> to \<^verbatim>\<open>at_typee_target.h\<close>). A transaction
  is its number, \<open>tx_attrs\<close> gives its attributes. A payload event queue is the list of its entries with their times. What
  the initiator answers to a call on the backward path and the random delays are inputs. \<open>None\<close> is a fatal report, a
  failed assertion or a read or write beyond the data buffer. Log output is left out.
\<close>

section \<open>State\<close>

datatype peq_phase = Tlm tlm_phase | Internal_Ph

record at_target =
  tx_attrs :: "nat \<Rightarrow> payload"
  refs :: "nat \<Rightarrow> nat"
  bw_calls :: "(nat \<times> tlm_phase \<times> sc_time) list"
  response_in_progress :: bool
  next_response_pending :: "nat option"

record c_target = at_target +
  peq :: "(sc_time \<times> nat \<times> peq_phase) list"

record ab_target = c_target +
  n_trans :: int
  end_req_pending :: "nat option"

record d_target = at_target +
  send_rsp_event :: bool
  next_response_time :: sc_time

definition blank_tx :: payload where
  "blank_tx = \<lparr>command = TLM_IGNORE_COMMAND, address = 0, data = replicate 4 0, data_length = 4, byte_enable = False,
     streaming_width = 4, dmi_allowed = False, response = TLM_INCOMPLETE_RESPONSE, manager = Pool_Manager\<rparr>"

definition new_ab_target :: ab_target where
  "new_ab_target = \<lparr>tx_attrs = (\<lambda>_. blank_tx), refs = (\<lambda>_. 0), bw_calls = [], response_in_progress = False,
     next_response_pending = None, peq = [], n_trans = 0, end_req_pending = None\<rparr>"

definition new_c_target :: c_target where
  "new_c_target = \<lparr>tx_attrs = (\<lambda>_. blank_tx), refs = (\<lambda>_. 0), bw_calls = [], response_in_progress = False,
     next_response_pending = None, peq = []\<rparr>"

definition new_d_target :: d_target where
  "new_d_target = \<lparr>tx_attrs = (\<lambda>_. blank_tx), refs = (\<lambda>_. 0), bw_calls = [], response_in_progress = False,
     next_response_pending = None, send_rsp_event = False, next_response_time = 0\<rparr>"

section \<open>Steps the types share\<close>

definition reject :: "'a payload_scheme \<Rightarrow> tlm_response option" where
  "reject tr =
     (if byte_enable tr then Some TLM_BYTE_ENABLE_ERROR_RESPONSE
      else if data_length tr > 4 \<or> streaming_width tr < data_length tr then Some TLM_BURST_ERROR_RESPONSE else None)"

definition execute_tx :: "'a payload_scheme \<Rightarrow> 'a payload_scheme option" where
  "execute_tx tr =
     (if command tr \<noteq> TLM_IGNORE_COMMAND \<and> length (data tr) < 4 then None
      else Some ((if command tr = TLM_READ_COMMAND
                  then tr\<lparr>data := int_bytes (- ucast (address tr)) @ drop 4 (data tr)\<rparr> else tr)\<lparr>response := TLM_OK_RESPONSE\<rparr>))"

definition set_payload :: "nat \<Rightarrow> payload \<Rightarrow> 'a at_target_scheme \<Rightarrow> 'a at_target_scheme" where
  "set_payload t tr s = s\<lparr>tx_attrs := (tx_attrs s)(t := tr)\<rparr>"

definition acquire :: "nat \<Rightarrow> 'a at_target_scheme \<Rightarrow> 'a at_target_scheme" where
  "acquire t s = s\<lparr>refs := (refs s)(t := refs s t + 1)\<rparr>"

definition release :: "nat \<Rightarrow> 'a at_target_scheme \<Rightarrow> 'a at_target_scheme" where
  "release t s = s\<lparr>refs := (refs s)(t := refs s t - 1)\<rparr>"

definition call_bw :: "nat \<Rightarrow> tlm_phase \<Rightarrow> sc_time \<Rightarrow> 'a at_target_scheme \<Rightarrow> 'a at_target_scheme" where
  "call_bw t p delay s = s\<lparr>bw_calls := bw_calls s @ [(t, p, delay)]\<rparr>"

definition peq_notify :: "sc_time \<Rightarrow> nat \<Rightarrow> peq_phase \<Rightarrow> 'a c_target_scheme \<Rightarrow> 'a c_target_scheme" where
  "peq_notify time t p s = s\<lparr>peq := peq s @ [(time, t, p)]\<rparr>"

type_synonym bw_answer = "tlm_sync \<times> tlm_phase \<times> sc_time"

text \<open>The inputs of \<^verbatim>\<open>send_end_req\<close>: the accept delay, what the call makes of it, the latency.\<close>

type_synonym end_req_input = "sc_time \<times> sc_time \<times> sc_time"

type_synonym 's fw_result = "tlm_sync \<times> tlm_phase \<times> sc_time \<times> 's"

section \<open>Type A\<close>

definition a_nb_transport_fw :: "sc_time \<Rightarrow> nat \<Rightarrow> payload \<Rightarrow> tlm_phase \<Rightarrow> sc_time \<Rightarrow> ab_target \<Rightarrow> ab_target fw_result" where
  "a_nb_transport_fw now t tr phase delay s =
     (case reject tr of
        Some r \<Rightarrow> (TLM_COMPLETED, phase, delay, set_payload t (tr\<lparr>response := r\<rparr>) s)
      | None \<Rightarrow> (TLM_ACCEPTED, phase, delay, peq_notify (now + delay) t (Tlm phase) (set_payload t tr s)))"

definition a_send_end_req :: "sc_time \<Rightarrow> nat \<Rightarrow> end_req_input \<Rightarrow> ab_target \<Rightarrow> ab_target" where
  "a_send_end_req now t inp s =
     (case inp of (accept_delay, delay, latency) \<Rightarrow>
        let s = peq_notify (now + (delay + latency)) t Internal_Ph (call_bw t END_REQ accept_delay s)
        in s\<lparr>n_trans := n_trans s + 1\<rparr>)"

definition a_unblock :: "sc_time \<Rightarrow> end_req_input \<Rightarrow> ab_target \<Rightarrow> ab_target" where
  "a_unblock now inp s =
     (case end_req_pending s of None \<Rightarrow> s | Some t \<Rightarrow> (a_send_end_req now t inp s)\<lparr>end_req_pending := None\<rparr>)"

definition a_send_response :: "sc_time \<Rightarrow> nat \<Rightarrow> bw_answer \<Rightarrow> end_req_input \<Rightarrow> ab_target \<Rightarrow> ab_target" where
  "a_send_response now t ans inp s =
     (let s = call_bw t BEGIN_RESP 0 (s\<lparr>response_in_progress := True\<rparr>) in
      case ans of (status, phase, delay) \<Rightarrow>
        if status = TLM_UPDATED then peq_notify (now + delay) t (Tlm phase) s
        else if status = TLM_COMPLETED then
          (let s = release t s in a_unblock now inp (s\<lparr>n_trans := n_trans s - 1, response_in_progress := False\<rparr>))
        else s)"

definition a_peq_cb :: "sc_time \<Rightarrow> nat \<Rightarrow> peq_phase \<Rightarrow> bw_answer \<Rightarrow> end_req_input \<Rightarrow> ab_target \<Rightarrow> ab_target option" where
  "a_peq_cb now t phase ans inp s =
     (case phase of
        Tlm BEGIN_REQ \<Rightarrow>
          (let s = acquire t s in
           Some (if n_trans s = 2 then s\<lparr>end_req_pending := Some t\<rparr> else a_send_end_req now t inp s))
      | Tlm END_RESP \<Rightarrow>
          if \<not> response_in_progress s then None
          else
            (let s = release t s;
                 s = s\<lparr>n_trans := n_trans s - 1, response_in_progress := False\<rparr>;
                 s = (case next_response_pending s of None \<Rightarrow> s
                      | Some u \<Rightarrow> (a_send_response now u ans inp s)\<lparr>next_response_pending := None\<rparr>)
             in Some (a_unblock now inp s))
      | Tlm _ \<Rightarrow> None
      | Internal_Ph \<Rightarrow> do {
          tr \<leftarrow> execute_tx (tx_attrs s t);
          let s = set_payload t tr s;
          (if response_in_progress s
           then if next_response_pending s \<noteq> None then None else Some (s\<lparr>next_response_pending := Some t\<rparr>)
           else Some (a_send_response now t ans inp s))
        })"

section \<open>Type B\<close>

definition b_nb_transport_fw :: "sc_time \<Rightarrow> nat \<Rightarrow> payload \<Rightarrow> tlm_phase \<Rightarrow> sc_time \<Rightarrow> sc_time \<Rightarrow> sc_time \<Rightarrow> ab_target \<Rightarrow>
    ab_target fw_result" where
  "b_nb_transport_fw now t tr phase delay accept_delay latency s =
     (case reject tr of
        Some r \<Rightarrow> (TLM_COMPLETED, phase, delay, set_payload t (tr\<lparr>response := r\<rparr>) s)
      | None \<Rightarrow>
          if phase = BEGIN_REQ \<and> n_trans s < 2 then
            (let s = acquire t (set_payload t tr s);
                 delay = delay + accept_delay;
                 s = peq_notify (now + (delay + latency)) t Internal_Ph s
             in (TLM_UPDATED, END_REQ, delay, s\<lparr>n_trans := n_trans s + 1\<rparr>))
          else (TLM_ACCEPTED, phase, delay, peq_notify (now + delay) t (Tlm phase) (set_payload t tr s)))"

definition b_send_end_req :: "sc_time \<Rightarrow> nat \<Rightarrow> end_req_input \<Rightarrow> ab_target \<Rightarrow> ab_target" where
  "b_send_end_req now t inp s =
     (case inp of (accept_delay, delay, latency) \<Rightarrow>
        let s = peq_notify (now + (delay + latency)) t Internal_Ph (call_bw t END_REQ accept_delay s)
        in s\<lparr>n_trans := n_trans s + 1\<rparr>)"

definition b_unblock :: "sc_time \<Rightarrow> end_req_input \<Rightarrow> ab_target \<Rightarrow> ab_target" where
  "b_unblock now inp s =
     (case end_req_pending s of None \<Rightarrow> s | Some t \<Rightarrow> (b_send_end_req now t inp s)\<lparr>end_req_pending := None\<rparr>)"

definition b_send_response :: "sc_time \<Rightarrow> nat \<Rightarrow> bw_answer \<Rightarrow> end_req_input \<Rightarrow> ab_target \<Rightarrow> ab_target option" where
  "b_send_response now t ans inp s =
     (let s = call_bw t BEGIN_RESP 0 (s\<lparr>response_in_progress := True\<rparr>) in
      case ans of (status, phase, delay) \<Rightarrow>
        if status = TLM_UPDATED then Some (peq_notify (now + delay) t (Tlm phase) s)
        else if status = TLM_COMPLETED then
          if \<not> response_in_progress s then None
          else (let s = release t s in
                Some (b_unblock now inp (s\<lparr>n_trans := n_trans s - 1, response_in_progress := False\<rparr>)))
        else Some s)"

definition b_peq_cb :: "sc_time \<Rightarrow> nat \<Rightarrow> peq_phase \<Rightarrow> bw_answer \<Rightarrow> end_req_input \<Rightarrow> ab_target \<Rightarrow> ab_target option" where
  "b_peq_cb now t phase ans inp s =
     (case phase of
        Tlm BEGIN_REQ \<Rightarrow>
          (let s = acquire t s in
           Some (if n_trans s = 2 then s\<lparr>end_req_pending := Some t\<rparr> else b_send_end_req now t inp s))
      | Tlm END_RESP \<Rightarrow>
          if \<not> response_in_progress s then None
          else do {
            let s = release t s;
            let s = s\<lparr>n_trans := n_trans s - 1, response_in_progress := False\<rparr>;
            s \<leftarrow> (case next_response_pending s of None \<Rightarrow> Some s
                  | Some u \<Rightarrow> map_option (\<lambda>s. s\<lparr>next_response_pending := None\<rparr>) (b_send_response now u ans inp s));
            Some (b_unblock now inp s)
          }
      | Tlm _ \<Rightarrow> None
      | Internal_Ph \<Rightarrow> do {
          tr \<leftarrow> execute_tx (tx_attrs s t);
          let s = set_payload t tr s;
          (if response_in_progress s
           then if next_response_pending s \<noteq> None then None else Some (s\<lparr>next_response_pending := Some t\<rparr>)
           else b_send_response now t ans inp s)
        })"

section \<open>Type C\<close>

definition c_nb_transport_fw :: "sc_time \<Rightarrow> nat \<Rightarrow> payload \<Rightarrow> tlm_phase \<Rightarrow> sc_time \<Rightarrow> c_target \<Rightarrow> c_target fw_result" where
  "c_nb_transport_fw now t tr phase delay s =
     (case reject tr of
        Some r \<Rightarrow> (TLM_COMPLETED, phase, delay, set_payload t (tr\<lparr>response := r\<rparr>) s)
      | None \<Rightarrow> (TLM_ACCEPTED, phase, delay, peq_notify (now + delay) t (Tlm phase) (set_payload t tr s)))"

definition c_send_response :: "sc_time \<Rightarrow> nat \<Rightarrow> bw_answer \<Rightarrow> c_target \<Rightarrow> c_target" where
  "c_send_response now t ans s =
     (let s = call_bw t BEGIN_RESP 0 (s\<lparr>response_in_progress := True\<rparr>) in
      case ans of (status, phase, delay) \<Rightarrow>
        if status = TLM_UPDATED then peq_notify (now + delay) t (Tlm phase) s
        else if status = TLM_COMPLETED then (release t s)\<lparr>response_in_progress := False\<rparr>
        else s)"

definition c_peq_cb :: "sc_time \<Rightarrow> nat \<Rightarrow> peq_phase \<Rightarrow> sc_time \<Rightarrow> bw_answer \<Rightarrow> c_target \<Rightarrow> c_target option" where
  "c_peq_cb now t phase latency ans s =
     (case phase of
        Tlm BEGIN_REQ \<Rightarrow> Some (peq_notify (now + latency) t Internal_Ph (acquire t s))
      | Tlm END_RESP \<Rightarrow>
          if \<not> response_in_progress s then None
          else
            (let s = (release t s)\<lparr>response_in_progress := False\<rparr>
             in Some (case next_response_pending s of None \<Rightarrow> s
                      | Some u \<Rightarrow> (c_send_response now u ans s)\<lparr>next_response_pending := None\<rparr>))
      | Tlm _ \<Rightarrow> None
      | Internal_Ph \<Rightarrow> do {
          tr \<leftarrow> execute_tx (tx_attrs s t);
          let s = set_payload t tr s;
          (if response_in_progress s
           then if next_response_pending s \<noteq> None then None else Some (s\<lparr>next_response_pending := Some t\<rparr>)
           else Some (c_send_response now t ans s))
        })"

section \<open>Type D\<close>

definition d_nb_transport_fw :: "sc_time \<Rightarrow> nat \<Rightarrow> payload \<Rightarrow> tlm_phase \<Rightarrow> sc_time \<Rightarrow> sc_time \<Rightarrow> d_target \<Rightarrow>
    d_target fw_result option" where
  "d_nb_transport_fw now t tr phase delay latency s =
     (if phase = BEGIN_REQ then
        (let s = acquire t s in
         case reject tr of
           Some r \<Rightarrow> Some (TLM_COMPLETED, phase, delay, set_payload t (tr\<lparr>response := r\<rparr>) s)
         | None \<Rightarrow> do {
             tr \<leftarrow> execute_tx tr;
             let s = set_payload t tr s;
             let delay = delay + latency;
             (if response_in_progress s
              then if next_response_pending s \<noteq> None then None
                   else Some (TLM_ACCEPTED, phase, delay, s\<lparr>next_response_pending := Some t, next_response_time := now + delay\<rparr>)
              else Some (TLM_UPDATED, BEGIN_RESP, delay, s\<lparr>response_in_progress := True\<rparr>))
           })
      else if phase = END_RESP then
        if \<not> response_in_progress s then None
        else
          (let s = (release t s)\<lparr>response_in_progress := False\<rparr>;
               s = (if next_response_pending s \<noteq> None then s\<lparr>send_rsp_event := True\<rparr> else s)
           in Some (TLM_COMPLETED, phase, delay, s))
      else Some (TLM_ACCEPTED, phase, delay, s))"

definition d_send_rsp_process :: "sc_time \<Rightarrow> bw_answer \<Rightarrow> d_target \<Rightarrow> d_target option" where
  "d_send_rsp_process now ans s =
     (case next_response_pending s of
        None \<Rightarrow> None
      | Some t \<Rightarrow>
          (let delay = (if next_response_time s < now then 0 else next_response_time s - now);
               s = call_bw t BEGIN_RESP delay (s\<lparr>next_response_pending := None, response_in_progress := True\<rparr>)
           in case ans of (status, phase, _) \<Rightarrow>
                Some (if status = TLM_UPDATED \<and> phase = END_RESP \<or> status = TLM_COMPLETED
                      then (release t s)\<lparr>response_in_progress := False\<rparr> else s)))"

section \<open>Type E\<close>

definition e_nb_transport_fw :: "'a payload_scheme \<Rightarrow> tlm_phase \<Rightarrow> sc_time \<Rightarrow> sc_time \<Rightarrow>
    (tlm_sync \<times> 'a payload_scheme \<times> tlm_phase \<times> sc_time) option" where
  "e_nb_transport_fw tr phase delay latency =
     (case reject tr of
        Some r \<Rightarrow> Some (TLM_COMPLETED, tr\<lparr>response := r\<rparr>, phase, delay)
      | None \<Rightarrow> map_option (\<lambda>tr. (TLM_COMPLETED, tr, phase, delay + latency)) (execute_tx tr))"

section \<open>Runs\<close>

text \<open>
  A target sees calls on its socket and, for the entries of its queue, the callback; an entry is due when no other is
  earlier, and of those with the same time the one that was queued first. The process of type D runs after its event has been notified.
\<close>

datatype target_event =
  Fw sc_time nat payload tlm_phase sc_time sc_time sc_time     \<comment> \<open>now, transaction, attributes, phase, delay, random delays\<close>
| Due nat bw_answer end_req_input                                 \<comment> \<open>index of the entry\<close>
| Send_Rsp sc_time bw_answer

definition is_due :: "nat \<Rightarrow> (sc_time \<times> 'b) list \<Rightarrow> bool" where
  "is_due j q \<longleftrightarrow> j < length q \<and> (\<forall>e \<in> set q. fst (q ! j) \<le> fst e) \<and> (\<forall>e \<in> set (take j q). fst (q ! j) < fst e)"

definition take_due :: "nat \<Rightarrow> (sc_time \<Rightarrow> nat \<Rightarrow> peq_phase \<Rightarrow> 'a c_target_scheme \<Rightarrow> 'a c_target_scheme option) \<Rightarrow>
    'a c_target_scheme \<Rightarrow> 'a c_target_scheme option" where
  "take_due j cb s =
     (if is_due j (peq s)
      then (case peq s ! j of (now, t, p) \<Rightarrow> cb now t p (s\<lparr>peq := take j (peq s) @ drop (Suc j) (peq s)\<rparr>))
      else Some s)"

fun a_step :: "target_event \<Rightarrow> ab_target \<Rightarrow> ab_target option" where
  "a_step (Fw now t tr phase delay r1 r2) s = Some (snd (snd (snd (a_nb_transport_fw now t tr phase delay s))))"
| "a_step (Due j ans inp) s = take_due j (\<lambda>now t p. a_peq_cb now t p ans inp) s"
| "a_step (Send_Rsp now ans) s = Some s"

fun b_step :: "target_event \<Rightarrow> ab_target \<Rightarrow> ab_target option" where
  "b_step (Fw now t tr phase delay r1 r2) s = Some (snd (snd (snd (b_nb_transport_fw now t tr phase delay r1 r2 s))))"
| "b_step (Due j ans inp) s = take_due j (\<lambda>now t p. b_peq_cb now t p ans inp) s"
| "b_step (Send_Rsp now ans) s = Some s"

fun c_step :: "target_event \<Rightarrow> c_target \<Rightarrow> c_target option" where
  "c_step (Fw now t tr phase delay r1 r2) s = Some (snd (snd (snd (c_nb_transport_fw now t tr phase delay s))))"
| "c_step (Due j ans inp) s = take_due j (\<lambda>now t p. c_peq_cb now t p (fst inp) ans) s"
| "c_step (Send_Rsp now ans) s = Some s"

fun d_step :: "target_event \<Rightarrow> d_target \<Rightarrow> d_target option" where
  "d_step (Fw now t tr phase delay r1 r2) s =
     map_option (\<lambda>r. snd (snd (snd r))) (d_nb_transport_fw now t tr phase delay r1 s)"
| "d_step (Due j ans inp) s = Some s"
| "d_step (Send_Rsp now ans) s =
     (if send_rsp_event s then d_send_rsp_process now ans (s\<lparr>send_rsp_event := False\<rparr>) else Some s)"

fun target_run :: "('e \<Rightarrow> 's \<Rightarrow> 's option) \<Rightarrow> 'e list \<Rightarrow> 's \<Rightarrow> 's option" where
  "target_run step [] s = Some s"
| "target_run step (e # es) s = do { s \<leftarrow> step e s; target_run step es s }"

end
