(* ===== verification/Lock_Top.thy ===== *)
theory Lock_Top
  imports Locking At_Interconnect At_Targets
begin

text \<open>
  The module \<^verbatim>\<open>Top\<close> of the three locking examples (\<^verbatim>\<open>lock_example.cpp\<close> in \<^verbatim>\<open>locking_sticky\<close>, \<^verbatim>\<open>locking_auto\<close> and
  \<^verbatim>\<open>locking_two\<close>): its instances, its bindings, and what a blocking transport call of an initiator becomes on its way
  through them. The checkers pass the calls on. What the sockets of the targets 0 to 4, which have only
  non-blocking methods, make of a blocking call is done by the library and is an argument.
\<close>

section \<open>Instances and bindings\<close>

datatype top_instance =
  Initiator nat | Check_Init nat | At_Ic | Lock_Ic | Load_Link_Ic | Check_Targ nat | Target nat

text \<open>An initiator socket and the target socket it is bound to, in the order of the calls of \<^verbatim>\<open>bind\<close>.\<close>

definition top_bindings :: "(top_instance \<times> top_instance) list" where
  "top_bindings =
     [(Initiator 0, Check_Init 0), (Check_Init 0, At_Ic),
      (Initiator 1, Check_Init 1), (Check_Init 1, At_Ic),
      (Initiator 2, Check_Init 2), (Check_Init 2, At_Ic),
      (Initiator 3, Check_Init 3), (Check_Init 3, At_Ic),
      (At_Ic, Check_Targ 0), (Check_Targ 0, Target 0),
      (At_Ic, Check_Targ 1), (Check_Targ 1, Target 1),
      (At_Ic, Check_Targ 2), (Check_Targ 2, Target 2),
      (At_Ic, Check_Targ 3), (Check_Targ 3, Target 3),
      (At_Ic, Lock_Ic), (Lock_Ic, Check_Targ 4), (Check_Targ 4, Target 4),
      (At_Ic, Load_Link_Ic), (Load_Link_Ic, Check_Targ 5), (Check_Targ 5, Target 5)]"

text \<open>A multi-socket numbers its bindings in their order.\<close>

definition bound :: "top_instance \<Rightarrow> top_instance list" where
  "bound m = map snd (filter (\<lambda>b. fst b = m) top_bindings)"

section \<open>Blocking transport\<close>

text \<open>A gate that has one part of the state of the whole.\<close>

definition gate_on :: "('s \<Rightarrow> 'g) \<Rightarrow> ('g \<Rightarrow> 's \<Rightarrow> 's) \<Rightarrow> ('t, 'g) gate \<Rightarrow> ('t, 's) b_transport \<Rightarrow> ('t, 's) b_transport" where
  "gate_on get put gate down tr delay s = do {
     (pass, tr, g) \<leftarrow> gate tr (get s);
     if pass then down tr delay (put g s) else Some (tr, delay, put g s)
   }"

type_synonym 'd top_state = "lock_maps \<times> (u64 \<Rightarrow> bool) \<times> 'd"

text \<open>The longest way has seven instances.\<close>

fun transport_from :: "('a payload_scheme, lock_maps) gate \<Rightarrow> ('a payload_scheme, u64 \<Rightarrow> bool) gate \<Rightarrow>
    (nat \<Rightarrow> ('a payload_scheme, 'd) b_transport) \<Rightarrow> nat \<Rightarrow> top_instance \<Rightarrow> ('a payload_scheme, 'd top_state) b_transport" where
  "transport_from lock link targets 0 m tr delay s = None"
| "transport_from lock link targets (Suc n) m tr delay s =
     (let next = transport_from lock link targets n (hd (bound m)) in
      case m of
        Target k \<Rightarrow> map_option (\<lambda>(tr, delay, d). (tr, delay, fst s, fst (snd s), d)) (targets k tr delay (snd (snd s)))
      | At_Ic \<Rightarrow> at_b_transport (length (bound m)) (\<lambda>k. transport_from lock link targets n (bound m ! k)) tr delay s
      | Lock_Ic \<Rightarrow> gate_on fst (\<lambda>m s. (m, snd s)) lock next tr delay s
      | Load_Link_Ic \<Rightarrow> gate_on (fst \<circ> snd) (\<lambda>L s. (fst s, L, snd (snd s))) link next tr delay s
      | _ \<Rightarrow> next tr delay s)"

definition top_b_transport where
  "top_b_transport lock link targets i = transport_from lock link targets 7 (Initiator i)"

text \<open>The three variants bind the same names to their own classes; target 5 is the \<^verbatim>\<open>Lock_LT_target\<close>.\<close>

definition sticky_top :: "(nat \<Rightarrow> (sticky_tx, unit) b_transport) \<Rightarrow> nat \<Rightarrow> (sticky_tx, unit top_state) b_transport" where
  "sticky_top others = top_b_transport sticky_lock_gate sticky_link_gate (others(5 := lock_target_b_transport))"

definition auto_top :: "(nat \<Rightarrow> (auto_tx, unit) b_transport) \<Rightarrow> nat \<Rightarrow> (auto_tx, unit top_state) b_transport" where
  "auto_top others = top_b_transport auto_lock_gate auto_link_gate (others(5 := lock_target_b_transport))"

definition two_top :: "(nat \<Rightarrow> (two_tx, unit) b_transport) \<Rightarrow> nat \<Rightarrow> (two_tx, unit top_state) b_transport" where
  "two_top others = top_b_transport two_lock_gate two_link_gate (others(5 := lock_target_b_transport))"

section \<open>The way of a call\<close>

lemma bound_at: "bound At_Ic = [Check_Targ 0, Check_Targ 1, Check_Targ 2, Check_Targ 3, Lock_Ic, Load_Link_Ic]"
  by (simp add: bound_def top_bindings_def)

lemma bound_init: "i < 4 \<Longrightarrow> bound (Initiator i) = [Check_Init i] \<and> bound (Check_Init i) = [At_Ic]"
  by (auto simp: bound_def top_bindings_def less_Suc_eq numeral_eq_Suc)

lemma bound_targ: "k < 6 \<Longrightarrow> bound (Check_Targ k) = [Target k]"
  by (auto simp: bound_def top_bindings_def less_Suc_eq numeral_eq_Suc)

lemma bound_ic: "bound Lock_Ic = [Check_Targ 4]" "bound Load_Link_Ic = [Check_Targ 5]"
  by (simp_all add: bound_def top_bindings_def)

definition reach_target :: "('a payload_scheme, 'd) b_transport \<Rightarrow> ('a payload_scheme, 'd top_state) b_transport" where
  "reach_target target tr delay s = map_option (\<lambda>(tr, delay, d). (tr, delay, fst s, fst (snd s), d)) (target tr delay (snd (snd s)))"

text \<open>What a call should become.\<close>

definition top_spec where
  "top_spec lock link targets tr delay s =
     (let k = unat (ucast (drop_bit 8 (address tr)) :: u32) mod 6; tr = tr\<lparr>address := address tr AND 0xff\<rparr> in
      if k = 4 then gate_on fst (\<lambda>m s. (m, snd s)) lock (reach_target (targets 4)) tr delay s
      else if k = 5 then gate_on (fst \<circ> snd) (\<lambda>L s. (fst s, L, snd (snd s))) link (reach_target (targets 5)) tr delay s
      else reach_target (targets k) tr delay s)"

lemma from_targ:
  "k < 6 \<Longrightarrow> transport_from lock link targets (Suc (Suc n)) (Check_Targ k) = reach_target (targets k)"
  by (simp add: fun_eq_iff bound_targ reach_target_def)

lemma from_lock: "transport_from lock link targets (Suc (Suc (Suc n))) Lock_Ic =
    gate_on fst (\<lambda>m s. (m, snd s)) lock (reach_target (targets 4))"
  by (intro ext) (simp add: transport_from.simps(2)[of _ _ _ "Suc (Suc n)"] bound_ic from_targ Let_def del: transport_from.simps)

lemma from_link: "transport_from lock link targets (Suc (Suc (Suc n))) Load_Link_Ic =
    gate_on (fst \<circ> snd) (\<lambda>L s. (fst s, L, snd (snd s))) link (reach_target (targets 5))"
  by (intro ext) (simp add: transport_from.simps(2)[of _ _ _ "Suc (Suc n)"] bound_ic from_targ Let_def del: transport_from.simps)

lemma from_at: "transport_from lock link targets (Suc (Suc (Suc (Suc n)))) At_Ic = top_spec lock link targets"
proof (intro ext)
  fix tr :: "'a payload_scheme" and delay and s :: "'b top_state"
  have k: "unat (ucast (drop_bit 8 (address tr)) :: u32) mod 6 \<in> {0, 1, 2, 3, 4, 5}" by auto
  show "transport_from lock link targets (Suc (Suc (Suc (Suc n)))) At_Ic tr delay s = top_spec lock link targets tr delay s"
    by (subst transport_from.simps)
      (use k in \<open>auto simp add: Let_def at_b_transport_def at_decode_def bound_at top_spec_def from_lock from_link from_targ
        simp del: transport_from.simps\<close>)
qed

lemma top_way: "i < 4 \<Longrightarrow> top_b_transport lock link targets i = top_spec lock link targets"
  using bound_init[of i] from_at[of lock link targets 1]
  by (simp add: top_b_transport_def eval_nat_numeral fun_eq_iff del: transport_from.simps) (simp add: fun_eq_iff)

end
