(* ===== verification/Lock_System.thy ===== *)
theory Lock_System
  imports Lock_Top
begin

text \<open>
  The two threads of the locking initiator in the whole example: their iterations, interleaved in any order, call through
  the interconnects to the targets 4 and 5 and share the pool of transactions.
\<close>

section \<open>Addresses\<close>







section \<open>The system\<close>







section \<open>One iteration\<close>




section \<open>The calls of the threads\<close>







section \<open>Every interleaving\<close>









section \<open>Properties\<close>

text \<open>C37: In each of the three examples a blocking call of any initiator reaches the target that bits 8 and up of its address select
  modulo six, with the low eight bits as the address there; on the way to target 4, and only there, it passes
  the lock interconnect, on the way to target 5, and only there, the load-link interconnect.\<close>

theorem top_routes_calls:
  assumes "i < 4"
  shows "sticky_top others i = top_spec sticky_lock_gate sticky_link_gate (others(5 := lock_target_b_transport)) \<and>
    auto_top others' i = top_spec auto_lock_gate auto_link_gate (others'(5 := lock_target_b_transport)) \<and>
    two_top others'' i = top_spec two_lock_gate two_link_gate (others''(5 := lock_target_b_transport))"
  using assms by (simp add: sticky_top_def auto_top_def two_top_def top_way)

lemma top_routes_calls_witness:
  "auto_top (\<lambda>k tr dl u. Some (tr\<lparr>data_length := of_nat k\<rparr>, dl, u)) 2 ((auto_tx_of None)\<lparr>address := 0xC17\<rparr>) 3 (no_locks, \<lambda>_. False, ()) =
   Some ((auto_tx_of None)\<lparr>address := 0x17, data_length := 0\<rparr>, 3, no_locks, \<lambda>_. False, ())"
proof -
  have *: "auto_top (\<lambda>k tr dl u. Some (tr\<lparr>data_length := of_nat k\<rparr>, dl, u)) 2 =
      top_spec auto_lock_gate auto_link_gate ((\<lambda>k tr dl u. Some (tr\<lparr>data_length := of_nat k\<rparr>, dl, u))(5 := lock_target_b_transport))"
    using top_routes_calls[of 2 "\<lambda>_ _ _ _. None"] by simp
  show ?thesis unfolding * by (simp add: top_spec_def reach_target_def auto_tx_of_def Let_def)
qed



end
