(* ===== verification/Snooping.thy ===== *)
theory Snooping
  imports Transaction_Heap "HOL-Library.Monad_Syntax"
begin

text \<open>
  The bus snooping example (\<^verbatim>\<open>src/locknsnoop/snooping_sticky/snooping.cpp\<close>): two memories behind an
  interconnect, an initiator that executes from a cached copy of a memory region and asks the memory to watch it,
  and an initiator that reads and writes at random, through transactions or through the direct memory interface.
  None of the calls waits, so each of them is one step. The numbers returned by \<^verbatim>\<open>rand()\<close> are arguments;
  the quantum keeper, which only advances local time, is left out (the local time enters as the delay of a
  transaction). A pointer into a memory is the number of the memory and a byte offset; an access outside
  of it is \<open>None\<close>.
\<close>

section \<open>Extension and direct memory interface\<close>

record snoop_extension =
  sx_end_address :: u64
  sx_valid :: bool

text \<open>The constructor leaves \<^verbatim>\<open>end_address\<close> unset.\<close>

definition new_snoop_extension :: "u64 \<Rightarrow> snoop_extension" where
  "new_snoop_extension unset = \<lparr>sx_end_address = unset, sx_valid = False\<rparr>"

definition snoop_extension_clone :: "u64 \<Rightarrow> snoop_extension \<Rightarrow> snoop_extension" where
  "snoop_extension_clone unset this =
     (new_snoop_extension unset)\<lparr>sx_end_address := sx_end_address this, sx_valid := sx_valid this\<rparr>"

definition snoop_extension_copy_from :: "snoop_extension \<Rightarrow> snoop_extension \<Rightarrow> snoop_extension" where
  "snoop_extension_copy_from ext this = this\<lparr>sx_end_address := sx_end_address ext, sx_valid := sx_valid ext\<rparr>"

definition snoop_extension_free :: "snoop_extension \<Rightarrow> snoop_extension" where
  "snoop_extension_free this = this\<lparr>sx_valid := False\<rparr>"

record snoop_tx = payload +
  snoop_ext :: "snoop_extension option"

datatype dmi_access = No_Access | Read_Access | Read_Write_Access

record dmi =
  dmi_ptr :: "nat \<times> nat"
  dmi_start :: u64
  dmi_end :: u64
  read_latency :: sc_time
  write_latency :: sc_time
  granted :: dmi_access

definition is_read_allowed :: "dmi \<Rightarrow> bool" where
  "is_read_allowed d \<longleftrightarrow> granted d \<noteq> No_Access"

definition is_write_allowed :: "dmi \<Rightarrow> bool" where
  "is_write_allowed d \<longleftrightarrow> granted d = Read_Write_Access"

section \<open>Memory\<close>

type_synonym range = "u64 \<times> u64"

record snoop_mem =
  mem_id :: nat
  mem :: "byte list"
  write_snoop :: bool
  snoop_start :: u64
  snoop_end :: u64

definition SIZE :: nat where
  "SIZE = 64"

definition MEM_LATENCY :: sc_time where
  "MEM_LATENCY = ns 50"

text \<open>The constructor fills the memory with arbitrary bytes and leaves the bounds of the snoop unset.\<close>

definition new_memory_of :: "nat \<Rightarrow> byte list \<Rightarrow> u64 \<Rightarrow> u64 \<Rightarrow> snoop_mem" where
  "new_memory_of i bs s e = \<lparr>mem_id = i, mem = bs, write_snoop = False, snoop_start = s, snoop_end = e\<rparr>"

definition read_bytes :: "nat \<Rightarrow> nat \<Rightarrow> byte list \<Rightarrow> byte list option" where
  "read_bytes p n bs = (if p + n \<le> length bs then Some (take n (drop p bs)) else None)"

definition write_bytes :: "nat \<Rightarrow> byte list \<Rightarrow> byte list \<Rightarrow> byte list option" where
  "write_bytes p xs bs = (if p + length xs \<le> length bs then Some (take p bs @ xs @ drop (p + length xs) bs) else None)"

text \<open>\<^verbatim>\<open>memcpy\<close> of \<open>n\<close> bytes out of or into the data buffer of a transaction.\<close>

definition from_buffer :: "nat \<Rightarrow> byte list \<Rightarrow> byte list option" where
  "from_buffer n bs = read_bytes 0 n bs"

definition into_buffer :: "byte list \<Rightarrow> byte list \<Rightarrow> byte list option" where
  "into_buffer xs bs = write_bytes 0 xs bs"

text \<open>A call may invalidate a range of the memory for all initiators: the second last component.\<close>

definition memory_b_transport :: "snoop_tx \<Rightarrow> sc_time \<Rightarrow> snoop_mem \<Rightarrow>
    (snoop_tx \<times> sc_time \<times> range option \<times> snoop_mem) option" where
  "memory_b_transport tr delay m =
     (let cmd = command tr; adr = address tr; len = data_length tr; wid = streaming_width tr;
          done = (\<lambda>tr inval m. Some (tr\<lparr>dmi_allowed := True, response := TLM_OK_RESPONSE\<rparr>, delay + MEM_LATENCY, inval, m))
      in if adr div 4 \<ge> of_nat SIZE \<or> adr mod 4 \<noteq> 0
         then Some (tr\<lparr>response := TLM_ADDRESS_ERROR_RESPONSE\<rparr>, delay, None, m)
         else if byte_enable tr then Some (tr\<lparr>response := TLM_BYTE_ENABLE_ERROR_RESPONSE\<rparr>, delay, None, m)
         else if len \<noteq> 4 \<or> wid \<noteq> 4 then Some (tr\<lparr>response := TLM_BURST_ERROR_RESPONSE\<rparr>, delay, None, m)
         else if cmd = TLM_READ_COMMAND then do {
           word \<leftarrow> read_bytes (4 * unat (adr div 4)) (unat len) (mem m);
           bs \<leftarrow> into_buffer word (data tr);
           done (tr\<lparr>data := bs\<rparr>) None m
         } else if cmd = TLM_WRITE_COMMAND then do {
           word \<leftarrow> from_buffer (unat len) (data tr);
           bs \<leftarrow> write_bytes (4 * unat (adr div 4)) word (mem m);
           let m = m\<lparr>mem := bs\<rparr>;
           if write_snoop m \<and> adr + ucast len > snoop_start m \<and> adr \<le> snoop_end m
           then done tr (Some (snoop_start m, snoop_end m)) (m\<lparr>write_snoop := False\<rparr>)
           else done tr None m
         } else done tr None m)"

text \<open>The first component is the returned status, the last one whether an error was reported.\<close>

definition memory_get_direct_mem_ptr :: "snoop_tx \<Rightarrow> dmi \<Rightarrow> snoop_mem \<Rightarrow>
    bool \<times> dmi \<times> range option \<times> snoop_mem \<times> bool" where
  "memory_get_direct_mem_ptr tr d m =
     (let cmd = command tr;
          regular =
            (let d = d\<lparr>dmi_ptr := (mem_id m, 0), dmi_start := 0, dmi_end := of_nat (SIZE * 4 - 1),
                  read_latency := MEM_LATENCY, write_latency := MEM_LATENCY\<rparr>
             in if write_snoop m \<and> cmd = TLM_WRITE_COMMAND then (False, d, None, m, False)
                else (True, d\<lparr>granted := (if cmd = TLM_WRITE_COMMAND then Read_Write_Access else Read_Access)\<rparr>,
                  None, m, False))
      in case snoop_ext tr of
           None \<Rightarrow> regular
         | Some ext \<Rightarrow>
             if \<not> sx_valid ext then regular
             else if cmd = TLM_READ_COMMAND then
               (let m = m\<lparr>snoop_start := address tr, snoop_end := sx_end_address ext\<rparr>;
                    d = d\<lparr>dmi_ptr := (mem_id m, 4 * unat (snoop_start m div 4)), dmi_start := snoop_start m,
                      dmi_end := snoop_end m, read_latency := MEM_LATENCY, write_latency := MEM_LATENCY,
                      granted := Read_Access\<rparr>
                in if snoop_start m mod 4 \<noteq> 0 then (False, d, None, m, False)
                   else (True, d, Some (snoop_start m, snoop_end m), m\<lparr>write_snoop := True\<rparr>, False))
             else (True, d, None, m, True))"

definition memory_transport_dbg :: "snoop_tx \<Rightarrow> snoop_mem \<Rightarrow> (u32 \<times> snoop_tx \<times> snoop_mem) option" where
  "memory_transport_dbg tr m =
     (let adr = address tr; len = data_length tr in
      if adr mod 4 \<noteq> 0 \<or> len mod 4 \<noteq> 0 then Some (0, tr, m)
      else if adr \<ge> of_nat SIZE * 4 then Some (0, tr, m)
      else
        (let len = (if adr + ucast len > of_nat (SIZE * 4) then of_nat (SIZE * 4) - ucast adr else len) in
         if command tr = TLM_READ_COMMAND then do {
           word \<leftarrow> read_bytes (4 * unat (adr div 4)) (unat len) (mem m);
           bs \<leftarrow> into_buffer word (data tr);
           Some (len, tr\<lparr>data := bs\<rparr>, m)
         } else if command tr = TLM_WRITE_COMMAND then do {
           word \<leftarrow> from_buffer (unat len) (data tr);
           bs \<leftarrow> write_bytes (4 * unat (adr div 4)) word (mem m);
           Some (len, tr, m\<lparr>mem := bs\<rparr>)
         } else Some (len, tr, m)))"

section \<open>Interconnect\<close>

definition decode_address :: "u64 \<Rightarrow> nat \<times> u64" where
  "decode_address a = (unat (drop_bit 8 a AND 1), a AND 0xff)"

definition reconstruct_address :: "u64 \<Rightarrow> nat \<Rightarrow> u64" where
  "reconstruct_address a target = a OR push_bit 8 (of_nat target)"

type_synonym mems = "nat \<Rightarrow> snoop_mem"

definition ic_b_transport :: "snoop_tx \<Rightarrow> sc_time \<Rightarrow> mems \<Rightarrow>
    (snoop_tx \<times> sc_time \<times> (nat \<times> range) option \<times> mems) option" where
  "ic_b_transport tr delay ms = do {
     let (target, masked) = decode_address (address tr);
     (tr, delay, inval, m) \<leftarrow> memory_b_transport (tr\<lparr>address := masked\<rparr>) delay (ms target);
     Some (tr, delay, map_option (Pair target) inval, ms(target := m))
   }"

definition ic_get_direct_mem_ptr :: "snoop_tx \<Rightarrow> dmi \<Rightarrow> mems \<Rightarrow>
    bool \<times> snoop_tx \<times> dmi \<times> (nat \<times> range) option \<times> mems \<times> bool" where
  "ic_get_direct_mem_ptr tr d ms =
     (let (target, masked) = decode_address (address tr);
          tr = tr\<lparr>address := masked\<rparr>;
          tr = (case snoop_ext tr of
                  None \<Rightarrow> tr
                | Some ext \<Rightarrow>
                    if sx_valid ext
                    then tr\<lparr>snoop_ext := Some (ext\<lparr>sx_end_address := snd (decode_address (sx_end_address ext))\<rparr>)\<rparr>
                    else tr);
          (status, d, inval, m, rep) = memory_get_direct_mem_ptr tr d (ms target)
      in (status, tr,
          d\<lparr>dmi_start := reconstruct_address (dmi_start d) target, dmi_end := reconstruct_address (dmi_end d) target\<rparr>,
          map_option (Pair target) inval, ms(target := m), rep))"

definition ic_transport_dbg :: "snoop_tx \<Rightarrow> mems \<Rightarrow> (u32 \<times> snoop_tx \<times> mems) option" where
  "ic_transport_dbg tr ms = do {
     let (target, masked) = decode_address (address tr);
     (n, tr, m) \<leftarrow> memory_transport_dbg (tr\<lparr>address := masked\<rparr>) (ms target);
     Some (n, tr, ms(target := m))
   }"

text \<open>
  The non-blocking calls, which the example does not use: a transaction (here its number \<open>t\<close>) remembers the
  initiator it came from. \<open>fw\<close> and \<open>bw\<close> are the calls on the sockets.
\<close>

definition ic_nb_transport_fw :: "(nat \<Rightarrow> snoop_tx \<Rightarrow> tlm_phase \<Rightarrow> sc_time \<Rightarrow> 'r) \<Rightarrow> nat \<Rightarrow> nat \<Rightarrow> snoop_tx \<Rightarrow>
    tlm_phase \<Rightarrow> sc_time \<Rightarrow> (nat \<Rightarrow> nat) \<Rightarrow> 'r \<times> (nat \<Rightarrow> nat)" where
  "ic_nb_transport_fw fw i t tr phase delay id_map =
     (let (target, masked) = decode_address (address tr)
      in (fw target (tr\<lparr>address := masked\<rparr>) phase delay, id_map(t := i)))"

definition ic_nb_transport_bw :: "(nat \<Rightarrow> snoop_tx \<Rightarrow> tlm_phase \<Rightarrow> sc_time \<Rightarrow> 'r) \<Rightarrow> nat \<Rightarrow> snoop_tx \<Rightarrow>
    tlm_phase \<Rightarrow> sc_time \<Rightarrow> (nat \<Rightarrow> nat) \<Rightarrow> 'r" where
  "ic_nb_transport_bw bw t tr phase delay id_map = bw (id_map t) tr phase delay"

definition ic_range :: "nat \<Rightarrow> range \<Rightarrow> range" where
  "ic_range target r = (reconstruct_address (fst r) target, reconstruct_address (snd r) target)"

section \<open>Initiators\<close>

record snooper =
  count :: u32
  m_dmi_valid :: bool
  m_cache :: "byte list"

definition start_address :: u64 where "start_address = 0x100"

definition end_address :: u64 where "end_address = 0x17F"

definition new_snooper :: "byte list \<Rightarrow> snooper" where
  "new_snooper cache = \<lparr>count = 0, m_dmi_valid = False, m_cache = cache\<rparr>"

definition overlaps :: "u64 \<Rightarrow> u64 \<Rightarrow> u64 \<Rightarrow> u64 \<Rightarrow> bool" where
  "overlaps start_range end_range s e \<longleftrightarrow> start_range \<le> e \<and> end_range \<ge> s"

definition snooper_invalidate :: "range \<Rightarrow> snooper \<Rightarrow> snooper" where
  "snooper_invalidate r sn =
     (if overlaps (fst r) (snd r) start_address end_address then sn\<lparr>m_dmi_valid := False\<rparr> else sn)"

record initiator =
  dmi_table :: "dmi list"
  ini_data :: "byte list"

text \<open>The loop with its index: after an erasure the next entry is at the same index, but the index goes on.\<close>

definition erase_nth :: "nat \<Rightarrow> 'a list \<Rightarrow> 'a list" where
  "erase_nth i xs = take i xs @ drop (Suc i) xs"

lemma length_erase_nth [simp]: "i < length xs \<Longrightarrow> length (erase_nth i xs) = length xs - 1"
  by (simp add: erase_nth_def)

function invalidate_from :: "nat \<Rightarrow> u64 \<Rightarrow> u64 \<Rightarrow> dmi list \<Rightarrow> dmi list" where
  "invalidate_from i start_range end_range table =
     (if i < length table
      then invalidate_from (i + 1) start_range end_range
        (if overlaps start_range end_range (dmi_start (table ! i)) (dmi_end (table ! i))
         then erase_nth i table else table)
      else table)"
  by pat_completeness auto

termination by (relation "measure (\<lambda>(i, _, _, table). length table - i)") auto

declare invalidate_from.simps [simp del]

definition initiator_invalidate :: "range \<Rightarrow> initiator \<Rightarrow> initiator" where
  "initiator_invalidate r ini = ini\<lparr>dmi_table := invalidate_from 0 (fst r) (snd r) (dmi_table ini)\<rparr>"

record system =
  tx_heap :: "snoop_tx heap"
  snooper :: snooper
  ini :: initiator
  memories :: mems

text \<open>\<^verbatim>\<open>Interconnect::invalidate_direct_mem_ptr\<close>: the range goes to all initiators, in the order of binding.\<close>

definition propagate :: "(nat \<times> range) option \<Rightarrow> system \<Rightarrow> system" where
  "propagate inval sys =
     (case inval of
        None \<Rightarrow> sys
      | Some (target, r) \<Rightarrow>
          sys\<lparr>snooper := snooper_invalidate (ic_range target r) (snooper sys),
              ini := initiator_invalidate (ic_range target r) (ini sys)\<rparr>)"

definition read_ptr :: "nat \<times> nat \<Rightarrow> nat \<Rightarrow> mems \<Rightarrow> byte list option" where
  "read_ptr p n ms = read_bytes (snd p) n (mem (ms (fst p)))"

definition write_ptr :: "nat \<times> nat \<Rightarrow> byte list \<Rightarrow> mems \<Rightarrow> mems option" where
  "write_ptr p xs ms = do {
     bs \<leftarrow> write_bytes (snd p) xs (mem (ms (fst p)));
     Some (ms(fst p := (ms (fst p))\<lparr>mem := bs\<rparr>))
   }"

text \<open>
  The thread of \<^verbatim>\<open>Snooping_initiator\<close>: it fetches the region into its cache and then executes from the cache
  while it is valid. \<open>unset\<close> is the uninitialised end address of a new extension, \<open>d\<close> the
  \<^verbatim>\<open>tlm_dmi\<close> object the library constructs. A failed request is fatal (\<open>None\<close>).
\<close>

definition snooper_fetch :: "snoop_tx \<Rightarrow> (snoop_tx \<Rightarrow> snoop_tx) \<Rightarrow> u64 \<Rightarrow> dmi \<Rightarrow> system \<Rightarrow> system option" where
  "snooper_fetch fresh reset unset d sys = do {
     (t, h) \<leftarrow> heap_allocate fresh (tx_heap sys);
     let tr = (txs h t)\<lparr>command := TLM_READ_COMMAND, address := start_address\<rparr>;
     let ext = (case snoop_ext tr of None \<Rightarrow> new_snoop_extension unset | Some ext \<Rightarrow> ext);
     let tr = tr\<lparr>snoop_ext := Some (ext\<lparr>sx_valid := True, sx_end_address := end_address\<rparr>)\<rparr>;
     let (status, tr, d, inval, ms, rep) = ic_get_direct_mem_ptr tr d (memories sys);
     let sys = propagate inval (sys\<lparr>memories := ms\<rparr>);
     if \<not> status then None else do {
       bytes \<leftarrow> read_ptr (dmi_ptr d) (unat (end_address - start_address + 1)) (memories sys);
       cache \<leftarrow> write_bytes 0 bytes (m_cache (snooper sys));
       ext \<leftarrow> snoop_ext tr;
       let tr = tr\<lparr>snoop_ext := Some (ext\<lparr>sx_valid := False\<rparr>)\<rparr>;
       h \<leftarrow> heap_free reset t (put_tx t tr h);
       Some (sys\<lparr>tx_heap := h, snooper := (snooper sys)\<lparr>m_dmi_valid := True, m_cache := cache\<rparr>\<rparr>)
     }
   }"

text \<open>One instruction; after the hundredth the thread waits for ever.\<close>

definition snooper_execute :: "system \<Rightarrow> system" where
  "snooper_execute sys =
     (if m_dmi_valid (snooper sys) \<and> count (snooper sys) \<noteq> 100
      then sys\<lparr>snooper := (snooper sys)\<lparr>count := count (snooper sys) + 1\<rparr>\<rparr> else sys)"

definition snooper_thread :: "snoop_tx \<Rightarrow> (snoop_tx \<Rightarrow> snoop_tx) \<Rightarrow> u64 \<Rightarrow> dmi \<Rightarrow> system \<Rightarrow> system option" where
  "snooper_thread fresh reset unset d sys =
     (if m_dmi_valid (snooper sys) then Some (snooper_execute sys)
      else if count (snooper sys) = 100 then Some sys else snooper_fetch fresh reset unset d sys)"

text \<open>The thread of \<^verbatim>\<open>Initiator\<close>: first the search of the table, then one access of its loop.\<close>

fun dmi_lookup :: "u64 \<Rightarrow> tlm_command \<Rightarrow> dmi list \<Rightarrow> dmi option" where
  "dmi_lookup addr cmd [] = None"
| "dmi_lookup addr cmd (d # ds) =
     (if addr \<ge> dmi_start d \<and> addr \<le> dmi_end d \<and>
         (cmd = TLM_WRITE_COMMAND \<and> is_write_allowed d \<or> cmd = TLM_READ_COMMAND \<and> is_read_allowed d)
      then Some d else dmi_lookup addr cmd ds)"

definition direct_access :: "u64 \<Rightarrow> tlm_command \<Rightarrow> dmi \<Rightarrow> system \<Rightarrow> system option" where
  "direct_access addr cmd d sys =
     (let p = (fst (dmi_ptr d), snd (dmi_ptr d) + unat (addr - dmi_start d)) in
      if cmd = TLM_WRITE_COMMAND then do {
        ms \<leftarrow> write_ptr p (ini_data (ini sys)) (memories sys);
        Some (sys\<lparr>memories := ms\<rparr>)
      } else do {
        bs \<leftarrow> read_ptr p 4 (memories sys);
        Some (sys\<lparr>ini := (ini sys)\<lparr>ini_data := bs\<rparr>\<rparr>)
      })"

definition request_dmi :: "u64 \<Rightarrow> snoop_tx \<Rightarrow> dmi \<Rightarrow> system \<Rightarrow> snoop_tx \<times> system" where
  "request_dmi addr tr d sys =
     (if dmi_allowed tr then
        (let (status, tr, d, inval, ms, rep) = ic_get_direct_mem_ptr (tr\<lparr>address := addr\<rparr>) d (memories sys);
             sys = propagate inval (sys\<lparr>memories := ms\<rparr>)
         in (tr, if status then sys\<lparr>ini := (ini sys)\<lparr>dmi_table := dmi_table (ini sys) @ [d]\<rparr>\<rparr> else sys))
      else (tr, sys))"

definition regular_access :: "snoop_tx \<Rightarrow> (snoop_tx \<Rightarrow> snoop_tx) \<Rightarrow> (tlm_response \<Rightarrow> bool) \<Rightarrow> dmi \<Rightarrow> sc_time \<Rightarrow>
    u64 \<Rightarrow> tlm_command \<Rightarrow> system \<Rightarrow> (bool \<times> system) option" where
  "regular_access fresh reset is_error d delay addr cmd sys = do {
     (t, h) \<leftarrow> heap_allocate fresh (tx_heap sys);
     let tr = (txs h t)\<lparr>command := cmd, address := addr, data := ini_data (ini sys), data_length := 4,
       streaming_width := 4, byte_enable := False, dmi_allowed := False, response := TLM_INCOMPLETE_RESPONSE\<rparr>;
     (tr, delay, inval, ms) \<leftarrow> ic_b_transport tr delay (memories sys);
     let sys = propagate inval (sys\<lparr>memories := ms\<rparr>);
     let sys = sys\<lparr>ini := (ini sys)\<lparr>ini_data := data tr\<rparr>\<rparr>;
     let rep = is_error (response tr);
     let (tr, sys) = request_dmi addr tr d sys;
     h \<leftarrow> heap_free reset t (put_tx t tr h);
     Some (rep, sys\<lparr>tx_heap := h\<rparr>)
   }"

text \<open>\<open>n\<close> and \<open>w\<close> are the two random numbers of an access.\<close>

definition initiator_access :: "snoop_tx \<Rightarrow> (snoop_tx \<Rightarrow> snoop_tx) \<Rightarrow> (tlm_response \<Rightarrow> bool) \<Rightarrow> dmi \<Rightarrow> sc_time \<Rightarrow>
    u32 \<times> bool \<Rightarrow> system \<Rightarrow> (bool \<times> system) option" where
  "initiator_access fresh reset is_error d delay r sys =
     (let addr = push_bit 2 (ucast (fst r mod 128)) :: u64;
          cmd = (if snd r then TLM_WRITE_COMMAND else TLM_READ_COMMAND);
          sys = (if cmd = TLM_WRITE_COMMAND then sys\<lparr>ini := (ini sys)\<lparr>ini_data := int_bytes (ucast addr)\<rparr>\<rparr> else sys)
      in case dmi_lookup addr cmd (dmi_table (ini sys)) of
           Some e \<Rightarrow> map_option (Pair False) (direct_access addr cmd e sys)
         | None \<Rightarrow> regular_access fresh reset is_error d delay addr cmd sys)"

end
