(* ===== verification/Snooping_Dmi.thy ===== *)
theory Snooping_Dmi
  imports Snooping
begin

text \<open>
  The pieces of the snooping example in isolation: addresses through the interconnect, the invalidation loop of
  the initiator, and single accesses to the memory.
\<close>

section \<open>Addresses\<close>

lemma decode_fst: "fst (decode_address a) = unat a div 256 mod 2"
proof -
  have "drop_bit 8 a AND 1 = drop_bit 8 a mod 2" by (simp add: and_one_eq)
  then show ?thesis by (simp add: decode_address_def unat_mod unat_div drop_bit_eq_div)
qed

lemma decode_snd: "snd (decode_address a) = word_of_nat (unat a mod 256)"
proof -
  have "a AND 0xff = take_bit 8 a" by (simp add: take_bit_eq_mask mask_numeral)
  then have "unat (a AND 0xff) = unat a mod 256" by (simp add: take_bit_eq_mod unat_mod)
  moreover have "unat (word_of_nat (unat a mod 256) :: u64) = unat a mod 256"
    by (simp add: unsigned_of_nat take_bit_nat_eq_self order.strict_trans[OF mod_less_divisor])
  ultimately show ?thesis by (simp add: decode_address_def word_unat_eq_iff)
qed

lemma decode_unat: "decode_address a = (unat a div 256 mod 2, word_of_nat (unat a mod 256))"
  by (rule prod_eqI) (simp_all add: decode_fst decode_snd)

lemma reconstruct_unat:
  assumes "a < 256" and "t < 2"
  shows "unat (reconstruct_address a t) = unat a + 256 * t"
proof -
  have a: "unat a < 256" using unat_mono[OF assms(1)] by simp
  consider "t = 0" | "t = 1" using assms(2) by linarith
  then show ?thesis
  proof cases
    case 2
    have e: "a = take_bit 8 a" using a by (simp add: word_unat_eq_iff take_bit_eq_mod unat_mod)
    have "a AND push_bit 8 1 = 0"
      by (subst e, rule bit_word_eqI) (unfold bit_and_iff bit_take_bit_iff bit_push_bit_iff, simp)
    then have "a OR push_bit 8 1 = a + push_bit 8 1" by (simp add: disjunctive_add_eq_or)
    then show ?thesis using a 2 by (simp add: reconstruct_address_def unat_word_ariths push_bit_eq_mult)
  qed (simp add: reconstruct_address_def)
qed

lemma reconstruct_decode:
  assumes "a < 512"
  shows "fst (decode_address a) < 2" "snd (decode_address a) < 256"
    "reconstruct_address (snd (decode_address a)) (fst (decode_address a)) = a"
    "unat (snd (decode_address a)) = unat a mod 256" "fst (decode_address a) = unat a div 256"
proof -
  have a: "unat a < 512" using unat_mono[OF assms] by simp
  have u: "unat (snd (decode_address a)) = unat a mod 256"
    by (simp add: decode_snd unsigned_of_nat take_bit_nat_eq_self order.strict_trans[OF mod_less_divisor])
  then show "unat (snd (decode_address a)) = unat a mod 256" .
  show t: "fst (decode_address a) < 2" by (simp add: decode_fst)
  show d: "fst (decode_address a) = unat a div 256" using a by (simp add: decode_fst)
  show m: "snd (decode_address a) < 256" using u by (simp add: word_less_nat_alt)
  show "reconstruct_address (snd (decode_address a)) (fst (decode_address a)) = a"
    using reconstruct_unat[OF m t] u d by (simp only: word_unat_eq_iff) simp
qed

text \<open>the interconnect maps addresses without a clash: decoding and reconstructing are inverse to each other
  between the addresses below 512 and the pairs of a memory number and an address below 256, so a range
  reported by a memory is translated to the range of system addresses it came from.\<close>
theorem decode_reconstruct_roundtrip:
  "(\<forall>a < 512. (case decode_address a of (t, m) \<Rightarrow> t < 2 \<and> m < 256 \<and> reconstruct_address m t = a)) \<and>
   (\<forall>m < 256. \<forall>t < 2. decode_address (reconstruct_address m t) = (t, m) \<and> reconstruct_address m t < 512)"
proof (intro conjI allI impI)
  fix a :: u64
  assume "a < 512"
  from reconstruct_decode[OF this] show "case decode_address a of (t, m) \<Rightarrow> t < 2 \<and> m < 256 \<and> reconstruct_address m t = a"
    by (cases "decode_address a") simp
next
  fix m :: u64 and t :: nat
  assume "m < 256" and "t < 2"
  have m: "unat m < 256" using unat_mono[OF \<open>m < 256\<close>] by simp
  note u = reconstruct_unat[OF \<open>m < 256\<close> \<open>t < 2\<close>]
  show "decode_address (reconstruct_address m t) = (t, m)"
    using m \<open>t < 2\<close> by (simp add: decode_unat u)
  show "reconstruct_address m t < 512" using m \<open>t < 2\<close> by (simp add: word_less_nat_alt u)
qed

theorem decode_reconstruct_roundtrip_witness:
  "decode_address 0x17C = (1, 0x7C) \<and> reconstruct_address 0x7C 1 = 0x17C"
proof -
  have "(0x7C :: u64) < 256" "(1 :: nat) < 2" by simp_all
  then have *: "decode_address (reconstruct_address 0x7C 1) = (1, 0x7C)"
    using conjunct2[OF decode_reconstruct_roundtrip] by blast
  moreover have "reconstruct_address 0x7C 1 = 0x17C" by (simp add: reconstruct_address_def)
  ultimately show ?thesis by simp
qed

section \<open>The invalidation loop\<close>

text \<open>What the loop does: after each overlapping entry it skips the next one.\<close>

fun prune :: "(dmi \<Rightarrow> bool) \<Rightarrow> dmi list \<Rightarrow> dmi list" where
  "prune P [] = []"
| "prune P [d] = (if P d then [] else [d])"
| "prune P (d # e # ds) = (if P d then e # prune P ds else d # prune P (e # ds))"

lemma invalidate_from_prune:
  "invalidate_from (length xs) s e (xs @ ds) = xs @ prune (\<lambda>d :: dmi. overlaps s e (dmi_start d) (dmi_end d)) ds"
proof (induction "\<lambda>d :: dmi. overlaps s e (dmi_start d) (dmi_end d)" ds arbitrary: xs rule: prune.induct)
  case 1
  then show ?case by (simp add: invalidate_from.simps)
next
  case (2 d)
  show ?case
    by (subst invalidate_from.simps, simp add: erase_nth_def)
      (simp add: invalidate_from.simps[of "Suc (length xs)"])
next
  case (3 d e' ds)
  show ?case
  proof (cases "overlaps s e (dmi_start d) (dmi_end d)")
    case True
    then show ?thesis
      using 3(1)[OF True, of "xs @ [e']"] by (subst invalidate_from.simps) (simp add: erase_nth_def)
  next
    case False
    then show ?thesis
      using 3(2)[OF False, of "xs @ [d]"] by (subst invalidate_from.simps) simp
  qed
qed

lemma initiator_invalidate_prune:
  "dmi_table (initiator_invalidate r i) = prune (\<lambda>d :: dmi. overlaps (fst r) (snd r) (dmi_start d) (dmi_end d)) (dmi_table i)"
  using invalidate_from_prune[of "[]"] by (simp add: initiator_invalidate_def)

lemma prune_filter: "length (filter P ds) \<le> 1 \<Longrightarrow> prune P ds = filter (\<lambda>d. \<not> P d) ds"
proof (induction P ds rule: prune.induct)
  case (3 P d e ds)
  then show ?case by (cases "P d") (auto simp: filter_empty_conv filter_id_conv dest: sym)
qed auto

lemma prune_subset: "set (prune P ds) \<subseteq> set ds"
  by (induction P ds rule: prune.induct) auto

lemma prune_complete:
  "(\<forall>d \<in> set (prune P ds). \<not> P d) \<longleftrightarrow> (\<forall>i. Suc i < length ds \<longrightarrow> \<not> (P (ds ! i) \<and> P (ds ! Suc i)))"
proof (induction P ds rule: prune.induct)
  case (3 P d e ds)
  show ?case
  proof (cases "P d")
    case False
    then show ?thesis using 3(2) by (simp add: All_less_Suc2)
  next
    case True
    show ?thesis
    proof (cases "P e")
      case True
      with \<open>P d\<close> show ?thesis by force
    next
      case False
      have "(\<forall>i. Suc i < length (e # ds) \<longrightarrow> \<not> (P ((e # ds) ! i) \<and> P ((e # ds) ! Suc i))) \<longleftrightarrow>
          (\<forall>i. Suc i < length ds \<longrightarrow> \<not> (P (ds ! i) \<and> P (ds ! Suc i)))"
        using False by (cases ds) (simp_all add: All_less_Suc2)
      with True False 3(1) show ?thesis by (simp add: All_less_Suc2)
    qed
  qed
qed auto

lemma prune_keeps: "filter (\<lambda>d. \<not> P d) (prune P ds) = filter (\<lambda>d. \<not> P d) ds"
  by (induction P ds rule: prune.induct) auto

text \<open>C33: the invalidation loop of the initiator never drops an entry outside the range, but it removes all the
  entries that overlap the range exactly when no two of them stand next to each other: after an erasure the
  next entry is skipped.\<close>
theorem invalidation_complete_iff_not_adjacent:
  fixes i :: initiator and r :: range
  defines "hit \<equiv> \<lambda>d :: dmi. overlaps (fst r) (snd r) (dmi_start d) (dmi_end d)"
  shows "filter (\<lambda>d. \<not> hit d) (dmi_table (initiator_invalidate r i)) = filter (\<lambda>d. \<not> hit d) (dmi_table i) \<and>
    ((\<forall>d \<in> set (dmi_table (initiator_invalidate r i)). \<not> hit d) \<longleftrightarrow>
     (\<forall>k. Suc k < length (dmi_table i) \<longrightarrow> \<not> (hit (dmi_table i ! k) \<and> hit (dmi_table i ! Suc k))))"
  unfolding initiator_invalidate_prune hit_def by (intro conjI prune_keeps prune_complete)

definition dmi_of :: "nat \<Rightarrow> dmi_access \<Rightarrow> dmi" where
  "dmi_of t g = \<lparr>dmi_ptr = (t, 0), dmi_start = reconstruct_address 0 t, dmi_end = reconstruct_address 255 t,
     read_latency = MEM_LATENCY, write_latency = MEM_LATENCY, granted = g\<rparr>"

theorem invalidation_complete_iff_not_adjacent_witness:
  "\<exists>d \<in> set (dmi_table (initiator_invalidate (0x100, 0x17F)
     \<lparr>dmi_table = [dmi_of 1 Read_Access, dmi_of 1 Read_Write_Access], ini_data = []\<rparr>)).
     overlaps 0x100 0x17F (dmi_start d) (dmi_end d)"
proof -
  let ?i = "\<lparr>dmi_table = [dmi_of 1 Read_Access, dmi_of 1 Read_Write_Access], ini_data = []\<rparr>"
  have "overlaps 0x100 0x17F (dmi_start (dmi_of 1 g)) (dmi_end (dmi_of 1 g))" for g
    by (simp add: overlaps_def dmi_of_def reconstruct_address_def)
  then have "\<not> (\<forall>k. Suc k < length (dmi_table ?i) \<longrightarrow> \<not> (overlaps 0x100 0x17F (dmi_start (dmi_table ?i ! k)) (dmi_end (dmi_table ?i ! k)) \<and>
      overlaps 0x100 0x17F (dmi_start (dmi_table ?i ! Suc k)) (dmi_end (dmi_table ?i ! Suc k))))" by simp
  then show ?thesis
    using conjunct2[OF invalidation_complete_iff_not_adjacent[of "(0x100, 0x17F)" ?i]] by simp blast
qed

section \<open>Single accesses to a memory\<close>

lemma read_bytes_some [simp]: "p + n \<le> length bs \<Longrightarrow> read_bytes p n bs = Some (take n (drop p bs))"
  by (simp add: read_bytes_def)

lemma write_bytes_some [simp]:
  "p + length xs \<le> length bs \<Longrightarrow> write_bytes p xs bs = Some (take p bs @ xs @ drop (p + length xs) bs)"
  by (simp add: write_bytes_def)

definition word_access :: "snoop_tx \<Rightarrow> bool" where
  "word_access tr \<longleftrightarrow> address tr < 256 \<and> 4 dvd unat (address tr) \<and> \<not> byte_enable tr \<and> data_length tr = 4 \<and>
     streaming_width tr = 4 \<and> length (data tr) = 4"

lemma word_access_address:
  assumes "word_access tr"
  shows "4 * unat (address tr div 4) = unat (address tr)" "unat (address tr) + 4 \<le> 256"
    "\<not> address tr div 4 \<ge> of_nat SIZE" "address tr mod 4 = 0"
proof -
  have a: "unat (address tr) < 256" using unat_mono[of "address tr" 256] assms by (simp add: word_access_def)
  have d: "4 dvd unat (address tr)" using assms by (simp add: word_access_def)
  show "4 * unat (address tr div 4) = unat (address tr)" using d by (simp add: unat_div)
  show "unat (address tr) + 4 \<le> 256" using a d by (auto elim!: dvdE)
  have "unat (address tr div 4) < 64" using a by (simp add: unat_div)
  then show "\<not> address tr div 4 \<ge> of_nat SIZE" by (simp add: SIZE_def word_le_nat_alt)
  show "address tr mod 4 = 0" using d by (simp add: word_unat_eq_iff unat_mod)
qed

lemma memory_read:
  assumes "word_access tr" and "length (mem m) = 256" and "command tr = TLM_READ_COMMAND"
  shows "memory_b_transport tr delay m =
    Some (tr\<lparr>data := take 4 (drop (unat (address tr)) (mem m)), dmi_allowed := True, response := TLM_OK_RESPONSE\<rparr>,
      delay + MEM_LATENCY, None, m)"
  using word_access_address[OF assms(1)] assms
  by (simp add: memory_b_transport_def into_buffer_def word_access_def Let_def)

lemma memory_write:
  assumes "word_access tr" and "length (mem m) = 256" and "command tr = TLM_WRITE_COMMAND"
    and "m' = m\<lparr>mem := take (unat (address tr)) (mem m) @ data tr @ drop (unat (address tr) + 4) (mem m)\<rparr>"
    and "caught \<longleftrightarrow> write_snoop m \<and> address tr + 4 > snoop_start m \<and> address tr \<le> snoop_end m"
  shows "memory_b_transport tr delay m =
    Some (tr\<lparr>dmi_allowed := True, response := TLM_OK_RESPONSE\<rparr>, delay + MEM_LATENCY,
      if caught then Some (snoop_start m, snoop_end m) else None, if caught then m'\<lparr>write_snoop := False\<rparr> else m')"
  using word_access_address[OF assms(1)] assms
  by (simp add: memory_b_transport_def from_buffer_def word_access_def Let_def)

text \<open>Requests in the address space of the system.\<close>

definition word_request :: "snoop_tx \<Rightarrow> bool" where
  "word_request tr \<longleftrightarrow> address tr < 512 \<and> 4 dvd unat (address tr) \<and> \<not> byte_enable tr \<and> data_length tr = 4 \<and>
     streaming_width tr = 4 \<and> length (data tr) = 4"

lemma word_request_decode:
  assumes "word_request tr" and "decode_address (address tr) = (t, a)"
  shows "word_access (tr\<lparr>address := a\<rparr>)" "t < 2" "unat (address tr) = unat a + 256 * t" "unat a + 4 \<le> 256" "4 dvd unat a"
proof -
  have lt: "address tr < 512" using assms(1) by (simp add: word_request_def)
  note d = reconstruct_decode[OF lt, unfolded assms(2), simplified]
  have "4 dvd unat a" using assms(1) d(4) by (simp add: word_request_def dvd_mod)
  then show w: "word_access (tr\<lparr>address := a\<rparr>)" using assms(1) d(2) by (simp add: word_access_def word_request_def)
  show "t < 2" by (fact d(1))
  show "unat (address tr) = unat a + 256 * t" using d(4,5) by simp
  show "unat a + 4 \<le> 256" using word_access_address(2)[OF w] by simp
  show "4 dvd unat a" by fact
qed

lemma ic_write:
  assumes "word_request tr" and "decode_address (address tr) = (t, a)" and "length (mem (ms t)) = 256"
    and "command tr = TLM_WRITE_COMMAND"
    and "m' = (ms t)\<lparr>mem := take (unat a) (mem (ms t)) @ data tr @ drop (unat a + 4) (mem (ms t))\<rparr>"
    and "caught \<longleftrightarrow> write_snoop (ms t) \<and> a + 4 > snoop_start (ms t) \<and> a \<le> snoop_end (ms t)"
  shows "ic_b_transport tr delay ms =
    Some (tr\<lparr>address := a, dmi_allowed := True, response := TLM_OK_RESPONSE\<rparr>, delay + MEM_LATENCY,
      if caught then Some (t, snoop_start (ms t), snoop_end (ms t)) else None,
      ms(t := if caught then m'\<lparr>write_snoop := False\<rparr> else m'))"
  using memory_write[OF word_request_decode(1)[OF assms(1,2)] assms(3), of m' caught delay] assms
  by (simp add: ic_b_transport_def)

lemma ic_read:
  assumes "word_request tr" and "decode_address (address tr) = (t, a)" and "length (mem (ms t)) = 256"
    and "command tr = TLM_READ_COMMAND"
  shows "ic_b_transport tr delay ms =
    Some (tr\<lparr>address := a, data := take 4 (drop (unat a) (mem (ms t))), dmi_allowed := True, response := TLM_OK_RESPONSE\<rparr>,
      delay + MEM_LATENCY, None, ms)"
  using memory_read[OF word_request_decode(1)[OF assms(1,2)] assms(3), of delay] assms(2,4)
  by (simp add: ic_b_transport_def)

lemma aligned_slices:
  assumes "length w = 4" and "length bs = 256" and "4 dvd a" and "4 dvd b" and "a + 4 \<le> 256" and "b + 4 \<le> (256 :: nat)"
  shows "take 4 (drop b (take a bs @ w @ drop (a + 4) bs)) = (if a = b then w else take 4 (drop b bs))"
proof -
  consider "a = b" | "b + 4 \<le> a" | "a + 4 \<le> b"
    using assms(3,4) by (auto elim!: dvdE) linarith
  then show ?thesis
  proof cases
    case 2
    then have "4 \<le> a - b" by simp
    then show ?thesis using 2 assms by (simp add: drop_take min_def)
  next
    case 3
    then have "drop b (take a bs @ w @ drop (a + 4) bs) = drop b bs" using assms by simp
    then show ?thesis using 3 by simp
  qed (use assms in simp)
qed

text \<open>C32: the two memories behind the interconnect are one memory of 128 words: a word written through a
  transaction to any aligned address below 512 is read back unchanged at that address, and every other word
  keeps its value; both transactions succeed and take 50 ns.\<close>
theorem interconnect_write_read:
  assumes "\<forall>t < 2. length (mem (ms t)) = 256" and "word_request w" and "command w = TLM_WRITE_COMMAND"
    and "word_request r" and "command r = TLM_READ_COMMAND"
  shows "\<exists>w' inval ms' r'. ic_b_transport w d1 ms = Some (w', d1 + MEM_LATENCY, inval, ms') \<and> response w' = TLM_OK_RESPONSE \<and>
    ic_b_transport r d2 ms' = Some (r', d2 + MEM_LATENCY, None, ms') \<and> response r' = TLM_OK_RESPONSE \<and>
    data r' = (if address r = address w then data w
      else take 4 (drop (unat (address r) mod 256) (mem (ms (unat (address r) div 256)))))"
proof -
  obtain t a where W: "decode_address (address w) = (t, a)" by (cases "decode_address (address w)")
  obtain u b where R: "decode_address (address r) = (u, b)" by (cases "decode_address (address r)")
  note w = word_request_decode[OF assms(2) W] and r = word_request_decode[OF assms(4) R]
  have len: "length (data w) = 4" using assms(2) by (simp add: word_request_def)
  let ?bs = "take (unat a) (mem (ms t)) @ data w @ drop (unat a + 4) (mem (ms t))"
  let ?caught = "write_snoop (ms t) \<and> a + 4 > snoop_start (ms t) \<and> a \<le> snoop_end (ms t)"
  define m' where "m' = (ms t)\<lparr>mem := ?bs\<rparr>"
  define ms' where "ms' = ms(t := if ?caught then m'\<lparr>write_snoop := False\<rparr> else m')"
  have mem': "mem (ms' u) = (if u = t then ?bs else mem (ms u))" by (simp add: ms'_def m'_def)
  have "length (mem (ms' u)) = 256" using assms(1) w r len by (simp add: mem')
  from ic_read[where ms = ms' and delay = d2, OF assms(4) R this assms(5)]
  have read: "ic_b_transport r d2 ms' = Some (r\<lparr>address := b, data := take 4 (drop (unat b) (mem (ms' u))),
      dmi_allowed := True, response := TLM_OK_RESPONSE\<rparr>, d2 + MEM_LATENCY, None, ms')" .
  have same: "address r = address w \<longleftrightarrow> u = t \<and> unat b = unat a"
  proof -
    have "x + 256 * u = y + 256 * t \<longleftrightarrow> u = t \<and> x = y" if "x + 4 \<le> 256" "y + 4 \<le> 256" for x y :: nat
    proof
      assume e: "x + 256 * u = y + 256 * t"
      have "u = (x + 256 * u) div 256" "t = (y + 256 * t) div 256" using that by simp_all
      with e show "u = t \<and> x = y" by (metis add_right_cancel)
    qed simp
    from this[OF r(4) w(4)] show ?thesis unfolding word_unat_eq_iff[of "address r"] w(3) r(3) .
  qed
  have idx: "unat (address r) mod 256 = unat b" "unat (address r) div 256 = u" using r(3,4) by simp_all
  have "take 4 (drop (unat b) (mem (ms' u))) = (if address r = address w then data w else take 4 (drop (unat b) (mem (ms u))))"
    unfolding mem' same using aligned_slices[OF len _ w(5) r(5) w(4) r(4), of "mem (ms t)"] assms(1) w(2) by auto
  then show ?thesis
    using read ic_write[where ms = ms and delay = d1, OF assms(2) W _ assms(3) m'_def refl] assms(1) w(2) by (simp add: idx flip: ms'_def)
qed

definition word_tx :: "tlm_command \<Rightarrow> u64 \<Rightarrow> byte list \<Rightarrow> snoop_tx" where
  "word_tx c a bs = \<lparr>command = c, address = a, data = bs, data_length = 4, byte_enable = False, streaming_width = 4,
     dmi_allowed = False, response = TLM_INCOMPLETE_RESPONSE, manager = Pool_Manager, snoop_ext = None\<rparr>"

theorem interconnect_write_read_witness:
  "\<exists>w' inval ms' r'. ic_b_transport (word_tx TLM_WRITE_COMMAND 0x104 [1, 2, 3, 4]) 0
      (\<lambda>t. new_memory_of t (replicate 256 0) 0 0) = Some (w', MEM_LATENCY, inval, ms') \<and>
    ic_b_transport (word_tx TLM_READ_COMMAND 0x104 [0, 0, 0, 0]) 0 ms' = Some (r', MEM_LATENCY, None, ms') \<and>
    data r' = [1, 2, 3, 4]"
  using interconnect_write_read[of "\<lambda>t. new_memory_of t (replicate 256 0) 0 0" "word_tx TLM_WRITE_COMMAND 0x104 [1, 2, 3, 4]"
      "word_tx TLM_READ_COMMAND 0x104 [0, 0, 0, 0]" 0 0]
  by (simp add: new_memory_of_def word_tx_def word_request_def) blast

end
