(* ===== verification/Snooping_Coherence.thy ===== *)
theory Snooping_Coherence
  imports Snooping_Dmi
begin

text \<open>
  The point of the example: while the snooping initiator believes its cache to be valid, it holds what the memory
  holds. This is an invariant of all runs in which the snooping initiator makes its first request before the
  other one starts, and fails when it does not.
\<close>

lemma decode_region [simp]:
  "decode_address start_address = (1, 0)" "decode_address end_address = (1, 0x7F)"
  by (simp_all add: decode_address_def start_address_def end_address_def)

declare One_nat_def [simp del]

section \<open>Runs\<close>

datatype action = Snooper | Access "u32 \<times> bool" sc_time

fun sys_step :: "snoop_tx \<Rightarrow> (snoop_tx \<Rightarrow> snoop_tx) \<Rightarrow> (tlm_response \<Rightarrow> bool) \<Rightarrow> u64 \<Rightarrow> dmi \<Rightarrow> action \<Rightarrow> system \<Rightarrow>
    system option" where
  "sys_step fresh reset is_error unset d Snooper sys = snooper_thread fresh reset unset d sys"
| "sys_step fresh reset is_error unset d (Access r delay) sys =
     map_option snd (initiator_access fresh reset is_error d delay r sys)"

fun sys_run :: "snoop_tx \<Rightarrow> (snoop_tx \<Rightarrow> snoop_tx) \<Rightarrow> (tlm_response \<Rightarrow> bool) \<Rightarrow> u64 \<Rightarrow> dmi \<Rightarrow> action list \<Rightarrow> system \<Rightarrow>
    system option" where
  "sys_run fresh reset is_error unset d [] sys = Some sys"
| "sys_run fresh reset is_error unset d (a # as) sys = do {
     sys \<leftarrow> sys_step fresh reset is_error unset d a sys;
     sys_run fresh reset is_error unset d as sys
   }"

definition start_system :: "snoop_tx \<Rightarrow> (nat \<Rightarrow> byte list) \<Rightarrow> (nat \<Rightarrow> range) \<Rightarrow> byte list \<Rightarrow> byte list \<Rightarrow> system" where
  "start_system fresh content bounds cache buf =
     \<lparr>tx_heap = new_heap fresh, snooper = new_snooper cache, ini = \<lparr>dmi_table = [], ini_data = buf\<rparr>,
      memories = (\<lambda>i. new_memory_of i (content i) (fst (bounds i)) (snd (bounds i)))\<rparr>"

text \<open>The library: a new transaction has no extension, \<^verbatim>\<open>reset()\<close> keeps the sticky ones.\<close>

definition snoop_library :: "snoop_tx \<Rightarrow> (snoop_tx \<Rightarrow> snoop_tx) \<Rightarrow> bool" where
  "snoop_library fresh reset \<longleftrightarrow> snoop_ext fresh = None \<and> (\<forall>tr. snoop_ext (reset tr) = snoop_ext tr)"

section \<open>The invariant\<close>

definition snoop_idle :: "snoop_tx \<Rightarrow> bool" where
  "snoop_idle tr \<longleftrightarrow> (\<forall>e. snoop_ext tr = Some e \<longrightarrow> \<not> sx_valid e)"

definition entry_ok :: "dmi \<Rightarrow> bool" where
  "entry_ok d \<longleftrightarrow> (\<exists>t < 2. dmi_ptr d = (t, 0) \<and> dmi_start d = reconstruct_address 0 t \<and>
     dmi_end d = reconstruct_address 255 t) \<and> granted d \<noteq> No_Access"

definition target_of :: "dmi \<Rightarrow> nat" where
  "target_of d = fst (dmi_ptr d)"

definition region_entries :: "dmi list \<Rightarrow> dmi list" where
  "region_entries ds = filter (\<lambda>d. target_of d = 1) ds"

definition base_ok :: "system \<Rightarrow> bool" where
  "base_ok sys \<longleftrightarrow> heap_ok snoop_idle [] (tx_heap sys) \<and>
     (\<forall>t < 2. mem_id (memories sys t) = t \<and> length (mem (memories sys t)) = 256) \<and>
     \<not> write_snoop (memories sys 0) \<and> (\<forall>d \<in> set (dmi_table (ini sys)). entry_ok d) \<and>
     length (ini_data (ini sys)) = 4 \<and> length (m_cache (snooper sys)) = 256 \<and>
     length (region_entries (dmi_table (ini sys))) \<le> 1"

text \<open>The cached region is the first half of memory 1.\<close>

definition snoop_inv :: "system \<Rightarrow> bool" where
  "snoop_inv sys \<longleftrightarrow> base_ok sys \<and>
     (if m_dmi_valid (snooper sys)
      then write_snoop (memories sys 1) \<and> snoop_start (memories sys 1) = 0 \<and> snoop_end (memories sys 1) = 0x7F \<and>
        take 128 (m_cache (snooper sys)) = take 128 (mem (memories sys 1)) \<and>
        (\<forall>d \<in> set (region_entries (dmi_table (ini sys))). granted d = Read_Access)
      else \<not> write_snoop (memories sys 1) \<and>
        (\<exists>d. region_entries (dmi_table (ini sys)) = [d] \<and> granted d = Read_Write_Access))"

lemma snoop_ranges [simp]:
  "ic_range 1 (0, 0x7F) = (0x100, 0x17F)" "overlaps 0x100 0x17F start_address end_address"
  by (simp_all add: ic_range_def reconstruct_address_def overlaps_def start_address_def end_address_def)

lemma entry_overlaps:
  assumes "entry_ok d"
  shows "overlaps 0x100 0x17F (dmi_start d) (dmi_end d) \<longleftrightarrow> target_of d = 1"
proof -
  obtain t where t: "t < 2" "dmi_ptr d = (t, 0)" "dmi_start d = reconstruct_address 0 t" "dmi_end d = reconstruct_address 255 t"
    using assms by (auto simp: entry_ok_def)
  then consider "t = 0" | "t = 1" by linarith
  then show ?thesis using t by cases (simp_all add: overlaps_def target_of_def reconstruct_address_def)
qed

lemma entry_covers:
  assumes "entry_ok d" and "decode_address a = (t, m)" and "a < 512"
  shows "a \<ge> dmi_start d \<and> a \<le> dmi_end d \<longleftrightarrow> target_of d = t"
proof -
  obtain u where u: "u < 2" "dmi_ptr d = (u, 0)" "dmi_start d = reconstruct_address 0 u" "dmi_end d = reconstruct_address 255 u"
    using assms(1) by (auto simp: entry_ok_def)
  have b: "unat (dmi_start d) = 256 * u" "unat (dmi_end d) = 255 + 256 * u"
    using reconstruct_unat[of 0 u] reconstruct_unat[of 255 u] u by simp_all
  have "t = unat a div 256" using reconstruct_decode(5)[OF assms(3)] assms(2) by simp
  moreover have "unat a < 512" using unat_mono[OF assms(3)] by simp
  ultimately have "(256 * u \<le> unat a \<and> unat a \<le> 255 + 256 * u) \<longleftrightarrow> u = t" by auto
  then show ?thesis using b u(2) by (simp add: word_le_nat_alt target_of_def)
qed

lemma lookup_some:
  "dmi_lookup a c ds = Some d \<Longrightarrow> d \<in> set ds \<and> a \<ge> dmi_start d \<and> a \<le> dmi_end d \<and> (c = TLM_WRITE_COMMAND \<longrightarrow> is_write_allowed d)"
  by (induction ds) (auto split: if_splits)

lemma lookup_none:
  "dmi_lookup a c ds = None \<Longrightarrow> d \<in> set ds \<Longrightarrow> a \<ge> dmi_start d \<Longrightarrow> a \<le> dmi_end d \<Longrightarrow>
    (c = TLM_WRITE_COMMAND \<longrightarrow> \<not> is_write_allowed d) \<and> (c = TLM_READ_COMMAND \<longrightarrow> \<not> is_read_allowed d)"
  by (induction ds) (auto split: if_splits)

text \<open>With at most one entry for memory 1 the invalidation of the cached region is complete.\<close>

lemma region_invalidated:
  assumes "\<forall>d \<in> set (dmi_table i). entry_ok d" and "length (region_entries (dmi_table i)) \<le> 1"
  shows "dmi_table (initiator_invalidate (0x100, 0x17F) i) = filter (\<lambda>d. target_of d \<noteq> 1) (dmi_table i)"
    "region_entries (dmi_table (initiator_invalidate (0x100, 0x17F) i)) = []"
    "ini_data (initiator_invalidate r i) = ini_data i"
proof -
  let ?P = "\<lambda>d :: dmi. overlaps 0x100 0x17F (dmi_start d) (dmi_end d)"
  have "filter ?P (dmi_table i) = region_entries (dmi_table i)"
    unfolding region_entries_def by (rule filter_cong[OF refl]) (use assms(1) entry_overlaps in blast)
  then have "prune ?P (dmi_table i) = filter (\<lambda>d. \<not> ?P d) (dmi_table i)" using assms(2) by (intro prune_filter) simp
  also have "\<dots> = filter (\<lambda>d. target_of d \<noteq> 1) (dmi_table i)"
    by (rule filter_cong[OF refl]) (use assms(1) entry_overlaps in blast)
  finally show t: "dmi_table (initiator_invalidate (0x100, 0x17F) i) = filter (\<lambda>d. target_of d \<noteq> 1) (dmi_table i)"
    by (simp add: initiator_invalidate_prune)
  show "region_entries (dmi_table (initiator_invalidate (0x100, 0x17F) i)) = []" by (simp add: t region_entries_def)
  show "ini_data (initiator_invalidate r i) = ini_data i" by (simp add: initiator_invalidate_def)
qed

section \<open>The snooping initiator\<close>

text \<open>The state after a fetch, up to the transaction pool.\<close>

definition fetched :: "system \<Rightarrow> system" where
  "fetched sys = sys\<lparr>
     memories := (memories sys)(1 := (memories sys 1)\<lparr>snoop_start := 0, snoop_end := 0x7F, write_snoop := True\<rparr>),
     ini := initiator_invalidate (0x100, 0x17F) (ini sys),
     snooper := (snooper sys)\<lparr>m_dmi_valid := True,
       m_cache := take 128 (mem (memories sys 1)) @ drop 128 (m_cache (snooper sys))\<rparr>\<rparr>"

lemma fetch_eq:
  assumes lib: "snoop_library fresh reset" and hp: "heap_ok snoop_idle [] (tx_heap sys)"
    and id1: "mem_id (memories sys 1) = 1" and len: "length (mem (memories sys 1)) = 256"
    and cl: "length (m_cache (snooper sys)) = 256"
  shows "\<exists>h'. heap_ok snoop_idle [] h' \<and> snooper_fetch fresh reset unset d sys = Some ((fetched sys)\<lparr>tx_heap := h'\<rparr>)"
proof -
  have idle: "snoop_idle fresh" using lib by (simp add: snoop_library_def snoop_idle_def)
  obtain t h where a: "heap_allocate fresh (tx_heap sys) = Some (t, h)" "heap_ok snoop_idle [t] h" "snoop_idle (txs h t)"
    using heap_allocate_ok[OF hp idle] by blast
  define ext where "ext = (case snoop_ext (txs h t) of None \<Rightarrow> new_snoop_extension unset | Some ext \<Rightarrow> ext)"
  define tr' where "tr' = (txs h t)\<lparr>command := TLM_READ_COMMAND, address := 0,
    snoop_ext := Some (ext\<lparr>sx_valid := True, sx_end_address := 0x7F\<rparr>)\<rparr>"
  let ?m = "(memories sys 1)\<lparr>snoop_start := 0, snoop_end := 0x7F, write_snoop := True\<rparr>"
  obtain d' where d': "ic_get_direct_mem_ptr ((txs h t)\<lparr>command := TLM_READ_COMMAND, address := start_address,
      snoop_ext := Some (ext\<lparr>sx_valid := True, sx_end_address := end_address\<rparr>)\<rparr>) d (memories sys) =
      (True, tr', d', Some (1, 0, 0x7F), (memories sys)(1 := ?m), False)" and p: "dmi_ptr d' = (1, 0)"
    using id1 by (simp add: ic_get_direct_mem_ptr_def memory_get_direct_mem_ptr_def tr'_def Let_def)
  let ?tr = "tr'\<lparr>snoop_ext := Some (ext\<lparr>sx_end_address := 0x7F, sx_valid := False\<rparr>)\<rparr>"
  have "snoop_idle (reset ?tr)" using lib by (simp add: snoop_library_def snoop_idle_def)
  then obtain h' where h': "heap_free reset t (put_tx t ?tr h) = Some h'" "heap_ok snoop_idle [] h'"
    using heap_free_ok[OF heap_ok_put[OF a(2), of t ?tr], of 0 reset] by auto
  have n: "unat (end_address - start_address + 1) = 128" by (simp add: end_address_def start_address_def)
  have "snooper_fetch fresh reset unset d sys = Some ((fetched sys)\<lparr>tx_heap := h'\<rparr>)"
    using a(1) d' p h'(1) n len cl
    by (simp add: snooper_fetch_def fetched_def propagate_def snooper_invalidate_def read_ptr_def tr'_def flip: ext_def)
  with h'(2) show ?thesis by blast
qed

lemma fetch_ok:
  assumes lib: "snoop_library fresh reset" and ok: "base_ok sys"
  shows "\<exists>sys'. snooper_fetch fresh reset unset d sys = Some sys' \<and> snoop_inv sys' \<and> m_dmi_valid (snooper sys')"
proof -
  have b: "heap_ok snoop_idle [] (tx_heap sys)" "mem_id (memories sys 1) = 1" "length (mem (memories sys 1)) = 256"
    "length (m_cache (snooper sys)) = 256" using ok by (simp_all add: base_ok_def)
  obtain h' where h': "heap_ok snoop_idle [] h'" "snooper_fetch fresh reset unset d sys = Some ((fetched sys)\<lparr>tx_heap := h'\<rparr>)"
    using fetch_eq[OF lib b] by blast
  have sub: "set (dmi_table (initiator_invalidate (0x100, 0x17F) (ini sys))) \<subseteq> set (dmi_table (ini sys))"
    using prune_subset by (simp add: initiator_invalidate_prune)
  have inv: "\<forall>d \<in> set (dmi_table (ini sys)). entry_ok d" "length (region_entries (dmi_table (ini sys))) \<le> 1"
    using ok by (simp_all add: base_ok_def)
  show ?thesis
    using ok h' sub region_invalidated[OF inv] b by (auto simp: snoop_inv_def base_ok_def fetched_def)
qed

section \<open>The other initiator\<close>

definition access_address :: "u32 \<Rightarrow> u64" where
  "access_address r = push_bit 2 (ucast (r mod 128))"

lemma access_address_range: "access_address r < 512" "4 dvd unat (access_address r)"
proof -
  have l: "unat (r mod 128) < 128" by (simp add: unat_mod)
  then have "unat (ucast (r mod 128) :: u64) = unat (r mod 128)" by (simp add: unsigned_ucast_eq take_bit_nat_eq_self)
  with l have *: "unat (access_address r) = 4 * unat (r mod 128)" "unat (r mod 128) < 128"
    by (simp_all add: access_address_def push_bit_eq_mult unat_word_ariths)
  then show "access_address r < 512" "4 dvd unat (access_address r)" by (simp_all add: word_less_nat_alt)
qed

lemma same_memories [simp]: "sys\<lparr>memories := memories sys\<rparr> = (sys :: system)"
  by (cases sys) simp

definition new_entry :: "dmi \<Rightarrow> nat \<Rightarrow> tlm_command \<Rightarrow> dmi" where
  "new_entry d t c = d\<lparr>dmi_ptr := (t, 0), dmi_start := reconstruct_address 0 t, dmi_end := reconstruct_address 255 t,
     read_latency := MEM_LATENCY, write_latency := MEM_LATENCY,
     granted := (if c = TLM_WRITE_COMMAND then Read_Write_Access else Read_Access)\<rparr>"

lemma new_entry_ok: "t < 2 \<Longrightarrow> entry_ok (new_entry d t c)" "target_of (new_entry d t c) = t"
  "granted (new_entry d t c) = (if c = TLM_WRITE_COMMAND then Read_Write_Access else Read_Access)"
  by (simp_all add: new_entry_def entry_ok_def target_of_def)

lemma request_dmi_idle:
  assumes "dmi_allowed tr" and "snoop_idle tr" and "decode_address a = (t, m)" and "mem_id (memories sys t) = t"
  shows "request_dmi a tr d sys = (tr\<lparr>address := m\<rparr>,
    if write_snoop (memories sys t) \<and> command tr = TLM_WRITE_COMMAND then sys
    else sys\<lparr>ini := (ini sys)\<lparr>dmi_table := dmi_table (ini sys) @ [new_entry d t (command tr)]\<rparr>\<rparr>)"
  using assms
  by (cases "snoop_ext tr")
    (auto simp: request_dmi_def ic_get_direct_mem_ptr_def memory_get_direct_mem_ptr_def snoop_idle_def propagate_def
      new_entry_def SIZE_def Let_def)

lemma base_ok_address:
  assumes "base_ok sys" and "decode_address (access_address r) = (t, m)"
  shows "t < 2" "unat m + 4 \<le> 256" "unat (access_address r) = unat m + 256 * t" "4 dvd unat m"
    "mem_id (memories sys t) = t" "length (mem (memories sys t)) = 256"
proof -
  note d = reconstruct_decode[OF access_address_range(1)[of r], unfolded assms(2), simplified]
  show t: "t < 2" by (fact d(1))
  show dv: "4 dvd unat m" using d(4) access_address_range(2)[of r] by (simp add: dvd_mod)
  have "unat m < 256" using d(4) by simp
  with dv show "unat m + 4 \<le> 256" by (auto elim!: dvdE)
  show "unat (access_address r) = unat m + 256 * t" using d(4,5) by simp
  show "mem_id (memories sys t) = t" "length (mem (memories sys t)) = 256" using assms(1) t by (simp_all add: base_ok_def)
qed

text \<open>Nothing but the data of the initiator, or the content of memory 0, has changed.\<close>

lemma direct_access_ok:
  assumes inv: "snoop_inv sys" and l: "dmi_lookup (access_address r) c (dmi_table (ini sys)) = Some e"
  shows "\<exists>sys'. direct_access (access_address r) c e sys = Some sys' \<and> snoop_inv sys'"
proof -
  let ?a = "access_address r"
  have ok: "base_ok sys" using inv by (simp add: snoop_inv_def)
  obtain t m where a: "decode_address ?a = (t, m)" by (cases "decode_address ?a")
  note b = base_ok_address[OF ok a]
  have e: "e \<in> set (dmi_table (ini sys))" "?a \<ge> dmi_start e \<and> ?a \<le> dmi_end e" "c = TLM_WRITE_COMMAND \<longrightarrow> is_write_allowed e"
    using lookup_some[OF l] by simp_all
  have eo: "entry_ok e" using ok e(1) by (simp add: base_ok_def)
  have t: "target_of e = t" using entry_covers[OF eo a access_address_range(1)] e(2) by simp
  have ptr: "dmi_ptr e = (t, 0)" "dmi_start e = reconstruct_address 0 t"
    using eo t by (auto simp: entry_ok_def target_of_def)
  have "unat (dmi_start e) = 256 * t" using reconstruct_unat[of 0 t] b(1) ptr by simp
  then have off: "unat (?a - dmi_start e) = unat m" using e(2) b(3) by (simp add: unat_sub)
  have len: "length (ini_data (ini sys)) = 4" using ok by (simp add: base_ok_def)
  show ?thesis
  proof (cases "c = TLM_WRITE_COMMAND")
    case False
    then show ?thesis
      using inv b off ptr by (simp add: direct_access_def read_ptr_def snoop_inv_def base_ok_def)
  next
    case True
    let ?bs = "take (unat m) (mem (memories sys t)) @ ini_data (ini sys) @ drop (unat m + 4) (mem (memories sys t))"
    have "direct_access ?a c e sys = Some (sys\<lparr>memories := (memories sys)(t := (memories sys t)\<lparr>mem := ?bs\<rparr>)\<rparr>)"
      using True b off ptr len by (simp add: direct_access_def write_ptr_def)
    moreover have "\<not> m_dmi_valid (snooper sys)" if "t = 1"
    proof
      assume v: "m_dmi_valid (snooper sys)"
      have "e \<in> set (region_entries (dmi_table (ini sys)))" using e(1) t that by (simp add: region_entries_def)
      with v inv have "granted e = Read_Access" by (simp add: snoop_inv_def)
      with e(3) True show False by (simp add: is_write_allowed_def)
    qed
    moreover have "t = 0 \<or> t = 1" using b(1) by (auto simp: One_nat_def)
    moreover have "length ?bs = 256" using b len by simp
    ultimately show ?thesis using inv by (auto simp: snoop_inv_def base_ok_def)
  qed
qed

lemma same_ini [simp]: "sys\<lparr>ini := ini sys\<rparr> = (sys :: system)" "i\<lparr>ini_data := ini_data i\<rparr> = (i :: initiator)"
  by (cases sys; simp) (cases i; simp)

text \<open>A regular access to offset \<open>m\<close> of memory \<open>t\<close>, up to the transaction pool.\<close>

definition after_read :: "nat \<Rightarrow> u64 \<Rightarrow> system \<Rightarrow> system" where
  "after_read t m sys = sys\<lparr>ini := (ini sys)\<lparr>ini_data := take 4 (drop (unat m) (mem (memories sys t)))\<rparr>\<rparr>"

definition caught :: "nat \<Rightarrow> u64 \<Rightarrow> system \<Rightarrow> bool" where
  "caught t m sys \<longleftrightarrow> write_snoop (memories sys t) \<and> m + 4 > snoop_start (memories sys t) \<and> m \<le> snoop_end (memories sys t)"

definition after_write :: "nat \<Rightarrow> u64 \<Rightarrow> system \<Rightarrow> system" where
  "after_write t m sys =
     (let mm = memories sys t;
          mm' = mm\<lparr>mem := take (unat m) (mem mm) @ ini_data (ini sys) @ drop (unat m + 4) (mem mm)\<rparr>
      in if caught t m sys
         then propagate (Some (t, snoop_start mm, snoop_end mm)) (sys\<lparr>memories := (memories sys)(t := mm'\<lparr>write_snoop := False\<rparr>)\<rparr>)
         else sys\<lparr>memories := (memories sys)(t := mm')\<rparr>)"

definition after_dmi :: "dmi \<Rightarrow> nat \<Rightarrow> tlm_command \<Rightarrow> system \<Rightarrow> system" where
  "after_dmi d t c sys =
     (if write_snoop (memories sys t) \<and> c = TLM_WRITE_COMMAND then sys
      else sys\<lparr>ini := (ini sys)\<lparr>dmi_table := dmi_table (ini sys) @ [new_entry d t c]\<rparr>\<rparr>)"

lemma regular_access_eq:
  assumes lib: "snoop_library fresh reset" and ok: "base_ok sys"
    and a: "decode_address (access_address r) = (t, m)" and c: "c = TLM_READ_COMMAND \<or> c = TLM_WRITE_COMMAND"
  shows "\<exists>h' rep. heap_ok snoop_idle [] h' \<and>
    regular_access fresh reset is_error d delay (access_address r) c sys =
      Some (rep, (after_dmi d t c (if c = TLM_READ_COMMAND then after_read t m sys else after_write t m sys))\<lparr>tx_heap := h'\<rparr>)"
proof -
  let ?a = "access_address r"
  note b = base_ok_address[OF ok a]
  have idle: "snoop_idle fresh" using lib by (simp add: snoop_library_def snoop_idle_def)
  have hp: "heap_ok snoop_idle [] (tx_heap sys)" and len: "length (ini_data (ini sys)) = 4"
    using ok by (simp_all add: base_ok_def)
  obtain u h where al: "heap_allocate fresh (tx_heap sys) = Some (u, h)" "heap_ok snoop_idle [u] h" "snoop_idle (txs h u)"
    using heap_allocate_ok[OF hp idle] by blast
  define x where "x = (txs h u)\<lparr>command := c, address := ?a, data := ini_data (ini sys), data_length := 4,
    streaming_width := 4, byte_enable := False, dmi_allowed := False, response := TLM_INCOMPLETE_RESPONSE\<rparr>"
  have x: "word_request x" "decode_address (address x) = (t, m)" "command x = c" "data x = ini_data (ini sys)" "snoop_ext x = snoop_ext (txs h u)"
    using access_address_range[of r] a len by (simp_all add: x_def word_request_def)
  have free: "\<exists>h'. heap_free reset u (put_tx u y h) = Some h' \<and> heap_ok snoop_idle [] h'" if "snoop_ext y = snoop_ext x" for y
  proof -
    have "snoop_idle (reset y)" using lib al(3) x(5) that by (simp add: snoop_library_def snoop_idle_def)
    then show ?thesis using heap_free_ok[OF heap_ok_put[OF al(2), of u y], of 0 reset] by auto
  qed
  show ?thesis
  proof (cases "c = TLM_READ_COMMAND")
    case True
    let ?y = "x\<lparr>address := m, data := take 4 (drop (unat m) (mem (memories sys t))), dmi_allowed := True, response := TLM_OK_RESPONSE\<rparr>"
    have tr: "ic_b_transport x delay (memories sys) = Some (?y, delay + MEM_LATENCY, None, memories sys)"
      using ic_read[where ms = "memories sys" and delay = delay, OF x(1,2) b(6)] x(3) True by simp
    have dm: "request_dmi ?a ?y d (after_read t m sys) = (?y, after_dmi d t c (after_read t m sys))"
      using request_dmi_idle[of ?y ?a t m "after_read t m sys" d] a b(5) al(3) x(3,5)
      by (simp add: after_dmi_def snoop_idle_def) (simp add: after_read_def)
    obtain h' where h': "heap_free reset u (put_tx u ?y h) = Some h'" "heap_ok snoop_idle [] h'" using free[of ?y] by auto
    have "regular_access fresh reset is_error d delay ?a c sys =
        Some (is_error TLM_OK_RESPONSE, (after_dmi d t c (after_read t m sys))\<lparr>tx_heap := h'\<rparr>)"
      using al(1) tr dm h'(1) by (simp add: regular_access_def propagate_def Let_def after_read_def flip: x_def)
    with h'(2) True show ?thesis by auto
  next
    case False
    then have w: "c = TLM_WRITE_COMMAND" using c by simp
    let ?y = "x\<lparr>address := m, dmi_allowed := True, response := TLM_OK_RESPONSE\<rparr>"
    let ?mm = "memories sys t"
    define mm' where "mm' = ?mm\<lparr>mem := take (unat m) (mem ?mm) @ data x @ drop (unat m + 4) (mem ?mm)\<rparr>"
    have tr: "ic_b_transport x delay (memories sys) = Some (?y, delay + MEM_LATENCY,
        if caught t m sys then Some (t, snoop_start ?mm, snoop_end ?mm) else None,
        (memories sys)(t := if caught t m sys then mm'\<lparr>write_snoop := False\<rparr> else mm'))"
      by (rule ic_write[where ms = "memories sys", OF x(1,2) b(6) _ mm'_def]) (simp_all add: x(3) w caught_def)
    have aw: "after_write t m sys =
        propagate (if caught t m sys then Some (t, snoop_start ?mm, snoop_end ?mm) else None)
          (sys\<lparr>memories := (memories sys)(t := if caught t m sys then mm'\<lparr>write_snoop := False\<rparr> else mm')\<rparr>)"
      by (simp add: after_write_def mm'_def x(4) propagate_def Let_def)
    have id: "mem_id (memories (after_write t m sys) t) = t"
      using b(5) by (simp add: aw propagate_def mm'_def)
    have buf: "ini_data (ini (after_write t m sys)) = data x"
      by (simp add: aw propagate_def x(4) initiator_invalidate_def)
    have dm: "request_dmi ?a ?y d (after_write t m sys) = (?y, after_dmi d t c (after_write t m sys))"
      using request_dmi_idle[of ?y ?a t m "after_write t m sys" d] a id al(3) x(3,5)
      by (simp add: after_dmi_def snoop_idle_def)
    obtain h' where h': "heap_free reset u (put_tx u ?y h) = Some h'" "heap_ok snoop_idle [] h'" using free[of ?y] by auto
    have data: "(after_write t m sys)\<lparr>ini := (ini (after_write t m sys))\<lparr>ini_data := data x\<rparr>\<rparr> = after_write t m sys"
      by (simp flip: buf)
    have "regular_access fresh reset is_error d delay ?a c sys =
        Some (is_error TLM_OK_RESPONSE, (after_dmi d t c (after_write t m sys))\<lparr>tx_heap := h'\<rparr>)"
      using al(1) tr dm h'(1) data by (simp add: regular_access_def Let_def flip: x_def aw)
    with h'(2) False show ?thesis by auto
  qed
qed

lemma no_entry:
  assumes "snoop_inv sys" and "dmi_lookup (access_address r) c (dmi_table (ini sys)) = None"
    and "decode_address (access_address r) = (1, m)" and "c = TLM_READ_COMMAND \<or> c = TLM_WRITE_COMMAND"
  shows "m_dmi_valid (snooper sys)" "c = TLM_READ_COMMAND \<longrightarrow> region_entries (dmi_table (ini sys)) = []"
proof -
  have none: "(c = TLM_WRITE_COMMAND \<longrightarrow> granted d \<noteq> Read_Write_Access) \<and> (c = TLM_READ_COMMAND \<longrightarrow> granted d = No_Access)"
    if "d \<in> set (region_entries (dmi_table (ini sys)))" for d
  proof -
    have d: "d \<in> set (dmi_table (ini sys))" "target_of d = 1" using that by (simp_all add: region_entries_def)
    have "entry_ok d" using assms(1) d(1) by (simp add: snoop_inv_def base_ok_def)
    from entry_covers[OF this assms(3) access_address_range(1)] d(2)
    show ?thesis using lookup_none[OF assms(2) d(1)] by (simp add: is_write_allowed_def is_read_allowed_def)
  qed
  have ok: "granted d \<noteq> No_Access" if "d \<in> set (region_entries (dmi_table (ini sys)))" for d
    using that assms(1) by (auto simp: snoop_inv_def base_ok_def region_entries_def entry_ok_def)
  show "m_dmi_valid (snooper sys)"
  proof (rule ccontr)
    assume "\<not> m_dmi_valid (snooper sys)"
    then obtain d where "region_entries (dmi_table (ini sys)) = [d]" "granted d = Read_Write_Access"
      using assms(1) by (auto simp: snoop_inv_def)
    then show False using none[of d] assms(4) by auto
  qed
  show "c = TLM_READ_COMMAND \<longrightarrow> region_entries (dmi_table (ini sys)) = []"
  proof (intro impI, cases "region_entries (dmi_table (ini sys))")
    case (Cons d ds)
    assume "c = TLM_READ_COMMAND"
    with none[of d] ok[of d] Cons show "region_entries (dmi_table (ini sys)) = []" by simp
  qed
qed

lemma region_entries_append [simp]:
  "region_entries (ds @ [d]) = (if target_of d = 1 then region_entries ds @ [d] else region_entries ds)"
  by (simp add: region_entries_def)

lemma after_read_inv:
  assumes inv: "snoop_inv sys" and a: "decode_address (access_address r) = (t, m)"
    and l: "dmi_lookup (access_address r) TLM_READ_COMMAND (dmi_table (ini sys)) = None"
  shows "snoop_inv (after_dmi d t TLM_READ_COMMAND (after_read t m sys))"
proof -
  have ok: "base_ok sys" using inv by (simp add: snoop_inv_def)
  note b = base_ok_address[OF ok a]
  have "region_entries (dmi_table (ini sys)) = [] \<and> m_dmi_valid (snooper sys)" if "t = 1"
    using no_entry[OF inv l] a that by simp
  then show ?thesis
    using inv b new_entry_ok(1)[OF b(1)]
    by (cases "t = 1") (simp_all add: after_dmi_def after_read_def snoop_inv_def base_ok_def new_entry_ok)
qed

lemma after_write_inv:
  assumes inv: "snoop_inv sys" and a: "decode_address (access_address r) = (t, m)"
    and l: "dmi_lookup (access_address r) TLM_WRITE_COMMAND (dmi_table (ini sys)) = None"
  shows "snoop_inv (after_dmi d t TLM_WRITE_COMMAND (after_write t m sys))"
proof -
  have ok: "base_ok sys" using inv by (simp add: snoop_inv_def)
  note b = base_ok_address[OF ok a]
  have len: "length (ini_data (ini sys)) = 4" using ok by (simp add: base_ok_def)
  have tab: "\<forall>d \<in> set (dmi_table (ini sys)). entry_ok d" "length (region_entries (dmi_table (ini sys))) \<le> 1"
    using ok by (simp_all add: base_ok_def)
  note ri = region_invalidated[OF tab]
  let ?mm = "memories sys t"
  let ?bs = "take (unat m) (mem ?mm) @ ini_data (ini sys) @ drop (unat m + 4) (mem ?mm)"
  have bs: "length ?bs = 256" using b len by simp
  consider (other) "t = 0" | (hit) "t = 1" "m \<le> 0x7F" | (miss) "t = 1" "\<not> m \<le> 0x7F"
    using less_2_cases[OF b(1)] One_nat_def by metis
  then show ?thesis
  proof cases
    case other
    then have "\<not> caught t m sys" using ok by (simp add: caught_def base_ok_def)
    then show ?thesis
      using inv b bs other new_entry_ok(1)[OF b(1)]
      by (simp add: after_dmi_def after_write_def Let_def snoop_inv_def base_ok_def new_entry_ok)
  next
    case hit
    have v: "m_dmi_valid (snooper sys)" using no_entry(1)[OF inv l] a hit by simp
    have "m + 4 > 0" using b(2) by (simp add: word_less_nat_alt unat_word_ariths)
    then have c: "caught t m sys" using inv v hit by (simp add: caught_def snoop_inv_def)
    have mm: "snoop_start ?mm = 0" "snoop_end ?mm = 0x7F" using inv v hit by (simp_all add: snoop_inv_def)
    have "set (filter (\<lambda>d. target_of d \<noteq> 1) (dmi_table (ini sys))) \<subseteq> set (dmi_table (ini sys))" by auto
    then show ?thesis
      using inv b bs c mm hit(1) ri new_entry_ok(1)[OF b(1)]
      by (auto simp: after_dmi_def after_write_def Let_def snoop_inv_def base_ok_def propagate_def snooper_invalidate_def new_entry_ok)
  next
    case miss
    have v: "m_dmi_valid (snooper sys)" using no_entry(1)[OF inv l] a miss by simp
    then have c: "\<not> caught t m sys" using inv miss by (simp add: caught_def snoop_inv_def)
    have "128 \<le> unat m" using miss(2) by (simp add: word_le_nat_alt)
    then have "take 128 ?bs = take 128 (mem ?mm)" using b len by (simp add: min_def)
    then show ?thesis
      using inv b bs c miss(1) v by (auto simp: after_dmi_def after_write_def Let_def snoop_inv_def base_ok_def)
  qed
qed

lemma access_ok:
  assumes lib: "snoop_library fresh reset" and inv: "snoop_inv sys"
  shows "\<exists>rep sys'. initiator_access fresh reset is_error d delay r sys = Some (rep, sys') \<and> snoop_inv sys'"
proof -
  let ?a = "access_address (fst r)" and ?c = "if snd r then TLM_WRITE_COMMAND else TLM_READ_COMMAND"
  define s where "s = (if snd r then sys\<lparr>ini := (ini sys)\<lparr>ini_data := int_bytes (ucast ?a)\<rparr>\<rparr> else sys)"
  have inv_s: "snoop_inv s" using inv by (simp add: s_def snoop_inv_def base_ok_def)
  have acc: "initiator_access fresh reset is_error d delay r sys =
      (case dmi_lookup ?a ?c (dmi_table (ini s)) of
         Some e \<Rightarrow> map_option (Pair False) (direct_access ?a ?c e s)
       | None \<Rightarrow> regular_access fresh reset is_error d delay ?a ?c s)"
    unfolding s_def by (cases "snd r") (simp_all add: initiator_access_def Let_def flip: access_address_def)
  have heap: "snoop_inv (s'\<lparr>tx_heap := h\<rparr>)" if "snoop_inv s'" "heap_ok snoop_idle [] h" for s' h
    using that by (simp add: snoop_inv_def base_ok_def)
  obtain t m where a: "decode_address ?a = (t, m)" by (cases "decode_address ?a")
  have ok: "base_ok s" using inv_s by (simp add: snoop_inv_def)
  show ?thesis
  proof (cases "dmi_lookup ?a ?c (dmi_table (ini s))")
    case (Some e)
    with direct_access_ok[OF inv_s Some] acc show ?thesis by auto
  next
    case None
    have c: "?c = TLM_READ_COMMAND \<or> ?c = TLM_WRITE_COMMAND" by simp
    obtain h' rep where h': "heap_ok snoop_idle [] h'" and reg: "regular_access fresh reset is_error d delay ?a ?c s =
        Some (rep, (after_dmi d t ?c (if ?c = TLM_READ_COMMAND then after_read t m s else after_write t m s))\<lparr>tx_heap := h'\<rparr>)"
      using regular_access_eq[OF lib ok a c] by blast
    have "snoop_inv (after_dmi d t ?c (if ?c = TLM_READ_COMMAND then after_read t m s else after_write t m s))"
      using after_read_inv[OF inv_s a] after_write_inv[OF inv_s a] None by (cases "snd r") simp_all
    from heap[OF this h'] show ?thesis using acc None reg by simp
  qed
qed

lemma thread_ok:
  assumes lib: "snoop_library fresh reset" and inv: "snoop_inv sys"
  shows "\<exists>sys'. snooper_thread fresh reset unset d sys = Some sys' \<and> snoop_inv sys'"
proof (cases "m_dmi_valid (snooper sys)")
  case True
  then show ?thesis using inv by (simp add: snooper_thread_def snooper_execute_def snoop_inv_def base_ok_def)
next
  case False
  have "base_ok sys" using inv by (simp add: snoop_inv_def)
  with False fetch_ok[OF lib] inv show ?thesis unfolding snooper_thread_def by (metis option.inject)
qed

lemma run_ok:
  assumes lib: "snoop_library fresh reset"
  shows "snoop_inv sys \<Longrightarrow> \<exists>sys'. sys_run fresh reset is_error unset d as sys = Some sys' \<and> snoop_inv sys'"
proof (induction as arbitrary: sys)
  case (Cons a as)
  obtain sys1 where "sys_step fresh reset is_error unset d a sys = Some sys1" "snoop_inv sys1"
    using thread_ok[OF lib Cons.prems] access_ok[OF lib Cons.prems] by (cases a) fastforce+
  with Cons.IH show ?case by auto
qed simp

lemma start_ok:
  "length (content 0) = 256 \<Longrightarrow> length (content 1) = 256 \<Longrightarrow> length cache = 256 \<Longrightarrow> length buf = 4 \<Longrightarrow>
    base_ok (start_system fresh content bounds cache buf)"
  using heap_ok_new by (auto simp: base_ok_def start_system_def new_memory_of_def new_snooper_def region_entries_def
      less_2_cases_iff One_nat_def)

section \<open>Cache and memory\<close>

text \<open>C3: when the snooping initiator makes its first request before the other initiator starts, no access fails or
  leaves a memory in any later interleaving of the two, and whenever the snooping initiator believes its
  cache to be valid, the cache holds exactly the bytes that the snooped half of memory 1 holds.\<close>
theorem snooped_cache_is_coherent:
  assumes "snoop_library fresh reset" and "length (content 0) = 256" and "length (content 1) = 256"
    and "length cache = 256" and "length buf = 4"
  shows "\<exists>sys. sys_run fresh reset is_error unset d (Snooper # as) (start_system fresh content bounds cache buf) = Some sys \<and>
    (m_dmi_valid (snooper sys) \<longrightarrow> take 128 (m_cache (snooper sys)) = take 128 (mem (memories sys 1)))"
proof -
  let ?s = "start_system fresh content bounds cache buf"
  obtain s1 where "snooper_fetch fresh reset unset d ?s = Some s1" "snoop_inv s1"
    using fetch_ok[OF assms(1) start_ok[of content cache buf fresh bounds]] assms by blast
  moreover have "\<not> m_dmi_valid (snooper ?s)" "count (snooper ?s) = 0" by (simp_all add: start_system_def new_snooper_def)
  ultimately have "sys_run fresh reset is_error unset d (Snooper # as) ?s = sys_run fresh reset is_error unset d as s1"
    by (simp add: snooper_thread_def)
  moreover obtain sys where "sys_run fresh reset is_error unset d as s1 = Some sys" "snoop_inv sys"
    using run_ok[OF assms(1) \<open>snoop_inv s1\<close>] by blast
  ultimately show ?thesis by (auto simp: snoop_inv_def)
qed

definition idle_tx :: snoop_tx where
  "idle_tx = word_tx TLM_IGNORE_COMMAND 0 []"

lemma idle_library: "snoop_library idle_tx (\<lambda>tr. tr)"
  by (simp add: snoop_library_def idle_tx_def word_tx_def)

theorem snooped_cache_is_coherent_witness:
  "\<exists>sys. sys_run idle_tx (\<lambda>tr. tr) (\<lambda>r. r \<noteq> TLM_OK_RESPONSE) 0 (dmi_of 0 No_Access)
      (Snooper # [Access (64, True) 0, Snooper, Access (64, True) 0, Snooper])
      (start_system idle_tx (\<lambda>_. replicate 256 7) (\<lambda>_. (0, 0)) (replicate 256 0) [0, 0, 0, 0]) = Some sys \<and>
    (m_dmi_valid (snooper sys) \<longrightarrow> take 128 (m_cache (snooper sys)) = take 128 (mem (memories sys 1)))"
  by (rule snooped_cache_is_coherent[OF idle_library]) (rule length_replicate | simp)+

lemma decode_64: "access_address 64 = 0x100" "access_address 65 = 0x104" "decode_address 0x100 = (1, 0)" "decode_address 0x104 = (1, 4)"
  by (simp_all only: access_address_def push_bit_eq_mult decode_unat) (simp_all add: One_nat_def)

lemma entry_lookup:
  "dmi_start (new_entry d 1 c) = 0x100" "dmi_end (new_entry d 1 c) = 0x1FF" "dmi_ptr (new_entry d 1 c) = (1, 0)"
  "is_write_allowed (new_entry d 1 c) \<longleftrightarrow> c = TLM_WRITE_COMMAND"
  by (simp_all add: new_entry_def reconstruct_address_def is_write_allowed_def)

text \<open>An access of the initiator as a function of its random numbers, with its address and command evaluated.\<close>

lemma initiator_access_eq:
  "initiator_access fresh reset is_error d delay (n, w) sys =
     (let c = (if w then TLM_WRITE_COMMAND else TLM_READ_COMMAND);
          sys = (if w then sys\<lparr>ini := (ini sys)\<lparr>ini_data := int_bytes (ucast (access_address n))\<rparr>\<rparr> else sys)
      in case dmi_lookup (access_address n) c (dmi_table (ini sys)) of
           Some e \<Rightarrow> map_option (Pair False) (direct_access (access_address n) c e sys)
         | None \<Rightarrow> regular_access fresh reset is_error d delay (access_address n) c sys)"
  unfolding initiator_access_def access_address_def Let_def fst_conv snd_conv by (cases w) simp_all

lemma two_entries:
  assumes lib: "snoop_library fresh reset" and ok: "base_ok sys" and tab: "dmi_table (ini sys) = []"
    and ws: "\<not> write_snoop (memories sys 1)"
  shows "\<exists>s1 s2. sys_step fresh reset is_error unset d (Access (64, False) t1) sys = Some s1 \<and>
    sys_step fresh reset is_error unset d (Access (64, True) t2) s1 = Some s2 \<and>
    heap_ok snoop_idle [] (tx_heap s2) \<and> snooper s2 = snooper sys \<and>
    dmi_table (ini s2) = [new_entry d 1 TLM_READ_COMMAND, new_entry d 1 TLM_WRITE_COMMAND] \<and>
    mem_id (memories s2 1) = 1 \<and> mem (memories s2 1) = int_bytes 0x100 @ drop 4 (mem (memories sys 1))"
proof -
  have a: "decode_address (access_address 64) = (1, 0)" by (simp add: decode_64)
  let ?r = "after_dmi d 1 TLM_READ_COMMAND (after_read 1 0 sys)"
  obtain h1 rep1 where h1: "heap_ok snoop_idle [] h1"
    "regular_access fresh reset is_error d t1 (access_address 64) TLM_READ_COMMAND sys = Some (rep1, ?r\<lparr>tx_heap := h1\<rparr>)"
    using regular_access_eq[where is_error = is_error and d = d and delay = t1 and c = TLM_READ_COMMAND, OF lib ok a] by auto
  let ?s1 = "?r\<lparr>tx_heap := h1\<rparr>" and ?buf = "int_bytes 0x100"
  have r: "dmi_table (ini ?r) = [new_entry d 1 TLM_READ_COMMAND]" "memories ?r = memories sys" "snooper ?r = snooper sys"
    using tab by (simp_all add: after_dmi_def after_read_def)
  let ?s1' = "?s1\<lparr>ini := (ini ?s1)\<lparr>ini_data := ?buf\<rparr>\<rparr>"
  have ok1: "base_ok ?s1'"
    using ok h1(1) r by (simp add: base_ok_def region_entries_def new_entry_ok)
  let ?w = "after_dmi d 1 TLM_WRITE_COMMAND (after_write 1 0 ?s1')"
  obtain h2 rep2 where h2: "heap_ok snoop_idle [] h2"
    "regular_access fresh reset is_error d t2 (access_address 64) TLM_WRITE_COMMAND ?s1' = Some (rep2, ?w\<lparr>tx_heap := h2\<rparr>)"
    using regular_access_eq[where is_error = is_error and d = d and delay = t2 and c = TLM_WRITE_COMMAND, OF lib ok1 a] by auto
  have w: "dmi_table (ini ?w) = [new_entry d 1 TLM_READ_COMMAND, new_entry d 1 TLM_WRITE_COMMAND]" "snooper ?w = snooper sys"
    "mem_id (memories ?w 1) = 1" "mem (memories ?w 1) = ?buf @ drop 4 (mem (memories sys 1))"
    using ws r ok by (simp_all add: after_dmi_def after_write_def caught_def base_ok_def Let_def)
  have "sys_step fresh reset is_error unset d (Access (64, False) t1) sys = Some ?s1"
    using tab h1(2) by (simp add: initiator_access_eq)
  moreover have "sys_step fresh reset is_error unset d (Access (64, True) t2) ?s1 = Some (?w\<lparr>tx_heap := h2\<rparr>)"
    using r(1) h2(2) by (simp add: initiator_access_eq entry_lookup decode_64)
  ultimately show ?thesis using h2(1) w by (intro exI[of _ ?s1] exI[of _ "?w\<lparr>tx_heap := h2\<rparr>"]) simp
qed

text \<open>started in the other order the example does not work: when the initiator obtains a read-only and then a
  writable entry for memory 1 before the first snoop request, the invalidation that comes with the request
  skips the writable entry, and a later direct write changes the memory under the cache that the snooping
  initiator still believes to be valid.\<close>
theorem skipped_entry_makes_cache_stale:
  assumes "snoop_library fresh reset" and "length (content 0) = 256" and "length (content 1) = 256"
    and "length cache = 256" and "length buf = 4" and "take 4 (drop 4 (content 1)) \<noteq> int_bytes 0x104"
  shows "\<exists>sys. sys_run fresh reset is_error unset d [Access (64, False) t1, Access (64, True) t2, Snooper, Access (65, True) t3]
      (start_system fresh content bounds cache buf) = Some sys \<and>
    m_dmi_valid (snooper sys) \<and> take 128 (m_cache (snooper sys)) \<noteq> take 128 (mem (memories sys 1))"
proof -
  let ?s = "start_system fresh content bounds cache buf"
  have s: "dmi_table (ini ?s) = []" "\<not> write_snoop (memories ?s 1)" "mem (memories ?s 1) = content 1" "snooper ?s = new_snooper cache"
    by (simp_all add: start_system_def new_memory_of_def)
  obtain s1 s2 where 1: "sys_step fresh reset is_error unset d (Access (64, False) t1) ?s = Some s1"
    and 2: "sys_step fresh reset is_error unset d (Access (64, True) t2) s1 = Some s2"
    and s2: "heap_ok snoop_idle [] (tx_heap s2)" "snooper s2 = new_snooper cache"
      "dmi_table (ini s2) = [new_entry d 1 TLM_READ_COMMAND, new_entry d 1 TLM_WRITE_COMMAND]"
      "mem_id (memories s2 1) = 1" "mem (memories s2 1) = int_bytes 0x100 @ drop 4 (content 1)"
    using two_entries[OF assms(1) start_ok[OF assms(2-5)] s(1,2)] s(3,4) by metis
  have len: "length (mem (memories s2 1)) = 256" "length (m_cache (snooper s2)) = 256"
    using assms s2 by (simp_all add: new_snooper_def)
  obtain h3 where h3: "snooper_fetch fresh reset unset d s2 = Some ((fetched s2)\<lparr>tx_heap := h3\<rparr>)"
    using fetch_eq[OF assms(1) s2(1,4) len] by blast
  let ?s3 = "(fetched s2)\<lparr>tx_heap := h3\<rparr>"
  have s3: "dmi_table (ini ?s3) = [new_entry d 1 TLM_WRITE_COMMAND]" "m_dmi_valid (snooper ?s3)"
    "take 128 (m_cache (snooper ?s3)) = take 128 (mem (memories s2 1))" "mem (memories ?s3 1) = mem (memories s2 1)"
    using s2(3) len by (simp_all add: fetched_def initiator_invalidate_prune entry_lookup overlaps_def)
  have 3: "sys_step fresh reset is_error unset d Snooper s2 = Some ?s3"
    using h3 s2(2) by (simp add: snooper_thread_def new_snooper_def)
  let ?m = "mem (memories s2 1)" and ?buf = "int_bytes 0x104"
  let ?bs = "take 4 ?m @ ?buf @ drop 8 ?m"
  have "\<exists>s4. sys_step fresh reset is_error unset d (Access (65, True) t3) ?s3 = Some s4 \<and> snooper s4 = snooper ?s3 \<and>
      mem (memories s4 1) = ?bs"
    using s3(1,4) len by (simp add: initiator_access_eq entry_lookup decode_64 direct_access_def write_ptr_def)
  then obtain s4 where 4: "sys_step fresh reset is_error unset d (Access (65, True) t3) ?s3 = Some s4"
    and s4: "snooper s4 = snooper ?s3" "mem (memories s4 1) = ?bs" by blast
  have "take 4 (drop 4 (take 128 ?m)) = take 4 (drop 4 (content 1))" "take 4 (drop 4 (take 128 ?bs)) = ?buf"
    using s2(5) len(1) by (simp_all add: drop_take min_def)
  then have "take 128 ?m \<noteq> take 128 ?bs" using assms(6) by metis
  moreover have "sys_run fresh reset is_error unset d
      [Access (64, False) t1, Access (64, True) t2, Snooper, Access (65, True) t3] ?s = Some s4"
    using 1 2 3 4 by (simp del: sys_step.simps)
  ultimately show ?thesis using s3(2,3) s4 by metis
qed

theorem skipped_entry_makes_cache_stale_witness:
  "\<exists>sys. sys_run idle_tx (\<lambda>tr. tr) (\<lambda>r. r \<noteq> TLM_OK_RESPONSE) 0 (dmi_of 0 No_Access)
      [Access (64, False) 0, Access (64, True) 0, Snooper, Access (65, True) 0]
      (start_system idle_tx (\<lambda>_. replicate 256 7) (\<lambda>_. (0, 0)) (replicate 256 0) [0, 0, 0, 0]) = Some sys \<and>
    m_dmi_valid (snooper sys) \<and> take 128 (m_cache (snooper sys)) \<noteq> take 128 (mem (memories sys 1))"
proof -
  have r: "take 4 (drop 4 (replicate 256 7)) = replicate 4 (7 :: byte)" by simp
  have "replicate 4 (7 :: byte) ! 0 = 7" "int_bytes 0x104 ! 0 = 4"
    by simp (simp add: int_bytes_def be32_bytes_def word_unat_eq_iff unsigned_ucast_eq take_bit_eq_mod)
  moreover have "(4 :: byte) \<noteq> 7" by simp
  ultimately have "replicate 4 (7 :: byte) \<noteq> int_bytes 0x104" by metis
  then have w: "take 4 (drop 4 (replicate 256 7)) \<noteq> int_bytes 0x104" unfolding r .
  show ?thesis
    by (rule skipped_entry_makes_cache_stale[OF idle_library]) (rule length_replicate w | simp)+
qed

end
