(* ===== verification/At_Exclusion.thy ===== *)
theory At_Exclusion
  imports At_Interconnect
begin

text \<open>
  The rules of the base protocol that the interconnect enforces: requests reach a target in the order of their
  arrival, at most one request per target and one response per initiator is in progress, and nothing stays in a
  queue without a process that will take it out.
\<close>

section \<open>What a trace says\<close>

text \<open>The requests sent to a target, the responses delivered to an initiator, and the runs of the processes.\<close>

definition sent :: "nat \<Rightarrow> call list \<Rightarrow> nat list" where
  "sent target cs =
     concat (map (\<lambda>c. case c of Call_Fw u t p _ \<Rightarrow> if u = target \<and> p = BEGIN_REQ then [t] else [] | _ \<Rightarrow> []) cs)"

definition delivered :: "nat \<Rightarrow> call list \<Rightarrow> nat list" where
  "delivered i cs =
     concat (map (\<lambda>c. case c of
         Call_Bw j t p _ \<Rightarrow> if j = i \<and> p = BEGIN_RESP then [t] else []
       | Reply j t st p \<Rightarrow> if j = i \<and> st = TLM_UPDATED \<and> p = BEGIN_RESP then [t] else [] | _ \<Rightarrow> []) cs)"

definition req_runs :: "nat \<Rightarrow> call list \<Rightarrow> nat" where
  "req_runs target cs = count_list cs (Run_End_Req target)"

definition rsp_runs :: "nat \<Rightarrow> call list \<Rightarrow> nat" where
  "rsp_runs i cs = count_list cs (Run_End_Rsp i)"

definition arrivals_at :: "nat \<Rightarrow> nat \<Rightarrow> at_event list \<Rightarrow> nat list" where
  "arrivals_at n target es =
     concat (map (\<lambda>e. case e of
         Fw_Called _ _ t adr p _ _ \<Rightarrow> if p = BEGIN_REQ \<and> fst (at_decode n adr) = target then [t] else []
       | _ \<Rightarrow> []) es)"

lemma arrivals_simps [simp]:
  "arrivals_at n u [] = []"
  "arrivals_at n u (e # f # es) = arrivals_at n u [e] @ arrivals_at n u (f # es)"
  "arrivals_at n u [Fw_Called now i t adr p dl ans] = (if p = BEGIN_REQ \<and> fst (at_decode n adr) = u then [t] else [])"
  "arrivals_at n u [Bw_Called now v t p dl ans] = []" "arrivals_at n u [End_Req_Runs now v ans ans_bw ans2] = []"
  "arrivals_at n u [End_Rsp_Runs now i ans_bw ans2] = []"
  by (simp_all add: arrivals_at_def)

lemma trace_simps [simp]:
  "sent u (cs @ ds) = sent u cs @ sent u ds" "delivered i (cs @ ds) = delivered i cs @ delivered i ds"
  "req_runs u (cs @ ds) = req_runs u cs + req_runs u ds" "rsp_runs i (cs @ ds) = rsp_runs i cs + rsp_runs i ds"
  "sent u [] = []" "delivered i [] = []" "req_runs u [] = 0" "rsp_runs i [] = 0"
  "sent u (c # d # ds) = sent u [c] @ sent u (d # ds)" "delivered i (c # d # ds) = delivered i [c] @ delivered i (d # ds)"
  "req_runs u (c # d # ds) = req_runs u [c] + req_runs u (d # ds)" "rsp_runs i (c # d # ds) = rsp_runs i [c] + rsp_runs i (d # ds)"
  by (simp_all add: sent_def delivered_def req_runs_def rsp_runs_def)

lemma call_simps [simp]:
  "sent u [Call_Fw v t p d] = (if v = u \<and> p = BEGIN_REQ then [t] else [])" "sent u [Call_Bw i t p d] = []"
  "sent u [Reply i t st p] = []" "sent u [Run_End_Req v] = []" "sent u [Run_End_Rsp i] = []"
  "delivered j [Call_Fw v t p d] = []" "delivered j [Call_Bw i t p d] = (if i = j \<and> p = BEGIN_RESP then [t] else [])"
  "delivered j [Reply i t st p] = (if i = j \<and> st = TLM_UPDATED \<and> p = BEGIN_RESP then [t] else [])"
  "delivered j [Run_End_Req v] = []" "delivered j [Run_End_Rsp i] = []"
  "req_runs u [Call_Fw v t p d] = 0" "req_runs u [Call_Bw i t p d] = 0" "req_runs u [Reply i t st p] = 0"
  "req_runs u [Run_End_Req v] = (if v = u then 1 else 0)" "req_runs u [Run_End_Rsp i] = 0"
  "rsp_runs j [Call_Fw v t p d] = 0" "rsp_runs j [Call_Bw i t p d] = 0" "rsp_runs j [Reply i t st p] = 0"
  "rsp_runs j [Run_End_Req v] = 0" "rsp_runs j [Run_End_Rsp i] = (if i = j then 1 else 0)"
  by (auto simp: sent_def delivered_def req_runs_def rsp_runs_def)

section \<open>The exclusion rule of one socket\<close>

text \<open>The contract of a target's request slot and of an initiator's response slot: what arrives is handed out or waits,
  in order; something waits only behind one in progress; each run of the process ends one that was handed out.\<close>

definition slot_ok :: "nat list \<Rightarrow> nat option \<Rightarrow> (nat \<times> sc_time) list \<Rightarrow> nat list \<Rightarrow> nat \<Rightarrow> bool" where
  "slot_ok arr busy queue out runs \<longleftrightarrow> (queue \<noteq> [] \<longrightarrow> busy \<noteq> None) \<and> arr = out @ map fst queue \<and>
     length out = runs + (if busy = None then 0 else 1)"

lemma slot_new [simp]: "slot_ok [] None [] [] 0"
  by (simp add: slot_ok_def)

lemma slot_take: "slot_ok arr None queue out runs \<Longrightarrow> slot_ok (arr @ [t]) (Some t) queue (out @ [t]) runs"
  by (simp add: slot_ok_def)

lemma slot_wait: "slot_ok arr (Some u) queue out runs \<Longrightarrow> slot_ok (arr @ [t]) (Some u) (queue @ [(t, time)]) out runs"
  by (simp add: slot_ok_def)

lemma slot_free: "slot_ok arr (Some u) [] out runs \<Longrightarrow> slot_ok arr None [] out (Suc runs)"
  by (simp add: slot_ok_def)

lemma slot_next: "slot_ok arr (Some u) ((t, time) # queue) out runs \<Longrightarrow> slot_ok arr (Some t) queue (out @ [t]) (Suc runs)"
  by (simp add: slot_ok_def)

lemma slot_idle: "slot_ok arr None queue out runs \<Longrightarrow> queue = [] \<and> out = arr"
  by (auto simp: slot_ok_def)

section \<open>The two sides of the state\<close>

text \<open>What the rules for requests and for responses speak of; every helper leaves one of the two alone.\<close>

definition req_side :: "at_ic \<Rightarrow> (nat \<Rightarrow> nat option) \<times> (nat \<Rightarrow> (nat \<times> sc_time) list) \<times> (nat \<Rightarrow> nat list) \<times> (nat \<Rightarrow> nat)" where
  "req_side s = (req_in_progress s, req_queue s, (\<lambda>u. sent u (trace s)), (\<lambda>u. req_runs u (trace s)))"

definition rsp_side :: "at_ic \<Rightarrow> (nat \<Rightarrow> nat option) \<times> (nat \<Rightarrow> (nat \<times> sc_time) list) \<times> (nat \<Rightarrow> nat option) \<times>
    (nat \<Rightarrow> nat list) \<times> (nat \<Rightarrow> nat)" where
  "rsp_side s = (rsp_in_progress s, rsp_queue s, (\<lambda>t. map_option rt_init (routes s t)), (\<lambda>i. delivered i (trace s)),
     (\<lambda>i. rsp_runs i (trace s)))"

lemmas helper_defs = made_def notify_req_def notify_rsp_def queue_the_rsp_def release_ref_def

lemma fw_answer_req: "fw_answer now i t u q ans s = Some (st, p, s') \<Longrightarrow> req_side s' = req_side s"
  by (auto simp: fw_answer_def helper_defs req_side_def Let_def split: prod.splits if_splits option.splits)

lemma send_bw_req: "send_bw_to_initiator t p dl ans ans2 s = Some s' \<Longrightarrow> req_side s' = req_side s"
  by (auto simp: send_bw_to_initiator_def helper_defs req_side_def Let_def split: prod.splits if_splits option.splits)

lemma helpers_req [simp]:
  "req_side (notify_req u s) = req_side s" "req_side (notify_rsp i s) = req_side s"
  "req_side (queue_the_rsp now i t dl s) = req_side s" "req_side (release_ref t s) = req_side s"
  "req_side (made (Reply i t st p) s) = req_side s" "req_side (made (Call_Bw i t p dl) s) = req_side s"
  "req_side (made (Run_End_Rsp i) s) = req_side s" "p \<noteq> BEGIN_REQ \<Longrightarrow> req_side (made (Call_Fw u t p dl) s) = req_side s"
  "req_side (s\<lparr>rsp_in_progress := x\<rparr>) = req_side s" "req_side (s\<lparr>rsp_queue := y\<rparr>) = req_side s"
  "req_side (s\<lparr>routes := z\<rparr>) = req_side s" "req_side (s\<lparr>held := h\<rparr>) = req_side s"
  "req_side (s\<lparr>end_req_event := e\<rparr>) = req_side s" "req_side (s\<lparr>end_rsp_event := e\<rparr>) = req_side s"
  by (simp_all add: helper_defs req_side_def)

definition req_inv :: "(nat \<Rightarrow> nat list) \<Rightarrow> at_ic \<Rightarrow> bool" where
  "req_inv arr s \<longleftrightarrow>
     (\<forall>u. slot_ok (arr u) (req_in_progress s u) (req_queue s u) (sent u (trace s)) (req_runs u (trace s)))"

lemma req_inv_side: "req_side s' = req_side s \<Longrightarrow> req_inv arr s \<Longrightarrow> req_inv arr s'"
  by (auto simp: req_inv_def req_side_def fun_eq_iff)

lemma fw_other_req:
  assumes "at_nb_transport_fw n now i t adr p dl ans s = Some (a, s')" and "p \<noteq> BEGIN_REQ"
  shows "req_side s' = req_side s"
proof -
  have answered: "req_side s' = req_side s" if "req_side s1 = req_side s"
      and "fw_answer now i t u q ans (made (Call_Fw u t p dl) s1) \<bind> (\<lambda>(st, p', s). Some (adr, made (Reply i t st p') s)) = Some (a, s')"
    for s1 u q
    using that assms(2) by (cases "fw_answer now i t u q ans (made (Call_Fw u t p dl) s1)") (auto dest: fw_answer_req)
  show ?thesis
  proof (cases "p = END_RESP")
    case True
    then show ?thesis
      using assms answered[of "notify_rsp i s"]
      by (cases "routes s t") (simp_all add: at_nb_transport_fw_def split: if_splits, auto)
  next
    case False
    then show ?thesis using assms answered[of s] by (simp add: at_nb_transport_fw_def)
  qed
qed

lemma fw_call_req:
  assumes "at_nb_transport_fw n now i t adr p dl ans s = Some (a, s')" and "req_inv arr s"
  shows "req_inv (\<lambda>u. arr u @ (if p = BEGIN_REQ \<and> fst (at_decode n adr) = u then [t] else [])) s'"
proof (cases "p = BEGIN_REQ")
  case False
  with req_inv_side[OF fw_other_req[OF assms(1)] assms(2)] show ?thesis by simp
next
  case True
  obtain u m where d: "at_decode n adr = (u, m)" by fastforce
  show ?thesis
  proof (cases "req_in_progress s u = None")
    case free: True
    define s1 where "s1 = made (Call_Fw u t p dl) (s\<lparr>routes := (routes s)(t \<mapsto> \<lparr>rt_init = i, rt_target = u, dont_propagate_fw = False\<rparr>),
      req_in_progress := (req_in_progress s)(u := Some t)\<rparr>)"
    have "req_side s' = req_side s1"
      using assms(1) True free d by (auto simp: at_nb_transport_fw_def s1_def split: bind_splits dest!: fw_answer_req)
    moreover have "req_inv (\<lambda>v. arr v @ (if u = v then [t] else [])) s1"
    proof -
      have "slot_ok (arr u @ [t]) (Some t) (req_queue s u) (sent u (trace s) @ [t]) (req_runs u (trace s))"
        using assms(2) free by (metis req_inv_def slot_take)
      then show ?thesis using assms(2) True unfolding req_inv_def s1_def made_def by simp
    qed
    ultimately have "req_inv (\<lambda>v. arr v @ (if u = v then [t] else [])) s'" by (rule req_inv_side)
    then show ?thesis using True d by simp
  next
    case busy: False
    obtain t0 where t0: "req_in_progress s u = Some t0" using busy by blast
    have s': "s' = made (Reply i t TLM_ACCEPTED p) (s\<lparr>routes := (routes s)(t \<mapsto> \<lparr>rt_init = i, rt_target = u, dont_propagate_fw = False\<rparr>),
        held := (held s)(t := held s t + 1), req_queue := (req_queue s)(u := req_queue s u @ [(t, now + dl)])\<rparr>)"
      using assms(1) True d t0 by (simp add: at_nb_transport_fw_def)
    have "slot_ok (arr u @ [t]) (Some t0) (req_queue s u @ [(t, now + dl)]) (sent u (trace s)) (req_runs u (trace s))"
      using assms(2) t0 by (metis req_inv_def slot_wait)
    then show ?thesis using assms(2) t0 True d unfolding s' req_inv_def made_def by simp
  qed
qed

lemma bw_call_req:
  "at_nb_transport_bw now u t p dl ans s = Some (st, s') \<Longrightarrow> req_side s' = req_side s"
  by (auto simp: at_nb_transport_bw_def helper_defs req_side_def Let_def split: prod.splits if_splits option.splits)

lemma end_rsp_req: "end_rsp_process now i ans ans2 s = Some s' \<Longrightarrow> req_side s' = req_side s"
  by (auto simp: end_rsp_process_def Let_def split: if_splits list.splits dest!: send_bw_req)

text \<open>The process of a target either frees the target or sends the next request.\<close>

definition next_req :: "sc_time \<Rightarrow> nat \<Rightarrow> at_ic \<Rightarrow> at_ic" where
  "next_req now u s =
     (case req_queue s u of
        [] \<Rightarrow> made (Run_End_Req u) (s\<lparr>req_in_progress := (req_in_progress s)(u := None)\<rparr>)
      | (t, time) # reqs \<Rightarrow> made (Call_Fw u t BEGIN_REQ (remaining now time)) (made (Run_End_Req u)
          (s\<lparr>req_queue := (req_queue s)(u := reqs), req_in_progress := (req_in_progress s)(u := Some t)\<rparr>)))"

lemma end_req_answer_req:
  assumes "end_req_answer now u t ext ans ans_bw ans2 s = Some s'"
  shows "req_side s' = req_side s"
proof -
  obtain st p dl where ans: "ans = (st, p, dl)" by (cases ans)
  have sent: "req_side s' = req_side s"
    if "map_option (release_ref t) (send_bw_to_initiator t p dl ans_bw ans2 s1) = Some s'" "req_side s1 = req_side s" for p s1
    using that by (auto dest: send_bw_req)
  show ?thesis
    using assms unfolding end_req_answer_def ans Let_def prod.case
    by (simp split: if_splits add: map_option_eq_Some) (auto dest!: send_bw_req)
qed

lemma end_req_in_progress:
  assumes "end_req_process now u ans ans_bw ans2 s = Some s'"
  shows "req_in_progress s u \<noteq> None"
proof
  assume "req_in_progress s u = None"
  with assms show False by (simp add: end_req_process_def made_def Let_def)
qed

lemma end_req_req:
  assumes "end_req_process now u ans ans_bw ans2 s = Some s'"
  shows "req_side s' = req_side (next_req now u s)"
proof (cases "req_queue s u")
  case Nil
  with assms end_req_in_progress[OF assms] show ?thesis
    by (auto simp: end_req_process_def next_req_def req_side_def made_def)
next
  case (Cons x reqs)
  obtain t time where x: "x = (t, time)" by (cases x)
  define s1 where "s1 = made (Call_Fw u t BEGIN_REQ (remaining now time)) (made (Run_End_Req u)
    (s\<lparr>end_req_event := (end_req_event s)(u := False), req_queue := (req_queue s)(u := reqs),
       req_in_progress := (req_in_progress s)(u := Some t)\<rparr>))"
  obtain ext where "end_req_answer now u t ext ans ans_bw ans2 s1 = Some s'"
    using assms end_req_in_progress[OF assms] Cons x
    by (cases "routes s t") (simp_all add: end_req_process_def s1_def made_def Let_def split: if_splits)
  then have "req_side s' = req_side s1" by (rule end_req_answer_req)
  also have "\<dots> = req_side (next_req now u s)"
    using Cons x by (simp add: s1_def next_req_def req_side_def made_def)
  finally show ?thesis .
qed

lemma next_req_inv:
  assumes "req_inv arr s" and "req_in_progress s u \<noteq> None"
  shows "req_inv arr (next_req now u s)"
proof -
  obtain t0 where t0: "req_in_progress s u = Some t0" using assms(2) by blast
  have at: "slot_ok (arr u) (Some t0) (req_queue s u) (sent u (trace s)) (req_runs u (trace s))"
    using assms(1) t0 by (metis req_inv_def)
  show ?thesis
  proof (cases "req_queue s u")
    case Nil
    with at assms(1) show ?thesis unfolding req_inv_def next_req_def made_def by (simp add: slot_free)
  next
    case (Cons x reqs)
    with at assms(1) show ?thesis
      unfolding req_inv_def next_req_def made_def by (cases x) (simp add: slot_next)
  qed
qed

lemma step_req:
  assumes "at_step n e s = Some s'" and "req_inv arr s"
  shows "req_inv (\<lambda>u. arr u @ arrivals_at n u [e]) s'"
proof (cases e)
  case (Fw_Called now i t adr p dl ans)
  then obtain a where "at_nb_transport_fw n now i t adr p dl ans s = Some (a, s')" using assms(1) by auto
  from fw_call_req[OF this assms(2)] show ?thesis by (simp add: Fw_Called)
next
  case (Bw_Called now u t p dl ans)
  then obtain st where "at_nb_transport_bw now u t p dl ans s = Some (st, s')" using assms(1) by auto
  from req_inv_side[OF bw_call_req[OF this] assms(2)] show ?thesis by (simp add: Bw_Called)
next
  case (End_Req_Runs now u ans ans_bw ans2)
  show ?thesis
  proof (cases "end_req_event s u")
    case True
    then have run: "end_req_process now u ans ans_bw ans2 s = Some s'" using assms(1) End_Req_Runs by simp
    have "req_inv arr (next_req now u s)" using next_req_inv[OF assms(2) end_req_in_progress[OF run]] .
    from req_inv_side[OF end_req_req[OF run] this] show ?thesis by (simp add: End_Req_Runs)
  next
    case False
    with assms End_Req_Runs show ?thesis by simp
  qed
next
  case (End_Rsp_Runs now i ans_bw ans2)
  then have "req_side s' = req_side s" using assms(1) end_rsp_req[of now i ans_bw ans2 s s'] by (simp split: if_splits)
  from req_inv_side[OF this assms(2)] show ?thesis by (simp add: End_Rsp_Runs)
qed

lemma run_req:
  "at_run n es s = Some s' \<Longrightarrow> req_inv arr s \<Longrightarrow> req_inv (\<lambda>u. arr u @ arrivals_at n u es) s'"
proof (induction es arbitrary: s arr)
  case (Cons e es)
  then obtain s1 where "at_step n e s = Some s1" "at_run n es s1 = Some s'" by (auto split: bind_splits)
  with Cons.IH[OF _ step_req] Cons.prems(2) have "req_inv (\<lambda>u. (arr u @ arrivals_at n u [e]) @ arrivals_at n u es) s'" by blast
  moreover have "arrivals_at n u (e # es) = arrivals_at n u [e] @ arrivals_at n u es" for u by (cases es) simp_all
  ultimately show ?case by simp
qed simp

lemma req_inv_new: "req_inv (\<lambda>_. []) new_at_ic"
  by (simp add: req_inv_def new_at_ic_def)

section \<open>Responses\<close>

text \<open>The response slots, with the responses that came to a slot read off the state, and the fact that a response waits
  in the queue of the initiator its transaction came from.\<close>

definition rsp_inv :: "at_ic \<Rightarrow> bool" where
  "rsp_inv s \<longleftrightarrow>
     (\<forall>i. slot_ok (delivered i (trace s) @ map fst (rsp_queue s i)) (rsp_in_progress s i) (rsp_queue s i)
        (delivered i (trace s)) (rsp_runs i (trace s))) \<and>
     (\<forall>i. \<forall>t \<in> fst ` set (rsp_queue s i). map_option rt_init (routes s t) = Some i)"

lemma rsp_inv_side: "rsp_side s' = rsp_side s \<Longrightarrow> rsp_inv s \<Longrightarrow> rsp_inv s'"
  by (simp add: rsp_inv_def rsp_side_def fun_eq_iff)

lemma rsp_slot: "rsp_inv s \<Longrightarrow> slot_ok (delivered i (trace s) @ map fst (rsp_queue s i)) (rsp_in_progress s i) (rsp_queue s i)
    (delivered i (trace s)) (rsp_runs i (trace s))"
  by (simp add: rsp_inv_def)

lemma helpers_rsp [simp]:
  "rsp_side (notify_req u s) = rsp_side s" "rsp_side (notify_rsp i s) = rsp_side s" "rsp_side (release_ref t s) = rsp_side s"
  "rsp_side (made (Call_Fw u t p dl) s) = rsp_side s" "rsp_side (made (Run_End_Req u) s) = rsp_side s"
  "st \<noteq> TLM_UPDATED \<or> p \<noteq> BEGIN_RESP \<Longrightarrow> rsp_side (made (Reply i t st p) s) = rsp_side s"
  "p \<noteq> BEGIN_RESP \<Longrightarrow> rsp_side (made (Call_Bw i t p dl) s) = rsp_side s"
  "rsp_side (s\<lparr>req_in_progress := x\<rparr>) = rsp_side s" "rsp_side (s\<lparr>req_queue := y\<rparr>) = rsp_side s"
  "rsp_side (s\<lparr>held := h\<rparr>) = rsp_side s" "rsp_side (s\<lparr>end_req_event := e\<rparr>) = rsp_side s"
  "rsp_side (s\<lparr>end_rsp_event := e\<rparr>) = rsp_side s"
  by (auto simp: helper_defs rsp_side_def fun_eq_iff)

text \<open>The four moves of a response slot.\<close>

lemma rsp_wait:
  assumes "rsp_inv s" and "rsp_in_progress s i \<noteq> None" and "map_option rt_init (routes s t) = Some i"
  shows "rsp_inv (queue_the_rsp now i t dl s)"
proof -
  obtain t0 where t0: "rsp_in_progress s i = Some t0" using assms(2) by blast
  have "slot_ok ((delivered i (trace s) @ map fst (rsp_queue s i)) @ [t]) (Some t0) (rsp_queue s i @ [(t, now + dl)])
      (delivered i (trace s)) (rsp_runs i (trace s))"
    using rsp_slot[OF assms(1), of i] t0 by (simp only: slot_wait)
  then show ?thesis using assms(1,3) t0 by (simp add: rsp_inv_def queue_the_rsp_def)
qed

lemma rsp_start:
  assumes "rsp_inv s" and "rsp_in_progress s i = None"
    and "c = Reply i t TLM_UPDATED BEGIN_RESP \<or> c = Call_Bw i t BEGIN_RESP dl"
  shows "rsp_inv (made c (s\<lparr>rsp_in_progress := (rsp_in_progress s)(i := Some t)\<rparr>))"
proof -
  have "slot_ok (delivered i (trace s) @ [t] @ map fst (rsp_queue s i)) (Some t) (rsp_queue s i) (delivered i (trace s) @ [t])
      (rsp_runs i (trace s))"
    using slot_take[of _ "rsp_queue s i" _ _ t] rsp_slot[OF assms(1), of i] slot_idle assms(2) by fastforce
  then show ?thesis using assms(1,3) by (auto simp: rsp_inv_def made_def)
qed

lemma rsp_free:
  assumes "rsp_inv s" and "rsp_in_progress s i \<noteq> None" and "rsp_queue s i = []"
  shows "rsp_inv (made (Run_End_Rsp i) (s\<lparr>rsp_in_progress := (rsp_in_progress s)(i := None)\<rparr>))"
proof -
  obtain t0 where t0: "rsp_in_progress s i = Some t0" using assms(2) by blast
  have "slot_ok (delivered i (trace s)) None [] (delivered i (trace s)) (Suc (rsp_runs i (trace s)))"
    using rsp_slot[OF assms(1), of i] t0 assms(3) by (auto intro: slot_free)
  then show ?thesis using assms(1,3) by (simp add: rsp_inv_def made_def)
qed

lemma rsp_next:
  assumes "rsp_inv s" and "rsp_in_progress s i \<noteq> None" and "rsp_queue s i = (t, time) # rsps"
  shows "rsp_inv (made (Call_Bw i t BEGIN_RESP dl) (made (Run_End_Rsp i)
    (s\<lparr>rsp_queue := (rsp_queue s)(i := rsps), rsp_in_progress := (rsp_in_progress s)(i := Some t)\<rparr>)))"
proof -
  obtain t0 where t0: "rsp_in_progress s i = Some t0" using assms(2) by blast
  have "slot_ok (delivered i (trace s) @ t # map fst rsps) (Some t) rsps (delivered i (trace s) @ [t])
      (Suc (rsp_runs i (trace s)))"
    using slot_next[of _ t0 t time rsps] rsp_slot[OF assms(1), of i] t0 assms(3) by fastforce
  then show ?thesis using assms(1,3) by (auto simp: rsp_inv_def made_def)
qed

text \<open>The handlers make these moves.\<close>

lemma fw_answer_rsp:
  assumes "fw_answer now i t u q ans s = Some (st, p, s')" and "rsp_inv s" and "map_option rt_init (routes s t) = Some i"
  shows "rsp_inv (made (Reply i t st p) s')"
proof -
  obtain st0 p0 dl where ans: "ans = (st0, p0, dl)" by (cases ans)
  let ?n = "if p0 = END_REQ \<or> p0 = BEGIN_RESP then notify_req u s else s"
  have n: "rsp_inv ?n" "rsp_in_progress ?n = rsp_in_progress s" "routes ?n = routes s"
    using assms(2) by (auto simp: notify_req_def intro: rsp_inv_side[OF helpers_rsp(1), unfolded notify_req_def])
  have quiet: "rsp_inv (made (Reply i t st1 p1) s1)" if "rsp_inv s1" "st1 \<noteq> TLM_UPDATED \<or> p1 \<noteq> BEGIN_RESP" for s1 st1 p1
    using rsp_inv_side[OF helpers_rsp(6)[OF that(2)] that(1)] .
  consider "st0 = TLM_UPDATED" "p0 = BEGIN_RESP" "rsp_in_progress s i = None"
    | "st0 = TLM_UPDATED" "p0 = BEGIN_RESP" "rsp_in_progress s i \<noteq> None"
    | "st0 = TLM_UPDATED" "p0 \<noteq> BEGIN_RESP" | "st0 = TLM_COMPLETED" "q" | "st0 \<noteq> TLM_UPDATED" "st0 \<noteq> TLM_COMPLETED \<or> \<not> q"
    by blast
  then show ?thesis
  proof cases
    case 1
    then have "st = TLM_UPDATED" "p = BEGIN_RESP" "s' = ?n\<lparr>rsp_in_progress := (rsp_in_progress ?n)(i := Some t)\<rparr>"
      using assms(1) n by (simp_all add: fw_answer_def ans Let_def split: if_splits)
    then show ?thesis using rsp_start[OF n(1)] 1 n(2) by simp
  next
    case 2
    then have "st = TLM_ACCEPTED" "s' = queue_the_rsp now i t dl ?n"
      using assms(1) n by (simp_all add: fw_answer_def ans Let_def split: if_splits)
    then show ?thesis using quiet[OF rsp_wait[OF n(1)]] 2 n assms(3) by simp
  next
    case 3
    then have "p = p0" "s' = ?n" using assms(1) by (simp_all add: fw_answer_def ans Let_def split: if_splits)
    then show ?thesis using quiet[OF n(1)] 3 by simp
  next
    case 4
    then obtain ext where ext: "routes s t = Some ext" using assms(1) by (cases "routes s t") (simp_all add: fw_answer_def ans)
    let ?r = "(notify_req u s)\<lparr>routes := (routes s)(t \<mapsto> ext\<lparr>dont_propagate_fw := True\<rparr>)\<rparr>"
    have r: "rsp_inv ?r"
      using assms(2) ext by (auto simp: rsp_side_def notify_req_def fun_eq_iff intro: rsp_inv_side[rotated])
    have "st \<noteq> TLM_UPDATED" "s' = ?r \<or> rsp_in_progress s i \<noteq> None \<and> s' = queue_the_rsp now i t dl ?r"
      using assms(1) 4 ext by (auto simp: fw_answer_def ans Let_def notify_req_def split: if_splits)
    moreover have "rsp_inv (queue_the_rsp now i t dl ?r)" if "rsp_in_progress s i \<noteq> None"
      using rsp_wait[OF r, of i t] that ext assms(3) by (simp add: notify_req_def)
    ultimately show ?thesis using r quiet by blast
  next
    case 5
    then have "st = st0" "s' = s" using assms(1) by (auto simp: fw_answer_def ans)
    then show ?thesis using quiet[OF assms(2)] 5 by simp
  qed
qed

lemma send_bw_rsp:
  assumes "send_bw_to_initiator t p dl ans ans2 s = Some s'" and "map_option rt_init (routes s t) = Some i"
  shows "rsp_side s' = rsp_side (made (Call_Bw i t p dl) s)"
  using assms by (auto simp: send_bw_to_initiator_def Let_def split: prod.splits if_splits option.splits)

lemma release_bw_rsp:
  assumes "map_option (release_ref t) (send_bw_to_initiator t p dl ans ans2 s) = Some s'"
    and "map_option rt_init (routes s t) = Some i" and "rsp_inv (made (Call_Bw i t p dl) s)"
  shows "rsp_inv s'"
  using assms by (auto dest!: send_bw_rsp intro: rsp_inv_side[rotated])

lemma reroute:
  assumes "rsp_inv s" and "\<forall>j. t \<notin> fst ` set (rsp_queue s j)"
  shows "rsp_inv (s\<lparr>routes := (routes s)(t \<mapsto> ext)\<rparr>)"
  using assms by (auto simp: rsp_inv_def image_iff)

lemma bw_call_rsp:
  assumes "at_nb_transport_bw now u t p dl ans s = Some (st, s')" and "rsp_inv s"
  shows "rsp_inv s'"
proof -
  let ?n = "if p = END_REQ \<or> req_in_progress s u = Some t \<and> p = BEGIN_RESP then notify_req u s else s"
  obtain ext where ext: "routes s t = Some ext"
    using assms(1) by (cases "routes s t") (auto simp: at_nb_transport_bw_def notify_req_def Let_def split: if_splits)
  let ?i = "rt_init ext"
  have n: "rsp_inv ?n" "rsp_in_progress ?n = rsp_in_progress s" "routes ?n = routes s"
    using assms(2) by (auto simp: notify_req_def intro: rsp_inv_side[OF helpers_rsp(1), unfolded notify_req_def])
  consider "p = BEGIN_RESP" "rsp_in_progress s ?i = None" | "p = BEGIN_RESP" "rsp_in_progress s ?i \<noteq> None" | "p \<noteq> BEGIN_RESP"
    by blast
  then show ?thesis
  proof cases
    case 1
    let ?c = "made (Call_Bw ?i t p (dl + 1000)) (?n\<lparr>rsp_in_progress := (rsp_in_progress ?n)(?i := Some t)\<rparr>)"
    have "rsp_side s' = rsp_side ?c"
      using assms(1) 1 ext n by (auto simp: at_nb_transport_bw_def Let_def split: prod.splits if_splits)
    moreover have "rsp_inv ?c" using rsp_start[OF n(1)] 1 n(2) by simp
    ultimately show ?thesis by (rule rsp_inv_side)
  next
    case 2
    then have "s' = queue_the_rsp now ?i t dl ?n"
      using assms(1) ext n by (auto simp: at_nb_transport_bw_def Let_def split: if_splits)
    then show ?thesis using rsp_wait[OF n(1)] 2 n ext by simp
  next
    case 3
    then have "rsp_side s' = rsp_side (made (Call_Bw ?i t p dl) ?n)"
      using assms(1) ext n by (auto simp: at_nb_transport_bw_def Let_def split: prod.splits if_splits)
    then have "rsp_side s' = rsp_side ?n" using 3 by simp
    then show ?thesis using n(1) by (rule rsp_inv_side)
  qed
qed

lemma end_req_answer_rsp:
  assumes "end_req_answer now u t ext ans ans_bw ans2 s = Some s'" and "rsp_inv s" and ext: "routes s t = Some ext"
  shows "rsp_inv s'"
proof -
  obtain st p dl where ans: "ans = (st, p, dl)" by (cases ans)
  let ?i = "rt_init ext"
  have answered: "rsp_inv s'"
    if n: "rsp_inv n" "rsp_in_progress n = rsp_in_progress s" "map_option rt_init (routes n t) = Some ?i"
      and "(if rsp_in_progress n ?i \<noteq> None then Some (queue_the_rsp now ?i t dl n)
            else map_option (release_ref t) (send_bw_to_initiator t BEGIN_RESP dl ans_bw ans2
               (n\<lparr>rsp_in_progress := (rsp_in_progress n)(?i := Some t)\<rparr>))) = Some s'" for n
  proof (cases "rsp_in_progress n ?i = None")
    case True
    have "rsp_inv (made (Call_Bw ?i t BEGIN_RESP dl) (n\<lparr>rsp_in_progress := (rsp_in_progress n)(?i := Some t)\<rparr>))"
      using rsp_start[OF n(1) True] by simp
    then show ?thesis using that(4) True n(3) by (auto intro: release_bw_rsp)
  next
    case False
    then show ?thesis using that(4) rsp_wait[OF n(1) False n(3)] by auto
  qed
  have nreq: "rsp_inv (notify_req u s)" using assms(2) by (rule rsp_inv_side[OF helpers_rsp(1)])
  consider "st = TLM_UPDATED" "p = BEGIN_RESP" | "st = TLM_UPDATED" "p \<noteq> BEGIN_RESP" | "st = TLM_COMPLETED"
    | "st \<noteq> TLM_UPDATED" "st \<noteq> TLM_COMPLETED" by blast
  then show ?thesis
  proof cases
    case 1
    then show ?thesis using answered[OF nreq] assms(1) ext by (simp add: end_req_answer_def ans Let_def notify_req_def cong: if_cong)
  next
    case 2
    let ?n = "if p = END_REQ then notify_req u s else s"
    have "map_option (release_ref t) (send_bw_to_initiator t p dl ans_bw ans2 ?n) = Some s'"
      using assms(1) 2 by (simp add: end_req_answer_def ans Let_def)
    moreover have "rsp_inv (made (Call_Bw ?i t p dl) ?n)"
      using nreq assms(2) 2(2) by (auto intro: rsp_inv_side[OF helpers_rsp(7)])
    ultimately show ?thesis using ext by (auto simp: notify_req_def intro: release_bw_rsp)
  next
    case 3
    let ?r = "(notify_req u s)\<lparr>routes := (routes s)(t \<mapsto> ext\<lparr>dont_propagate_fw := True\<rparr>)\<rparr>"
    have "rsp_inv ?r"
      using assms(2) ext by (auto simp: rsp_side_def notify_req_def fun_eq_iff intro: rsp_inv_side[rotated])
    from answered[OF this] show ?thesis using assms(1) 3 by (simp add: end_req_answer_def ans Let_def notify_req_def cong: if_cong)
  next
    case 4
    then have "s' = release_ref t s" using assms(1) by (simp add: end_req_answer_def ans Let_def)
    then show ?thesis using assms(2) rsp_inv_side[OF helpers_rsp(3)] by simp
  qed
qed

lemma end_req_rsp:
  assumes "end_req_process now u ans ans_bw ans2 s = Some s'" and "rsp_inv s"
  shows "rsp_inv s'"
proof (cases "req_queue s u")
  case Nil
  with assms(1) end_req_in_progress[OF assms(1)] have "rsp_side s' = rsp_side s"
    by (auto simp: end_req_process_def Let_def made_def rsp_side_def)
  then show ?thesis using assms(2) by (rule rsp_inv_side)
next
  case (Cons x reqs)
  obtain t time where x: "x = (t, time)" by (cases x)
  define s1 where "s1 = made (Call_Fw u t BEGIN_REQ (remaining now time)) ((made (Run_End_Req u)
    (s\<lparr>end_req_event := (end_req_event s)(u := False)\<rparr>))\<lparr>req_queue := (req_queue s)(u := reqs),
       req_in_progress := (req_in_progress s)(u := Some t)\<rparr>)"
  obtain ext where "end_req_answer now u t ext ans ans_bw ans2 s1 = Some s'" "routes s t = Some ext"
    using assms(1) end_req_in_progress[OF assms(1)] Cons x
    by (cases "routes s t") (simp_all add: end_req_process_def s1_def made_def Let_def split: if_splits)
  moreover have "routes s1 = routes s" by (simp add: s1_def made_def)
  moreover have "rsp_side s1 = rsp_side s" by (simp add: s1_def)
  ultimately show ?thesis using end_req_answer_rsp rsp_inv_side assms(2) by metis
qed

lemma end_rsp_in_progress:
  assumes "end_rsp_process now i ans ans2 s = Some s'"
  shows "rsp_in_progress s i \<noteq> None"
proof
  assume "rsp_in_progress s i = None"
  with assms show False by (simp add: end_rsp_process_def made_def Let_def)
qed

lemma end_rsp_rsp:
  assumes "end_rsp_process now i ans ans2 s = Some s'" and "rsp_inv s"
  shows "rsp_inv s'"
proof (cases "rsp_queue s i")
  case Nil
  with assms(1) end_rsp_in_progress[OF assms(1)]
  have "rsp_side s' = rsp_side (made (Run_End_Rsp i) (s\<lparr>rsp_in_progress := (rsp_in_progress s)(i := None)\<rparr>))"
    by (auto simp: end_rsp_process_def Let_def made_def rsp_side_def)
  then show ?thesis using rsp_free[OF assms(2) end_rsp_in_progress[OF assms(1)] Nil] by (rule rsp_inv_side)
next
  case (Cons x rsps)
  obtain t time where x: "x = (t, time)" by (cases x)
  define s1 where "s1 = (made (Run_End_Rsp i) (s\<lparr>end_rsp_event := (end_rsp_event s)(i := False)\<rparr>))
    \<lparr>rsp_queue := (rsp_queue s)(i := rsps), rsp_in_progress := (rsp_in_progress s)(i := Some t)\<rparr>"
  have sent: "map_option (release_ref t) (send_bw_to_initiator t BEGIN_RESP (remaining now time) ans ans2 s1) = Some s'"
    using assms(1) end_rsp_in_progress[OF assms(1)] Cons x by (simp add: end_rsp_process_def s1_def made_def Let_def split: if_splits)
  have "map_option rt_init (routes s1 t) = Some i"
    using assms(2) Cons x by (force simp: s1_def made_def rsp_inv_def)
  moreover have "rsp_inv (made (Call_Bw i t BEGIN_RESP (remaining now time)) s1)"
    by (rule rsp_inv_side[OF _ rsp_next[OF assms(2) end_rsp_in_progress[OF assms(1)] Cons[unfolded x]]])
      (simp add: s1_def made_def rsp_side_def)
  ultimately show ?thesis by (rule release_bw_rsp[OF sent])
qed

text \<open>The calls of a well-behaved initiator: only the phases of the forward path, and no new request with a
  transaction whose response still waits.\<close>

fun polite :: "at_event \<Rightarrow> at_ic \<Rightarrow> bool" where
  "polite (Fw_Called now i t adr p dl ans) s \<longleftrightarrow>
     p = END_RESP \<or> p = BEGIN_REQ \<and> (\<forall>j. t \<notin> fst ` set (rsp_queue s j))"
| "polite _ s \<longleftrightarrow> True"

lemma fw_call_rsp:
  assumes "at_nb_transport_fw n now i t adr p dl ans s = Some (a, s')" and "rsp_inv s"
    and "p = END_RESP \<or> p = BEGIN_REQ \<and> (\<forall>j. t \<notin> fst ` set (rsp_queue s j))"
  shows "rsp_inv s'"
proof (cases "p = BEGIN_REQ")
  case True
  obtain u m where d: "at_decode n adr = (u, m)" by fastforce
  let ?r = "s\<lparr>routes := (routes s)(t \<mapsto> \<lparr>rt_init = i, rt_target = u, dont_propagate_fw = False\<rparr>)\<rparr>"
  have r: "rsp_inv ?r" using reroute[OF assms(2)] assms(3) True by simp
  show ?thesis
  proof (cases "req_in_progress s u = None")
    case free: True
    let ?s1 = "made (Call_Fw u t p dl) (?r\<lparr>req_in_progress := (req_in_progress s)(u := Some t)\<rparr>)"
    obtain st p' s2 where a: "fw_answer now i t u True ans ?s1 = Some (st, p', s2)" "s' = made (Reply i t st p') s2"
      using assms(1) True free d by (auto simp: at_nb_transport_fw_def split: bind_splits)
    have "rsp_side ?s1 = rsp_side ?r" by simp
    then have "rsp_inv ?s1" using r by (rule rsp_inv_side)
    then show ?thesis using fw_answer_rsp[OF a(1)] a(2) by (simp add: made_def)
  next
    case False
    then have "rsp_side s' = rsp_side ?r" using assms(1) True d by (auto simp: at_nb_transport_fw_def)
    then show ?thesis using r by (rule rsp_inv_side)
  qed
next
  case False
  then have p: "p = END_RESP" using assms(3) by simp
  obtain ext where ext: "routes s t = Some ext" "rt_init ext = i"
    using assms(1) p by (cases "routes s t") (auto simp: at_nb_transport_fw_def split: if_splits)
  have n: "rsp_inv (notify_rsp i s)" using assms(2) by (rule rsp_inv_side[OF helpers_rsp(2)])
  show ?thesis
  proof (cases "dont_propagate_fw ext")
    case True
    then have "rsp_side s' = rsp_side s" using assms(1) p ext by (auto simp: at_nb_transport_fw_def split: if_splits)
    then show ?thesis using assms(2) by (rule rsp_inv_side)
  next
    case False
    let ?s1 = "made (Call_Fw (rt_target ext) t p dl) (notify_rsp i s)"
    obtain st p' s2 where a: "fw_answer now i t (rt_target ext) False ans ?s1 = Some (st, p', s2)" "s' = made (Reply i t st p') s2"
      using assms(1) p False ext by (auto simp: at_nb_transport_fw_def split: bind_splits if_splits)
    have "rsp_inv ?s1" using n by (rule rsp_inv_side[OF helpers_rsp(4)])
    then show ?thesis using fw_answer_rsp[OF a(1)] a(2) ext by (simp add: made_def notify_rsp_def)
  qed
qed

lemma step_rsp:
  assumes "at_step n e s = Some s'" and "polite e s" and "rsp_inv s"
  shows "rsp_inv s'"
proof (cases e)
  case (Fw_Called now i t adr p dl ans)
  then obtain a where "at_nb_transport_fw n now i t adr p dl ans s = Some (a, s')" using assms(1) by auto
  then show ?thesis using fw_call_rsp assms(2,3) Fw_Called by simp
next
  case (Bw_Called now u t p dl ans)
  then show ?thesis using assms(1,3) by (auto dest: bw_call_rsp)
next
  case (End_Req_Runs now u ans ans_bw ans2)
  then show ?thesis using assms(1,3) end_req_rsp by (auto split: if_splits)
next
  case (End_Rsp_Runs now i ans_bw ans2)
  then show ?thesis using assms(1,3) end_rsp_rsp by (auto split: if_splits)
qed

fun polite_run :: "nat \<Rightarrow> at_event list \<Rightarrow> at_ic \<Rightarrow> bool" where
  "polite_run n [] s \<longleftrightarrow> True"
| "polite_run n (e # es) s \<longleftrightarrow> polite e s \<and> (case at_step n e s of None \<Rightarrow> True | Some s' \<Rightarrow> polite_run n es s')"

lemma run_rsp: "at_run n es s = Some s' \<Longrightarrow> polite_run n es s \<Longrightarrow> rsp_inv s \<Longrightarrow> rsp_inv s'"
proof (induction es arbitrary: s)
  case (Cons e es)
  then obtain s1 where "at_step n e s = Some s1" "at_run n es s1 = Some s'" by (auto split: bind_splits)
  with Cons show ?case using step_rsp by simp
qed simp

lemma rsp_inv_new: "rsp_inv new_at_ic"
  by (simp add: rsp_inv_def new_at_ic_def)

section \<open>Properties\<close>

text \<open>C10: In every run of the interconnect the requests that arrived for a target are, in their order of arrival, the
  requests it has sent to the target followed by those that wait.\<close>

theorem requests_in_order:
  assumes "at_run n es new_at_ic = Some s"
  shows "arrivals_at n u es = sent u (trace s) @ map fst (req_queue s u)"
  using run_req[OF assms req_inv_new] by (simp add: req_inv_def slot_ok_def)

lemma at_decode_first: "at_decode (Suc 0) 16 = (0, 16)"
  by (simp add: at_decode_def)

abbreviation (input) accepted :: answer where "accepted \<equiv> (TLM_ACCEPTED, BEGIN_REQ, 0)"

lemmas at_eval = at_decode_first at_nb_transport_fw_def at_nb_transport_bw_def fw_answer_def send_bw_to_initiator_def
  end_req_process_def end_rsp_process_def end_req_answer_def helper_defs remaining_def new_at_ic_def Let_def

text \<open>Three requests for the first target: the second and the third wait, the first ends and the second is sent.\<close>

definition three_requests :: "at_event list" where
  "three_requests = [Fw_Called 0 0 1 0x10 BEGIN_REQ 0 accepted, Fw_Called 0 1 2 0x10 BEGIN_REQ 5 accepted,
     Fw_Called 2 0 3 0x10 BEGIN_REQ 0 accepted, Bw_Called 3 0 1 END_REQ 0 accepted,
     End_Req_Runs 3 0 accepted accepted TLM_ACCEPTED]"

lemma three_requests_run: "\<exists>s. at_run 1 three_requests new_at_ic = Some s \<and> polite_run 1 three_requests new_at_ic \<and>
    req_in_progress s 0 = Some 2 \<and> req_queue s 0 = [(3, 2)] \<and> sent 0 (trace s) = [1, 2] \<and>
    map_option rt_target (routes s 2) = Some 0 \<and> map_option rt_target (routes s 3) = Some 0"
  by (simp add: three_requests_def at_eval)

lemma requests_in_order_witness:
  "\<exists>s :: at_ic. arrivals_at 1 0 three_requests = sent 0 (trace s) @ map fst (req_queue s 0) \<and> req_queue s 0 = [(3, 2)]"
  using three_requests_run requests_in_order[of 1 three_requests _ 0] by blast

text \<open>C6: The exclusion rules. In every run with well-behaved initiators, a request waits only while another one is in
  progress at its target, and a response only while another one is in progress at its initiator; and every request sent
  (response delivered) but the one in progress has been ended by a run of the process of the target (initiator).\<close>

theorem exclusion_rules:
  assumes "at_run n es new_at_ic = Some s" and "polite_run n es new_at_ic"
  shows "(req_in_progress s u = None \<longrightarrow> req_queue s u = []) \<and> (rsp_in_progress s i = None \<longrightarrow> rsp_queue s i = []) \<and>
    length (sent u (trace s)) = req_runs u (trace s) + (if req_in_progress s u = None then 0 else 1) \<and>
    length (delivered i (trace s)) = rsp_runs i (trace s) + (if rsp_in_progress s i = None then 0 else 1)"
  using run_req[OF assms(1) req_inv_new, unfolded req_inv_def, rule_format, of u] rsp_slot[OF run_rsp[OF assms rsp_inv_new], of i]
  by (auto simp: slot_ok_def)

lemma at_run_append: "at_run n (es @ fs) s = at_run n es s \<bind> at_run n fs"
proof (induction es arbitrary: s)
  case (Cons e es)
  then show ?case by (cases "at_step n e s") simp_all
qed simp

lemma exclusion_rules_witness:
  "\<exists>s :: at_ic. sent 0 (trace s) = [1, 2] \<and> length (sent 0 (trace s)) = req_runs 0 (trace s) + 1"
proof -
  obtain s where s: "at_run 1 three_requests new_at_ic = Some s" "polite_run 1 three_requests new_at_ic"
      "req_in_progress s 0 = Some 2" "sent 0 (trace s) = [1, 2]" using three_requests_run by blast
  have "length (sent 0 (trace s)) = req_runs 0 (trace s) + 1" using exclusion_rules[OF s(1,2), of 0 0] s(3) by simp
  with s(4) show ?thesis by blast
qed

text \<open>A target that ends its requests one after the other and answers each with \<^verbatim>\<open>TLM_ACCEPTED\<close>.\<close>

fun drain :: "nat \<Rightarrow> sc_time \<Rightarrow> nat list \<Rightarrow> at_event list" where
  "drain u now [] = []"
| "drain u now (t # ts) = Bw_Called now u t END_REQ 0 (TLM_ACCEPTED, END_REQ, 0) #
     End_Req_Runs now u (TLM_ACCEPTED, BEGIN_REQ, 0) (TLM_ACCEPTED, BEGIN_REQ, 0) TLM_ACCEPTED # drain u now ts"

lemma drain_one:
  assumes "req_in_progress s u = Some t0" and "routes s t0 \<noteq> None"
    and "req_queue s u = q" and "\<forall>t \<in> fst ` set q. map_option rt_target (routes s t) = Some u"
  shows "\<exists>s'. at_run n (drain u now [t0]) s = Some s' \<and> routes s' = routes s \<and> req_queue s' u = tl q \<and>
    req_in_progress s' u = (case q of [] \<Rightarrow> None | x # _ \<Rightarrow> Some (fst x)) \<and>
    sent u (trace s') = sent u (trace s) @ (case q of [] \<Rightarrow> [] | x # _ \<Rightarrow> [fst x])"
proof -
  obtain ext where ext: "routes s t0 = Some ext" using assms(2) by blast
  define s1 where "s1 = made (Call_Bw (rt_init ext) t0 END_REQ 0) (notify_req u s)"
  have s1: "at_step n (Bw_Called now u t0 END_REQ 0 (TLM_ACCEPTED, END_REQ, 0)) s = Some s1"
    using assms(1) ext by (simp add: at_nb_transport_bw_def notify_req_def Let_def s1_def)
  have s1_simps: "end_req_event s1 u" "req_in_progress s1 = req_in_progress s" "routes s1 = routes s" "req_queue s1 = req_queue s"
      "sent u (trace s1) = sent u (trace s)"
    by (simp_all add: s1_def made_def notify_req_def)
  let ?a = "(TLM_ACCEPTED, BEGIN_REQ, 0)"
  have run: "at_run n (drain u now [t0]) s = end_req_process now u ?a ?a TLM_ACCEPTED s1"
    using s1 s1_simps(1) by (cases "end_req_process now u ?a ?a TLM_ACCEPTED s1") (simp_all del: at_step.simps(2))
  show ?thesis
  proof (cases q)
    case Nil
    then show ?thesis unfolding run using assms(1,3) s1_simps by (simp add: end_req_process_def made_def Let_def)
  next
    case (Cons x reqs)
    obtain t time where x: "x = (t, time)" by (cases x)
    obtain e where "routes s t = Some e" "rt_target e = u" using assms(4) Cons x by auto
    then show ?thesis unfolding run using assms(1,3) s1_simps Cons x
      by (simp add: end_req_process_def end_req_answer_def release_ref_def made_def Let_def)
  qed
qed

text \<open>No request is lost. Whatever waits at a busy target, if the target ends its requests one after the other then
  all of them are sent, in order, and the target is idle.\<close>

theorem requests_drain:
  assumes "req_in_progress s u = Some t0" and "req_queue s u = q"
    and "\<forall>t \<in> insert t0 (fst ` set q). map_option rt_target (routes s t) = Some u"
  shows "\<exists>s'. at_run n (drain u now (t0 # map fst q)) s = Some s' \<and> req_in_progress s' u = None \<and> req_queue s' u = [] \<and>
    sent u (trace s') = sent u (trace s) @ map fst q"
  using assms
proof (induction q arbitrary: s t0)
  case Nil
  then have "routes s t0 \<noteq> None" by auto
  from drain_one[OF Nil.prems(1) this Nil.prems(2), of n now] show ?case by auto
next
  case (Cons x q)
  then have "routes s t0 \<noteq> None" by auto
  moreover have "\<forall>t \<in> fst ` set (x # q). map_option rt_target (routes s t) = Some u" using Cons.prems(3) by simp
  ultimately obtain s1 where s1: "at_run n (drain u now [t0]) s = Some s1" "routes s1 = routes s" "req_queue s1 u = q"
      "req_in_progress s1 u = Some (fst x)" "sent u (trace s1) = sent u (trace s) @ [fst x]"
    using drain_one[OF Cons.prems(1) _ Cons.prems(2), of n now] by auto
  have "\<forall>t \<in> insert (fst x) (fst ` set q). map_option rt_target (routes s1 t) = Some u" using Cons.prems(3) s1(2) by simp
  from Cons.IH[OF s1(4,3) this] obtain s' where "at_run n (drain u now (fst x # map fst q)) s1 = Some s'"
      "req_in_progress s' u = None" "req_queue s' u = []" "sent u (trace s') = sent u (trace s1) @ map fst q" by blast
  moreover have "drain u now (t0 # map fst (x # q)) = drain u now [t0] @ drain u now (fst x # map fst q)" by simp
  ultimately show ?case using s1 by (simp add: at_run_append del: drain.simps)
qed

lemma requests_drain_witness:
  "\<exists>s s' :: at_ic. req_queue s 0 = [(3, 2)] \<and> at_run 1 (drain 0 9 [2, 3]) s = Some s' \<and> sent 0 (trace s') = [1, 2, 3]"
proof -
  obtain s :: at_ic where s: "req_in_progress s 0 = Some 2" "req_queue s 0 = [(3, 2)]" "sent 0 (trace s) = [1, 2]"
      "map_option rt_target (routes s 2) = Some 0" "map_option rt_target (routes s 3) = Some 0"
    using three_requests_run by (elim exE conjE)
  then have "\<forall>t \<in> insert 2 (fst ` set [(3::nat, 2::sc_time)]). map_option rt_target (routes s t) = Some 0" by simp
  from requests_drain[OF s(1,2) this, of 1 9] s show ?thesis by auto
qed

text \<open>A delayed request that is answered with its response while another response is in progress.\<close>

definition delayed_response :: "at_event list" where
  "delayed_response = [Fw_Called 0 0 1 0x10 BEGIN_REQ 0 (TLM_UPDATED, BEGIN_RESP, 0), Fw_Called 0 0 2 0x10 BEGIN_REQ 0 accepted,
     End_Req_Runs 1 0 (TLM_UPDATED, BEGIN_RESP, 0) accepted TLM_ACCEPTED, End_Req_Runs 2 0 accepted accepted TLM_ACCEPTED,
     Fw_Called 3 0 1 0x10 END_RESP 0 (TLM_COMPLETED, END_RESP, 0),
     End_Rsp_Runs 4 0 (TLM_COMPLETED, BEGIN_RESP, 0) TLM_COMPLETED, End_Rsp_Runs 5 0 accepted TLM_ACCEPTED]"

text \<open>The early return of the process of a target leaks a reference: there is a run of well-behaved modules after
  which nothing waits and nothing is in progress anywhere, yet the interconnect still holds a reference to the second
  transaction, which can never return to its pool.\<close>

theorem early_return_leaks_reference:
  "\<exists>s. at_run 1 delayed_response new_at_ic = Some s \<and> polite_run 1 delayed_response new_at_ic \<and>
     (\<forall>u. req_queue s u = [] \<and> rsp_queue s u = [] \<and> req_in_progress s u = None \<and> rsp_in_progress s u = None) \<and>
     held s 2 = 1"
  by (simp add: delayed_response_def at_eval)

end
