(* ===== verification/At_Initiators.thy ===== *)
theory At_Initiators
  imports At_Targets
begin

text \<open>
  The approximately-timed initiators (\<^verbatim>\<open>src/locknsnoop/common/at_typea_initiator.h\<close> and \<^verbatim>\<open>at_typeb_initiator.h\<close>).
  The thread is cut at its waits. Random numbers, the transaction that the memory manager hands out, the answers of the
  forward calls and the attributes a transaction has when it comes back are inputs. \<open>None\<close> is a fatal report or a
  failed assertion. Log output is left out.
\<close>

section \<open>State\<close>

text \<open>What the thread waits for, with the transaction it has prepared. \<^verbatim>\<open>notify()\<close> only wakes a thread that waits.\<close>

datatype at_thread =
  Next_Iteration                    \<comment> \<open>the delay at the end of an iteration, or the start\<close>
| Wait_End_Req nat payload
| Woken nat payload
| Finished

record at_initiator =
  iteration :: nat
  thread :: at_thread
  data_array :: "i32 list"
  req_in_progress :: "nat option"
  init_peq :: "(sc_time \<times> nat \<times> tlm_phase) list"
  init_refs :: "nat \<Rightarrow> nat"
  fw_calls :: "(nat \<times> payload \<times> tlm_phase \<times> sc_time) list"

definition new_at_initiator :: "i32 list \<Rightarrow> at_initiator" where
  "new_at_initiator d = \<lparr>iteration = 0, thread = Next_Iteration, data_array = d, req_in_progress = None, init_peq = [],
     init_refs = (\<lambda>_. 0), fw_calls = []\<rparr>"

section \<open>Type A\<close>

definition ai_acquire :: "nat \<Rightarrow> at_initiator \<Rightarrow> at_initiator" where
  "ai_acquire t s = s\<lparr>init_refs := (init_refs s)(t := init_refs s t + 1)\<rparr>"

definition ai_release :: "nat \<Rightarrow> at_initiator \<Rightarrow> at_initiator" where
  "ai_release t s = s\<lparr>init_refs := (init_refs s)(t := init_refs s t - 1)\<rparr>"

definition ai_call_fw :: "nat \<Rightarrow> payload \<Rightarrow> tlm_phase \<Rightarrow> sc_time \<Rightarrow> at_initiator \<Rightarrow> at_initiator" where
  "ai_call_fw t tr p delay s = s\<lparr>fw_calls := fw_calls s @ [(t, tr, p, delay)]\<rparr>"

definition ai_peq_notify :: "sc_time \<Rightarrow> nat \<Rightarrow> tlm_phase \<Rightarrow> at_initiator \<Rightarrow> at_initiator" where
  "ai_peq_notify time t p s = s\<lparr>init_peq := init_peq s @ [(time, t, p)]\<rparr>"

definition end_request :: "at_initiator \<Rightarrow> at_initiator" where
  "end_request s = s\<lparr>req_in_progress := None, thread := (case thread s of Wait_End_Req t tr \<Rightarrow> Woken t tr | th \<Rightarrow> th)\<rparr>"

text \<open>The assertion of \<^verbatim>\<open>check_transaction\<close>: a successful read has brought the negated address.\<close>

definition check_transaction :: "payload \<Rightarrow> bool" where
  "check_transaction tr \<longleftrightarrow>
     (command tr = TLM_READ_COMMAND \<and> response tr = TLM_OK_RESPONSE \<longrightarrow> take 4 (data tr) = int_bytes (- ucast (address tr)))"

definition prepare :: "i32 \<Rightarrow> bool \<Rightarrow> at_initiator \<Rightarrow> payload \<times> at_initiator" where
  "prepare r write s =
     (let adr = r AND 0xFFFC; j = iteration s mod 16;
          s = (if write then s\<lparr>data_array := (data_array s)[j := adr]\<rparr> else s)
      in (\<lparr>command = (if write then TLM_WRITE_COMMAND else TLM_READ_COMMAND), address = ucast adr,
           data = int_bytes (data_array s ! j), data_length = 4, byte_enable = False, streaming_width = 4,
           dmi_allowed = False, response = TLM_INCOMPLETE_RESPONSE, manager = Pool_Manager\<rparr>, s))"

text \<open>The answer of the target, with the attributes after the call.\<close>

type_synonym target_answer = "tlm_sync \<times> tlm_phase \<times> sc_time \<times> payload"

definition end_iteration :: "at_initiator \<Rightarrow> at_initiator" where
  "end_iteration s = s\<lparr>iteration := iteration s + 1, thread := (if iteration s + 1 < 1000 then Next_Iteration else Finished)\<rparr>"

definition ai_send :: "sc_time \<Rightarrow> nat \<Rightarrow> payload \<Rightarrow> sc_time \<Rightarrow> target_answer \<Rightarrow> at_initiator \<Rightarrow> at_initiator option" where
  "ai_send now t tr rnd ans s =
     (let s = ai_call_fw t tr BEGIN_REQ rnd (s\<lparr>req_in_progress := Some t\<rparr>) in
      case ans of (status, phase, delay, tr) \<Rightarrow>
        if status = TLM_UPDATED then Some (end_iteration (ai_peq_notify (now + delay) t phase s))
        else if status = TLM_COMPLETED then
          if check_transaction tr then Some (end_iteration (ai_release t (s\<lparr>req_in_progress := None\<rparr>))) else None
        else Some (end_iteration s))"

definition ai_thread_process ::
    "sc_time \<Rightarrow> nat \<Rightarrow> i32 \<Rightarrow> bool \<Rightarrow> sc_time \<Rightarrow> target_answer \<Rightarrow> at_initiator \<Rightarrow> at_initiator option" where
  "ai_thread_process now new r write rnd ans s =
     (case thread s of
        Next_Iteration \<Rightarrow>
          (let (tr, s) = prepare r write s; s = ai_acquire new s
           in if req_in_progress s \<noteq> None then Some (s\<lparr>thread := Wait_End_Req new tr\<rparr>) else ai_send now new tr rnd ans s)
      | Woken t tr \<Rightarrow> ai_send now t tr rnd ans s
      | _ \<Rightarrow> Some s)"

definition ai_nb_transport_bw :: "sc_time \<Rightarrow> nat \<Rightarrow> tlm_phase \<Rightarrow> sc_time \<Rightarrow> at_initiator \<Rightarrow> tlm_sync \<times> at_initiator" where
  "ai_nb_transport_bw now t phase delay s = (TLM_ACCEPTED, ai_peq_notify (now + delay) t phase s)"

definition ai_peq_cb :: "nat \<Rightarrow> tlm_phase \<Rightarrow> payload \<Rightarrow> sc_time \<Rightarrow> at_initiator \<Rightarrow> at_initiator option" where
  "ai_peq_cb t phase tr rnd s = do {
     s \<leftarrow> (if phase = END_REQ \<or> req_in_progress s = Some t \<and> phase = BEGIN_RESP then Some (end_request s)
          else if phase = BEGIN_REQ \<or> phase = END_RESP then None else Some s);
     (if phase = BEGIN_RESP
      then if check_transaction tr then Some (ai_release t (ai_call_fw t tr END_RESP rnd s)) else None
      else Some s)
   }"

section \<open>Type B\<close>

text \<open>The thread and the callback are the same code as those of type A; responses on the backward path end at once.\<close>

definition bi_thread_process ::
    "sc_time \<Rightarrow> nat \<Rightarrow> i32 \<Rightarrow> bool \<Rightarrow> sc_time \<Rightarrow> target_answer \<Rightarrow> at_initiator \<Rightarrow> at_initiator option" where
  "bi_thread_process = ai_thread_process"

definition bi_peq_cb :: "nat \<Rightarrow> tlm_phase \<Rightarrow> payload \<Rightarrow> sc_time \<Rightarrow> at_initiator \<Rightarrow> at_initiator option" where
  "bi_peq_cb = ai_peq_cb"

definition bi_nb_transport_bw :: "sc_time \<Rightarrow> nat \<Rightarrow> payload \<Rightarrow> tlm_phase \<Rightarrow> sc_time \<Rightarrow> sc_time \<Rightarrow> at_initiator \<Rightarrow>
    (tlm_sync \<times> tlm_phase \<times> sc_time \<times> at_initiator) option" where
  "bi_nb_transport_bw now t tr phase delay rnd s =
     (if phase = END_REQ then Some (TLM_ACCEPTED, phase, delay, ai_peq_notify (now + delay) t phase s)
      else if phase = BEGIN_RESP then
        (let s = (if req_in_progress s = Some t then end_request s else s)
         in if check_transaction tr then Some (TLM_COMPLETED, phase, delay + rnd, ai_release t s) else None)
      else None)"

section \<open>Runs\<close>

datatype init_event =
  Thread sc_time nat i32 bool sc_time target_answer
| Bw sc_time nat payload tlm_phase sc_time sc_time
| Init_Due nat payload sc_time

definition init_due :: "nat \<Rightarrow> (nat \<Rightarrow> tlm_phase \<Rightarrow> at_initiator \<Rightarrow> at_initiator option) \<Rightarrow> at_initiator \<Rightarrow> at_initiator option" where
  "init_due j cb s =
     (if is_due j (init_peq s)
      then (case init_peq s ! j of (_, t, p) \<Rightarrow> cb t p (s\<lparr>init_peq := take j (init_peq s) @ drop (Suc j) (init_peq s)\<rparr>))
      else Some s)"

fun ai_step :: "init_event \<Rightarrow> at_initiator \<Rightarrow> at_initiator option" where
  "ai_step (Thread now new r write rnd ans) s = ai_thread_process now new r write rnd ans s"
| "ai_step (Bw now t tr phase delay rnd) s = Some (snd (ai_nb_transport_bw now t phase delay s))"
| "ai_step (Init_Due j tr rnd) s = init_due j (\<lambda>t p. ai_peq_cb t p tr rnd) s"

fun bi_step :: "init_event \<Rightarrow> at_initiator \<Rightarrow> at_initiator option" where
  "bi_step (Thread now new r write rnd ans) s = bi_thread_process now new r write rnd ans s"
| "bi_step (Bw now t tr phase delay rnd) s = map_option (\<lambda>r. snd (snd (snd r))) (bi_nb_transport_bw now t tr phase delay rnd s)"
| "bi_step (Init_Due j tr rnd) s = init_due j (\<lambda>t p. bi_peq_cb t p tr rnd) s"

end
