(* ===== verification/At_Target_Rules.thy ===== *)
theory At_Target_Rules
  imports At_Targets
begin

text \<open>
  The targets serve every initiator that keeps the exclusion rules of the base protocol: they never stop with a fatal
  report, keep at most two transactions in flight (types A and B) and never start a response while one is in progress.
\<close>

section \<open>The contract of a component under a protocol\<close>

fun allowed_run :: "('e \<Rightarrow> 's \<Rightarrow> 's option) \<Rightarrow> ('e \<Rightarrow> 's \<Rightarrow> bool) \<Rightarrow> 'e list \<Rightarrow> 's \<Rightarrow> bool" where
  "allowed_run step allowed [] s \<longleftrightarrow> True"
| "allowed_run step allowed (e # es) s \<longleftrightarrow>
     allowed e s \<and> (case step e s of None \<Rightarrow> True | Some s' \<Rightarrow> allowed_run step allowed es s')"

locale protocol_component =
  fixes step :: "'e \<Rightarrow> 's \<Rightarrow> 's option"
    and allowed :: "'e \<Rightarrow> 's \<Rightarrow> bool"
    and inv :: "'s \<Rightarrow> bool"
    and start :: 's
  assumes start_inv: "inv start"
    and step_inv: "inv s \<Longrightarrow> allowed e s \<Longrightarrow> \<exists>s'. step e s = Some s' \<and> inv s'"
begin

lemma run_inv: "inv s \<Longrightarrow> allowed_run step allowed es s \<Longrightarrow> \<exists>s'. target_run step es s = Some s' \<and> inv s'"
proof (induction es arbitrary: s)
  case (Cons e es)
  obtain s1 where s1: "step e s = Some s1" "inv s1" using step_inv Cons.prems by fastforce
  with Cons show ?case by simp
qed simp

lemma never_stops: "allowed_run step allowed es start \<Longrightarrow> \<exists>s. target_run step es start = Some s \<and> inv s"
  using run_inv start_inv by blast

end

section \<open>Entries of an event queue\<close>

definition entries :: "peq_phase \<Rightarrow> 'a c_target_scheme \<Rightarrow> nat" where
  "entries p s = length (filter (\<lambda>e. snd (snd e) = p) (peq s))"

lemma entries_frame [simp]:
  "entries p (peq_notify time t q s) = entries p s + (if q = p then 1 else 0)"
  "entries p (s\<lparr>tx_attrs := x\<rparr>) = entries p s" "entries p (s\<lparr>refs := r\<rparr>) = entries p s"
  "entries p (s\<lparr>bw_calls := c\<rparr>) = entries p s" "entries p (s\<lparr>response_in_progress := b\<rparr>) = entries p s"
  "entries p (s\<lparr>next_response_pending := u\<rparr>) = entries p s"
  by (simp_all add: entries_def peq_notify_def)

lemma entries_ab [simp]:
  "entries p (s\<lparr>n_trans := n\<rparr>) = entries p s" "entries p (s\<lparr>end_req_pending := v\<rparr>) = entries p s"
  by (simp_all add: entries_def)

lemmas target_ops = set_payload_def acquire_def release_def call_bw_def

lemma peq_notify_frame [simp]:
  "response_in_progress (peq_notify time t q s) = response_in_progress s"
  "next_response_pending (peq_notify time t q s) = next_response_pending s" "tx_attrs (peq_notify time t q s) = tx_attrs s"
  "refs (peq_notify time t q s) = refs s" "bw_calls (peq_notify time t q s) = bw_calls s"
  by (simp_all add: peq_notify_def)

lemma peq_notify_ab [simp]:
  "n_trans (peq_notify time t q s) = n_trans s" "end_req_pending (peq_notify time t q s) = end_req_pending s"
  by (simp_all add: peq_notify_def)

lemma entries_taken:
  assumes "j < length (peq s)" and "peq s ! j = (now, t, q)"
  shows "entries p s = entries p (s\<lparr>peq := take j (peq s) @ drop (Suc j) (peq s)\<rparr>) + (if q = p then 1 else 0)"
proof -
  have "peq s = take j (peq s) @ (now, t, q) # drop (Suc j) (peq s)" using assms by (metis id_take_nth_drop)
  then have "length (filter (\<lambda>e. snd (snd e) = p) (peq s)) =
      length (filter (\<lambda>e. snd (snd e) = p) (take j (peq s) @ (now, t, q) # drop (Suc j) (peq s)))" by simp
  then show ?thesis by (simp add: entries_def)
qed

lemma execute_length: "4 \<le> length (data tr) \<Longrightarrow> \<exists>tr'. execute_tx tr = Some tr' \<and> 4 \<le> length (data tr')"
  by (simp add: execute_tx_def)

section \<open>Types A and B\<close>

text \<open>The two types differ only in how they return \<^verbatim>\<open>END_REQ\<close>: the assertion of type B always holds.\<close>

lemma b_send_end_req_a: "b_send_end_req = a_send_end_req"
  by (intro ext) (simp add: b_send_end_req_def a_send_end_req_def)

lemma b_unblock_a: "b_unblock = a_unblock"
  unfolding b_unblock_def a_unblock_def fun_eq_iff b_send_end_req_a by simp

lemma b_send_response_a: "b_send_response now t ans inp s = Some (a_send_response now t ans inp s)"
  by (simp add: b_send_response_def a_send_response_def b_unblock_a call_bw_def Let_def split: prod.split)

lemma b_peq_cb_a: "b_peq_cb now t p ans inp s = a_peq_cb now t p ans inp s"
  by (cases "next_response_pending s")
    (simp_all add: b_peq_cb_def a_peq_cb_def b_send_response_a b_unblock_a b_send_end_req_a Let_def release_def cong: if_cong
      split: peq_phase.split tlm_phase.split)

definition ab_inv :: "ab_target \<Rightarrow> bool" where
  "ab_inv s \<longleftrightarrow>
     n_trans s = int (entries Internal_Ph s) + (if next_response_pending s \<noteq> None then 1 else 0) +
       (if response_in_progress s then 1 else 0) \<and> n_trans s \<le> 2 \<and>
     (next_response_pending s \<noteq> None \<longrightarrow> response_in_progress s) \<and>
     entries (Tlm BEGIN_REQ) s + (if end_req_pending s \<noteq> None then 1 else 0) \<le> 1 \<and>
     (end_req_pending s \<noteq> None \<longrightarrow> n_trans s = 2) \<and>
     entries (Tlm END_RESP) s \<le> (if response_in_progress s then 1 else 0) \<and>
     entries (Tlm END_REQ) s = 0 \<and> entries (Tlm BEGIN_RESP) s = 0 \<and>
     (\<forall>t. 4 \<le> length (data (tx_attrs s t)))"

text \<open>An initiator that keeps the rules: a request only when no other is outstanding, an end of the response only for a
  response in progress and once, and no phase but \<^verbatim>\<open>END_RESP\<close> returned for \<^verbatim>\<open>BEGIN_RESP\<close>.\<close>

definition proper_answer :: "bw_answer \<Rightarrow> bool" where
  "proper_answer ans \<longleftrightarrow> (case ans of (status, phase, _) \<Rightarrow> status = TLM_UPDATED \<longrightarrow> phase = END_RESP)"

fun ab_allowed :: "target_event \<Rightarrow> ab_target \<Rightarrow> bool" where
  "ab_allowed (Fw now t tr phase delay r1 r2) s \<longleftrightarrow> 4 \<le> length (data tr) \<and>
     (phase = BEGIN_REQ \<and> entries (Tlm BEGIN_REQ) s = 0 \<and> end_req_pending s = None \<or>
      phase = END_RESP \<and> response_in_progress s \<and> entries (Tlm END_RESP) s = 0)"
| "ab_allowed (Due j ans inp) s \<longleftrightarrow> proper_answer ans"
| "ab_allowed (Send_Rsp now ans) s \<longleftrightarrow> True"

lemma a_fw_inv:
  assumes "ab_inv s" and "ab_allowed (Fw now t tr phase delay r1 r2) s"
  shows "ab_inv (snd (snd (snd (a_nb_transport_fw now t tr phase delay s))))"
  using assms by (auto simp: a_nb_transport_fw_def ab_inv_def set_payload_def split: option.splits)

lemma b_fw_inv:
  assumes "ab_inv s" and "ab_allowed (Fw now t tr phase delay r1 r2) s"
  shows "ab_inv (snd (snd (snd (b_nb_transport_fw now t tr phase delay r1 r2 s))))"
  using assms by (auto simp: b_nb_transport_fw_def ab_inv_def set_payload_def acquire_def Let_def split: option.splits)

lemma unblock_facts:
  "n_trans (a_unblock now inp s) = n_trans s + (if end_req_pending s \<noteq> None then 1 else 0)"
  "entries p (a_unblock now inp s) = entries p s + (if p = Internal_Ph \<and> end_req_pending s \<noteq> None then 1 else 0)"
  "end_req_pending (a_unblock now inp s) = None" "response_in_progress (a_unblock now inp s) = response_in_progress s"
  "next_response_pending (a_unblock now inp s) = next_response_pending s" "tx_attrs (a_unblock now inp s) = tx_attrs s"
  by (auto simp: a_unblock_def a_send_end_req_def call_bw_def Let_def split: option.split prod.split)

text \<open>The state in the middle of the callback: a deferred \<^verbatim>\<open>END_REQ\<close> may have room by now.\<close>

definition settling :: "ab_target \<Rightarrow> bool" where
  "settling s \<longleftrightarrow>
     n_trans s = int (entries Internal_Ph s) + (if next_response_pending s \<noteq> None then 1 else 0) +
       (if response_in_progress s then 1 else 0) \<and>
     n_trans s + (if end_req_pending s \<noteq> None then 1 else 0) \<le> 2 \<and>
     (next_response_pending s \<noteq> None \<longrightarrow> response_in_progress s) \<and>
     entries (Tlm BEGIN_REQ) s + (if end_req_pending s \<noteq> None then 1 else 0) \<le> 1 \<and>
     entries (Tlm END_RESP) s \<le> (if response_in_progress s then 1 else 0) \<and>
     entries (Tlm END_REQ) s = 0 \<and> entries (Tlm BEGIN_RESP) s = 0 \<and>
     (\<forall>t. 4 \<le> length (data (tx_attrs s t)))"

lemma unblock_settles: "settling s \<Longrightarrow> ab_inv (a_unblock now inp s)"
  by (auto simp: settling_def ab_inv_def unblock_facts)

lemma settling_unblocked: "ab_inv s \<Longrightarrow> end_req_pending s = None \<Longrightarrow> settling s"
  by (simp add: settling_def ab_inv_def)

text \<open>A response sent in a state that is sound, or still settling, once the response counts as in progress.\<close>

lemma send_response_inv:
  assumes inv: "ab_inv (s\<lparr>response_in_progress := True\<rparr>)" and free: "next_response_pending s = None"
    and quiet: "entries (Tlm END_RESP) s = 0" and proper: "proper_answer ans"
  shows "ab_inv (a_send_response now t ans inp s)"
proof -
  obtain st p dl where ans: "ans = (st, p, dl)" by (cases ans)
  show ?thesis
  proof (cases st)
    case TLM_UPDATED
    with assms ans show ?thesis
      by (auto simp: a_send_response_def ab_inv_def call_bw_def proper_answer_def Let_def)
  next
    case TLM_COMPLETED
    show ?thesis
      using assms ans TLM_COMPLETED unfolding a_send_response_def Let_def ans prod.case
      by (simp, intro unblock_settles) (auto simp: ab_inv_def settling_def call_bw_def release_def)
  next
    case TLM_ACCEPTED
    with assms ans show ?thesis by (auto simp: a_send_response_def ab_inv_def call_bw_def Let_def)
  qed
qed

lemma send_response_settling:
  assumes inv: "settling (s\<lparr>response_in_progress := True\<rparr>)" and free: "next_response_pending s = None"
    and quiet: "entries (Tlm END_RESP) s = 0" and proper: "proper_answer ans"
  shows "settling (a_send_response now t ans inp s)"
proof -
  obtain st p dl where ans: "ans = (st, p, dl)" by (cases ans)
  show ?thesis
  proof (cases st)
    case TLM_UPDATED
    with assms ans show ?thesis
      by (auto simp: a_send_response_def settling_def call_bw_def proper_answer_def Let_def)
  next
    case TLM_COMPLETED
    show ?thesis
      using assms ans TLM_COMPLETED unfolding a_send_response_def Let_def ans prod.case
      by (simp, intro settling_unblocked[OF unblock_settles])
        (auto simp: settling_def call_bw_def release_def unblock_facts)
  next
    case TLM_ACCEPTED
    with assms ans show ?thesis by (auto simp: a_send_response_def settling_def call_bw_def Let_def)
  qed
qed

lemma send_response_pending:
  "(a_send_response now t ans inp s)\<lparr>next_response_pending := u\<rparr> = a_send_response now t ans inp (s\<lparr>next_response_pending := u\<rparr>)"
  by (simp add: a_send_response_def a_unblock_def a_send_end_req_def call_bw_def release_def peq_notify_def Let_def
      split: prod.split option.split)

text \<open>The callback, on a state from whose queue the entry has been taken.\<close>

definition put_back :: "peq_phase \<Rightarrow> ab_target \<Rightarrow> ab_target \<Rightarrow> bool" where
  "put_back q s s0 \<longleftrightarrow> (\<forall>p. entries p s = entries p s0 + (if q = p then 1 else 0)) \<and> n_trans s = n_trans s0 \<and>
     next_response_pending s = next_response_pending s0 \<and> response_in_progress s = response_in_progress s0 \<and>
     end_req_pending s = end_req_pending s0 \<and> tx_attrs s = tx_attrs s0"

lemma a_peq_cb_inv:
  assumes "ab_inv s" and "put_back q s s0" and "proper_answer ans"
  shows "\<exists>s'. a_peq_cb now t q ans inp s0 = Some s' \<and> ab_inv s'"
proof (cases q)
  case Internal_Ph
  obtain tr where tr: "execute_tx (tx_attrs s0 t) = Some tr" "4 \<le> length (data tr)"
    using assms(1,2) execute_length[of "tx_attrs s0 t"] unfolding ab_inv_def put_back_def by simp blast
  show ?thesis
  proof (cases "response_in_progress s0")
    case True
    have "next_response_pending s0 = None"
      using assms(1,2) True Internal_Ph by (auto simp: ab_inv_def put_back_def split: if_splits)
    then show ?thesis
      using assms(1,2) True Internal_Ph tr by (auto simp: a_peq_cb_def ab_inv_def put_back_def set_payload_def)
  next
    case False
    then have "ab_inv (a_send_response now t ans inp (set_payload t tr s0))"
      using assms Internal_Ph tr
      by (intro send_response_inv) (auto simp: ab_inv_def put_back_def set_payload_def)
    then show ?thesis using False Internal_Ph tr by (simp add: a_peq_cb_def set_payload_def)
  qed
next
  case (Tlm r)
  show ?thesis
  proof (cases r)
    case BEGIN_REQ
    then show ?thesis
      using assms(1,2) Tlm
      by (auto simp: a_peq_cb_def ab_inv_def put_back_def acquire_def a_send_end_req_def call_bw_def Let_def split: prod.split)
  next
    case END_RESP
    let ?s = "(release t s0)\<lparr>n_trans := n_trans (release t s0) - 1, response_in_progress := False\<rparr>"
    have rip: "response_in_progress s0" using assms(1,2) Tlm END_RESP by (auto simp: ab_inv_def put_back_def split: if_splits)
    have "settling (case next_response_pending ?s of None \<Rightarrow> ?s
        | Some u \<Rightarrow> (a_send_response now u ans inp ?s)\<lparr>next_response_pending := None\<rparr>)"
    proof (cases "next_response_pending s0")
      case None
      then show ?thesis using assms(1,2) Tlm END_RESP rip by (auto simp: ab_inv_def settling_def put_back_def release_def)
    next
      case (Some u)
      have "settling (a_send_response now u ans inp (?s\<lparr>next_response_pending := None\<rparr>))"
        using assms Tlm END_RESP rip Some
        by (intro send_response_settling) (auto simp: ab_inv_def settling_def put_back_def release_def)
      then show ?thesis using Some by (simp add: send_response_pending release_def)
    qed
    then show ?thesis using rip Tlm END_RESP unblock_settles by (simp add: a_peq_cb_def Let_def)
  qed (use assms(1,2) Tlm in \<open>auto simp: ab_inv_def put_back_def\<close>)
qed

lemma take_due_inv:
  assumes "ab_inv s"
    and "\<And>now t q s0. put_back q s s0 \<Longrightarrow> \<exists>s'. cb now t q s0 = Some s' \<and> ab_inv s'"
  shows "\<exists>s'. take_due j cb s = Some s' \<and> ab_inv s'"
proof (cases "is_due j (peq s)")
  case True
  obtain now t q where e: "peq s ! j = (now, t, q)" by (cases "peq s ! j")
  have "put_back q s (s\<lparr>peq := take j (peq s) @ drop (Suc j) (peq s)\<rparr>)"
    using entries_taken[of j s now t q] True e by (simp add: put_back_def is_due_def)
  then show ?thesis using assms(2) True e by (simp add: take_due_def)
qed (use assms(1) in \<open>auto simp: take_due_def\<close>)

interpretation type_a: protocol_component a_step ab_allowed ab_inv new_ab_target
proof unfold_locales
  show "ab_inv new_ab_target" by (simp add: ab_inv_def new_ab_target_def entries_def blank_tx_def)
next
  fix s e
  assume inv: "ab_inv s" and ok: "ab_allowed e s"
  show "\<exists>s'. a_step e s = Some s' \<and> ab_inv s'"
  proof (cases e)
    case (Fw now t tr phase delay r1 r2)
    then show ?thesis using a_fw_inv[OF inv ok[unfolded Fw]] by simp
  next
    case (Due j ans inp)
    then show ?thesis using take_due_inv[OF inv] a_peq_cb_inv[OF inv] ok by simp
  qed (use inv in simp)
qed

interpretation type_b: protocol_component b_step ab_allowed ab_inv new_ab_target
proof unfold_locales
  show "ab_inv new_ab_target" by (simp add: ab_inv_def new_ab_target_def entries_def blank_tx_def)
next
  fix s e
  assume inv: "ab_inv s" and ok: "ab_allowed e s"
  show "\<exists>s'. b_step e s = Some s' \<and> ab_inv s'"
  proof (cases e)
    case (Fw now t tr phase delay r1 r2)
    then show ?thesis using b_fw_inv[OF inv ok[unfolded Fw]] by simp
  next
    case (Due j ans inp)
    then show ?thesis using take_due_inv[OF inv] a_peq_cb_inv[OF inv] ok by (simp add: b_peq_cb_a)
  qed (use inv in simp)
qed

section \<open>Type C\<close>

definition c_inv :: "c_target \<Rightarrow> bool" where
  "c_inv s \<longleftrightarrow>
     entries (Tlm BEGIN_REQ) s + entries Internal_Ph s + (if next_response_pending s \<noteq> None then 1 else 0) \<le> 1 \<and>
     (next_response_pending s \<noteq> None \<longrightarrow> response_in_progress s) \<and>
     entries (Tlm END_RESP) s \<le> (if response_in_progress s then 1 else 0) \<and>
     entries (Tlm END_REQ) s = 0 \<and> entries (Tlm BEGIN_RESP) s = 0 \<and>
     (\<forall>t. 4 \<le> length (data (tx_attrs s t)))"

text \<open>Type C never sends \<^verbatim>\<open>END_REQ\<close>, so a request is outstanding until its response begins.\<close>

fun c_allowed :: "target_event \<Rightarrow> c_target \<Rightarrow> bool" where
  "c_allowed (Fw now t tr phase delay r1 r2) s \<longleftrightarrow> 4 \<le> length (data tr) \<and>
     (phase = BEGIN_REQ \<and> entries (Tlm BEGIN_REQ) s = 0 \<and> entries Internal_Ph s = 0 \<and> next_response_pending s = None \<or>
      phase = END_RESP \<and> response_in_progress s \<and> entries (Tlm END_RESP) s = 0)"
| "c_allowed (Due j ans inp) s \<longleftrightarrow> proper_answer ans"
| "c_allowed (Send_Rsp now ans) s \<longleftrightarrow> True"

lemma c_fw_inv:
  assumes "c_inv s" and "c_allowed (Fw now t tr phase delay r1 r2) s"
  shows "c_inv (snd (snd (snd (c_nb_transport_fw now t tr phase delay s))))"
  using assms by (auto simp: c_nb_transport_fw_def c_inv_def set_payload_def split: option.splits)

lemma c_send_response_inv:
  assumes "c_inv (s\<lparr>response_in_progress := True\<rparr>)" and "next_response_pending s = None"
    and "entries (Tlm END_RESP) s = 0" and "proper_answer ans"
  shows "c_inv (c_send_response now t ans s)"
proof -
  obtain st p dl where ans: "ans = (st, p, dl)" by (cases ans)
  with assms show ?thesis
    by (cases st) (auto simp: c_send_response_def c_inv_def call_bw_def release_def proper_answer_def Let_def)
qed

definition c_put_back :: "peq_phase \<Rightarrow> c_target \<Rightarrow> c_target \<Rightarrow> bool" where
  "c_put_back q s s0 \<longleftrightarrow> (\<forall>p. entries p s = entries p s0 + (if q = p then 1 else 0)) \<and>
     next_response_pending s = next_response_pending s0 \<and> response_in_progress s = response_in_progress s0 \<and> tx_attrs s = tx_attrs s0"

lemma c_send_response_pending:
  "(c_send_response now t ans s)\<lparr>next_response_pending := u\<rparr> = c_send_response now t ans (s\<lparr>next_response_pending := u\<rparr>)"
  by (simp add: c_send_response_def call_bw_def release_def peq_notify_def Let_def split: prod.split)

lemma c_peq_cb_inv:
  assumes "c_inv s" and "c_put_back q s s0" and "proper_answer ans"
  shows "\<exists>s'. c_peq_cb now t q latency ans s0 = Some s' \<and> c_inv s'"
proof (cases q)
  case Internal_Ph
  obtain tr where tr: "execute_tx (tx_attrs s0 t) = Some tr" "4 \<le> length (data tr)"
    using assms(1,2) execute_length[of "tx_attrs s0 t"] unfolding c_inv_def c_put_back_def by simp blast
  have free: "next_response_pending s0 = None"
    using assms(1,2) Internal_Ph by (auto simp: c_inv_def c_put_back_def split: if_splits)
  show ?thesis
  proof (cases "response_in_progress s0")
    case True
    then show ?thesis
      using assms(1,2) free Internal_Ph tr by (auto simp: c_peq_cb_def c_inv_def c_put_back_def set_payload_def)
  next
    case False
    then have "c_inv (c_send_response now t ans (set_payload t tr s0))"
      using assms free Internal_Ph tr
      by (intro c_send_response_inv) (auto simp: c_inv_def c_put_back_def set_payload_def)
    then show ?thesis using False Internal_Ph tr by (simp add: c_peq_cb_def set_payload_def)
  qed
next
  case (Tlm r)
  show ?thesis
  proof (cases r)
    case BEGIN_REQ
    then show ?thesis using assms(1,2) Tlm by (auto simp: c_peq_cb_def c_inv_def c_put_back_def acquire_def)
  next
    case END_RESP
    let ?s = "(release t s0)\<lparr>response_in_progress := False\<rparr>"
    have rip: "response_in_progress s0" using assms(1,2) Tlm END_RESP by (auto simp: c_inv_def c_put_back_def split: if_splits)
    have "c_inv (case next_response_pending ?s of None \<Rightarrow> ?s
        | Some u \<Rightarrow> (c_send_response now u ans ?s)\<lparr>next_response_pending := None\<rparr>)"
    proof (cases "next_response_pending s0")
      case None
      then show ?thesis using assms(1,2) Tlm END_RESP rip by (auto simp: c_inv_def c_put_back_def release_def)
    next
      case (Some u)
      have "c_inv (c_send_response now u ans (?s\<lparr>next_response_pending := None\<rparr>))"
        using assms Tlm END_RESP rip Some
        by (intro c_send_response_inv) (auto simp: c_inv_def c_put_back_def release_def)
      then show ?thesis using Some by (simp add: c_send_response_pending release_def)
    qed
    then show ?thesis using rip Tlm END_RESP by (simp add: c_peq_cb_def Let_def)
  qed (use assms(1,2) Tlm in \<open>auto simp: c_inv_def c_put_back_def\<close>)
qed

interpretation type_c: protocol_component c_step c_allowed c_inv new_c_target
proof unfold_locales
  show "c_inv new_c_target" by (simp add: c_inv_def new_c_target_def entries_def blank_tx_def)
next
  fix s e
  assume inv: "c_inv s" and ok: "c_allowed e s"
  show "\<exists>s'. c_step e s = Some s' \<and> c_inv s'"
  proof (cases e)
    case (Fw now t tr phase delay r1 r2)
    then show ?thesis using c_fw_inv[OF inv ok[unfolded Fw]] by simp
  next
    case (Due j ans inp)
    show ?thesis
    proof (cases "is_due j (peq s)")
      case True
      obtain now t q where e: "peq s ! j = (now, t, q)" by (cases "peq s ! j")
      have "c_put_back q s (s\<lparr>peq := take j (peq s) @ drop (Suc j) (peq s)\<rparr>)"
        using entries_taken[of j s now t q] True e by (simp add: c_put_back_def is_due_def)
      then show ?thesis using c_peq_cb_inv[OF inv] ok True e Due by (simp add: take_due_def)
    qed (use inv Due in \<open>auto simp: take_due_def\<close>)
  qed (use inv in simp)
qed

section \<open>Type D\<close>

definition d_inv :: "d_target \<Rightarrow> bool" where
  "d_inv s \<longleftrightarrow> (next_response_pending s \<noteq> None \<longrightarrow> send_rsp_event s \<or> response_in_progress s) \<and>
     (send_rsp_event s \<longrightarrow> next_response_pending s \<noteq> None \<and> \<not> response_in_progress s)"

text \<open>A pending response is a request that is still outstanding.\<close>

fun d_allowed :: "target_event \<Rightarrow> d_target \<Rightarrow> bool" where
  "d_allowed (Fw now t tr phase delay r1 r2) s \<longleftrightarrow> 4 \<le> length (data tr) \<and>
     (phase = BEGIN_REQ \<and> next_response_pending s = None \<or> phase = END_RESP \<and> response_in_progress s)"
| "d_allowed _ s \<longleftrightarrow> True"

interpretation type_d: protocol_component d_step d_allowed d_inv new_d_target
proof unfold_locales
  show "d_inv new_d_target" by (simp add: d_inv_def new_d_target_def)
next
  fix s e
  assume inv: "d_inv s" and ok: "d_allowed e s"
  show "\<exists>s'. d_step e s = Some s' \<and> d_inv s'"
  proof (cases e)
    case (Fw now t tr phase delay r1 r2)
    obtain tr' where "execute_tx tr = Some tr'" using ok Fw execute_length by fastforce
    then show ?thesis using inv ok Fw
      by (auto simp: d_nb_transport_fw_def d_inv_def target_ops Let_def split: option.split)
  next
    case (Send_Rsp now ans)
    then show ?thesis using inv
      by (auto simp: d_send_rsp_process_def d_inv_def target_ops Let_def split: option.split prod.split)
  qed (use inv in simp)
qed

section \<open>Properties\<close>

text \<open>C12: No target of the types A to D ever stops with a fatal report, a failed assertion or an overrun buffer, as long
  as the initiator sends a request only when the previous one has ended, ends only a response that is in progress, once,
  returns no phase but \<^verbatim>\<open>END_RESP\<close> for a response, and provides buffers of at least four bytes.\<close>

theorem targets_never_stop:
  assumes "allowed_run a_step ab_allowed as new_ab_target" and "allowed_run b_step ab_allowed bs new_ab_target"
    and "allowed_run c_step c_allowed cs new_c_target" and "allowed_run d_step d_allowed ds new_d_target"
  shows "target_run a_step as new_ab_target \<noteq> None \<and> target_run b_step bs new_ab_target \<noteq> None \<and>
    target_run c_step cs new_c_target \<noteq> None \<and> target_run d_step ds new_d_target \<noteq> None"
  using type_a.never_stops[OF assms(1)] type_b.never_stops[OF assms(2)] type_c.never_stops[OF assms(3)]
    type_d.never_stops[OF assms(4)] by auto

text \<open>Two requests that overlap: the second is served while the response of the first is in progress.\<close>

definition two_requests :: "target_event list" where
  "two_requests =
     [Fw 0 1 blank_tx BEGIN_REQ 5 3 4, Due 0 (TLM_ACCEPTED, BEGIN_RESP, 0) (3, 3, 4),
      Due 0 (TLM_ACCEPTED, BEGIN_RESP, 0) (0, 0, 0), Fw 20 2 blank_tx BEGIN_REQ 5 3 4,
      Due 0 (TLM_ACCEPTED, BEGIN_RESP, 0) (3, 3, 4), Due 0 (TLM_ACCEPTED, BEGIN_RESP, 0) (0, 0, 0),
      Fw 40 1 blank_tx END_RESP 0 0 0, Due 0 (TLM_COMPLETED, BEGIN_RESP, 0) (0, 0, 0)]"

definition two_requests_d :: "target_event list" where
  "two_requests_d =
     [Fw 0 1 blank_tx BEGIN_REQ 5 3 4, Fw 10 2 blank_tx BEGIN_REQ 5 3 4, Fw 20 1 blank_tx END_RESP 0 0 0,
      Send_Rsp 20 (TLM_COMPLETED, BEGIN_RESP, 0)]"

lemma two_requests_allowed:
  "allowed_run a_step ab_allowed two_requests new_ab_target" "allowed_run b_step ab_allowed two_requests new_ab_target"
  "allowed_run c_step c_allowed two_requests new_c_target" "allowed_run d_step d_allowed two_requests_d new_d_target"
  by code_simp+

lemma targets_never_stop_witness:
  "target_run a_step two_requests new_ab_target \<noteq> None \<and> target_run d_step two_requests_d new_d_target \<noteq> None"
  using targets_never_stop[OF two_requests_allowed] by blast

text \<open>C14: Targets of the types A and B keep at most two transactions in flight: the counter is the number of accepted
  transactions whose response is still to come, waits or is in progress, it never exceeds two, a waiting response
  waits for one in progress, and \<^verbatim>\<open>END_REQ\<close> is only deferred when two are in flight.\<close>

theorem two_in_flight:
  assumes "allowed_run a_step ab_allowed as new_ab_target \<and> target_run a_step as new_ab_target = Some s \<or>
    allowed_run b_step ab_allowed as new_ab_target \<and> target_run b_step as new_ab_target = Some s"
  shows "n_trans s = int (entries Internal_Ph s) + (if next_response_pending s \<noteq> None then 1 else 0) +
      (if response_in_progress s then 1 else 0) \<and> n_trans s \<le> 2 \<and>
    (next_response_pending s \<noteq> None \<longrightarrow> response_in_progress s) \<and> (end_req_pending s \<noteq> None \<longrightarrow> n_trans s = 2)"
proof -
  have "ab_inv s" using assms type_a.never_stops[of as] type_b.never_stops[of as] by auto
  then show ?thesis unfolding ab_inv_def by blast
qed

lemma two_in_flight_witness:
  "\<exists>s :: ab_target. target_run b_step (take 6 two_requests) new_ab_target = Some s \<and> n_trans s \<le> 2 \<and> next_response_pending s = Some 2"
proof -
  have ok: "allowed_run b_step ab_allowed (take 6 two_requests) new_ab_target"
    and "(case target_run b_step (take 6 two_requests) new_ab_target of None \<Rightarrow> False
      | Some s \<Rightarrow> next_response_pending s = Some 2)" by code_simp+
  then obtain s where s: "target_run b_step (take 6 two_requests) new_ab_target = Some s" "next_response_pending s = Some 2"
    by (auto split: option.splits)
  with two_in_flight[OF disjI2[OF conjI[OF ok s(1)]]] show ?thesis by blast
qed



end
