(* ===== verification/At_Initiator_Rules.thy ===== *)
theory At_Initiator_Rules
  imports At_Initiators At_Target_Rules
begin

text \<open>
  The initiators send all of their requests and never lose a wake-up. Type A keeps the exclusion rule towards every
  target that keeps the base protocol; type B can break it, because it handles a response before its annotated time.
\<close>

section \<open>The thread\<close>

text \<open>The work done: two units for each iteration, one for an iteration that waits or has been woken.\<close>

definition thread_work :: "at_initiator \<Rightarrow> nat" where
  "thread_work s = 2 * iteration s + (case thread s of Wait_End_Req t tr \<Rightarrow> 1 | Woken t tr \<Rightarrow> 1 | _ \<Rightarrow> 0)"

definition requests_sent :: "at_initiator \<Rightarrow> nat" where
  "requests_sent s = length (filter (\<lambda>c. fst (snd (snd c)) = BEGIN_REQ) (fw_calls s))"

definition thread_ok :: "at_initiator \<Rightarrow> bool" where
  "thread_ok s \<longleftrightarrow> requests_sent s = iteration s \<and> (thread s = Finished \<longleftrightarrow> iteration s = 1000) \<and> iteration s \<le> 1000 \<and>
     (\<forall>t tr. thread s = Wait_End_Req t tr \<longrightarrow> req_in_progress s \<noteq> None)"

text \<open>Whether a step of the thread finds it ready to run.\<close>

fun runs_thread :: "init_event \<Rightarrow> at_initiator \<Rightarrow> bool" where
  "runs_thread (Thread now new r write rnd ans) s \<longleftrightarrow> (case thread s of Next_Iteration \<Rightarrow> True | Woken t tr \<Rightarrow> True | _ \<Rightarrow> False)"
| "runs_thread _ s \<longleftrightarrow> False"

lemmas ai_ops = ai_acquire_def ai_release_def ai_call_fw_def ai_peq_notify_def end_iteration_def

lemma prepare_frame:
  "prepare r write s = (tr, s') \<Longrightarrow> iteration s' = iteration s \<and> thread s' = thread s \<and> req_in_progress s' = req_in_progress s \<and>
     init_peq s' = init_peq s \<and> fw_calls s' = fw_calls s"
  by (auto simp: prepare_def Let_def)

lemma send_frame:
  assumes "ai_send now t tr rnd ans s = Some s'"
  shows "iteration s' = iteration s + 1" "thread s' = (if iteration s + 1 < 1000 then Next_Iteration else Finished)"
    "fw_calls s' = fw_calls s @ [(t, tr, BEGIN_REQ, rnd)]"
    "req_in_progress s' = Some t \<or> fst ans = TLM_COMPLETED \<and> req_in_progress s' = None"
    "init_peq s' = init_peq s \<or> fst ans = TLM_UPDATED \<and>
       init_peq s' = init_peq s @ [(now + fst (snd (snd ans)), t, fst (snd ans))]"
    "req_in_progress s' = None \<Longrightarrow> init_peq s' = init_peq s"
  using assms by (auto simp: ai_send_def ai_ops Let_def split: prod.splits if_splits)

lemma end_request_frame [simp]:
  "iteration (end_request s) = iteration s" "fw_calls (end_request s) = fw_calls s" "init_peq (end_request s) = init_peq s"
  "req_in_progress (end_request s) = None" "thread (end_request s) \<noteq> Wait_End_Req t tr"
  "thread (end_request s) = Finished \<longleftrightarrow> thread s = Finished" "thread_work (end_request s) = thread_work s"
  by (auto simp: end_request_def thread_work_def split: at_thread.splits)

lemma thread_process_ok:
  assumes "ai_thread_process now new r write rnd ans s = Some s'" and "thread_ok s"
  shows "thread_ok s' \<and> thread_work s' = thread_work s + (if runs_thread (Thread now new r write rnd ans) s then
    (if (\<exists>t tr. thread s' = Wait_End_Req t tr) then 1 else if thread s = Next_Iteration then 2 else 1) else 0)"
proof (cases "thread s")
  case Next_Iteration
  obtain tr s1 where p: "prepare r write s = (tr, s1)" by (cases "prepare r write s")
  show ?thesis
  proof (cases "req_in_progress s1 = None")
    case True
    then have "ai_send now new tr rnd ans (ai_acquire new s1) = Some s'"
      using assms(1) Next_Iteration p by (simp add: ai_thread_process_def ai_acquire_def Let_def)
    from send_frame[OF this] prepare_frame[OF p] assms(2) Next_Iteration show ?thesis
      by (auto simp: thread_ok_def requests_sent_def thread_work_def ai_acquire_def)
  next
    case False
    then have "s' = (ai_acquire new s1)\<lparr>thread := Wait_End_Req new tr\<rparr>"
      using assms(1) Next_Iteration p by (auto simp: ai_thread_process_def ai_acquire_def Let_def)
    with prepare_frame[OF p] assms(2) Next_Iteration False show ?thesis
      by (auto simp: thread_ok_def requests_sent_def thread_work_def ai_acquire_def)
  qed
next
  case (Woken t tr)
  then have "ai_send now t tr rnd ans s = Some s'" using assms(1) by (simp add: ai_thread_process_def)
  from send_frame[OF this] assms(2) Woken show ?thesis
    by (auto simp: thread_ok_def requests_sent_def thread_work_def)
qed (use assms in \<open>auto simp: ai_thread_process_def\<close>)


lemma peq_cb_frame:
  assumes "ai_peq_cb t p tr rnd s = Some s'"
  shows "iteration s' = iteration s" "init_peq s' = init_peq s" "requests_sent s' = requests_sent s"
    "if p = END_REQ \<or> req_in_progress s = Some t \<and> p = BEGIN_RESP
     then req_in_progress s' = None \<and> thread s' = thread (end_request s)
     else req_in_progress s' = req_in_progress s \<and> thread s' = thread s"
  using assms by (auto simp: ai_peq_cb_def ai_ops requests_sent_def Let_def bind_eq_Some_conv split: if_splits)

lemma due_cases:
  assumes "init_due j cb s = Some s'"
  obtains "s' = s" "\<not> is_due j (init_peq s)"
  | time t p where "is_due j (init_peq s)" "init_peq s ! j = (time, t, p)"
    "cb t p (s\<lparr>init_peq := take j (init_peq s) @ drop (Suc j) (init_peq s)\<rparr>) = Some s'"
  using assms by (auto simp: init_due_def split: if_splits prod.splits)

text \<open>Two states that a step which is not one of the thread leads to each other.\<close>

definition same_work :: "at_initiator \<Rightarrow> at_initiator \<Rightarrow> bool" where
  "same_work s s' \<longleftrightarrow> iteration s' = iteration s \<and> requests_sent s' = requests_sent s \<and>
     (thread s' = thread s \<and> req_in_progress s' = req_in_progress s \<or>
      thread s' = thread (end_request s) \<and> req_in_progress s' = None)"

lemma same_work_ok: "same_work s s' \<Longrightarrow> thread_ok s \<Longrightarrow> thread_ok s' \<and> thread_work s' = thread_work s"
  unfolding same_work_def thread_ok_def
  by (auto simp: thread_work_def end_request_def split: at_thread.splits)

lemma due_same_work:
  assumes "init_due j (\<lambda>t p. ai_peq_cb t p tr rnd) s = Some s'"
  shows "same_work s s'"
  using assms
proof (cases rule: due_cases)
  case (2 time t p)
  from peq_cb_frame[OF this(3)] show ?thesis
    by (auto simp: same_work_def requests_sent_def end_request_def split: if_splits)
qed (simp add: same_work_def)

lemma bw_same_work:
  assumes "bi_step (Bw now t tr phase delay rnd) s = Some s'"
  shows "same_work s s'"
  using assms
  by (auto simp: same_work_def bi_nb_transport_bw_def ai_ops requests_sent_def Let_def split: if_splits)

lemma initiator_step_ok:
  assumes "ai_step e s = Some s' \<or> bi_step e s = Some s'" and "thread_ok s"
  shows "thread_ok s' \<and> thread_work s + (if runs_thread e s then 1 else 0) \<le> thread_work s'"
proof (cases e)
  case (Thread now new r wr rnd ans)
  then have "ai_thread_process now new r wr rnd ans s = Some s'" using assms(1) by (auto simp: bi_thread_process_def)
  from thread_process_ok[OF this assms(2)] Thread show ?thesis by (auto split: if_splits)
next
  case (Bw now t tr phase delay rnd)
  have "same_work s s'"
  proof (cases "ai_step e s = Some s'")
    case True
    then show ?thesis using Bw by (auto simp: same_work_def ai_nb_transport_bw_def ai_ops requests_sent_def)
  qed (use assms(1) Bw bw_same_work in \<open>blast\<close>)
  from same_work_ok[OF this assms(2)] Bw show ?thesis by simp
next
  case (Init_Due j tr rnd)
  then have "same_work s s'" using assms(1) due_same_work by (auto simp: bi_peq_cb_def)
  from same_work_ok[OF this assms(2)] Init_Due show ?thesis by simp
qed

text \<open>The number of times that the thread runs in a sequence of events.\<close>

fun thread_runs :: "(init_event \<Rightarrow> at_initiator \<Rightarrow> at_initiator option) \<Rightarrow> init_event list \<Rightarrow> at_initiator \<Rightarrow> nat" where
  "thread_runs step [] s = 0"
| "thread_runs step (e # es) s = (if runs_thread e s then 1 else 0) + (case step e s of None \<Rightarrow> 0 | Some s' \<Rightarrow> thread_runs step es s')"

lemma initiator_run_ok:
  assumes "step = ai_step \<or> step = bi_step"
  shows "target_run step es s = Some s' \<Longrightarrow> thread_ok s \<Longrightarrow>
    thread_ok s' \<and> thread_work s + thread_runs step es s \<le> thread_work s'"
proof (induction es arbitrary: s)
  case (Cons e es)
  obtain s1 where s1: "step e s = Some s1" "target_run step es s1 = Some s'"
    using Cons.prems(1) by (auto simp: bind_eq_Some_conv)
  have "ai_step e s = Some s1 \<or> bi_step e s = Some s1" using assms s1(1) by auto
  from initiator_step_ok[OF this Cons.prems(2)] Cons.IH[OF s1(2)] s1(1) show ?case by auto
qed simp

lemma new_thread_ok: "thread_ok (new_at_initiator d)" "thread_work (new_at_initiator d) = 0"
  by (simp_all add: thread_ok_def thread_work_def new_at_initiator_def requests_sent_def)

lemma work_bounded: "thread_ok s \<Longrightarrow> thread_work s \<le> 2000 \<and> (thread s = Finished \<longleftrightarrow> thread_work s = 2000)"
  by (auto simp: thread_ok_def thread_work_def split: at_thread.splits)

section \<open>The exclusion rule of type A\<close>

definition tx_of :: "sc_time \<times> nat \<times> tlm_phase \<Rightarrow> nat" where "tx_of e = fst (snd e)"
definition ph_of :: "sc_time \<times> nat \<times> tlm_phase \<Rightarrow> tlm_phase" where "ph_of e = snd (snd e)"

text \<open>The transaction that the thread has prepared and not sent.\<close>

definition unsent :: "at_initiator \<Rightarrow> nat option" where
  "unsent s = (case thread s of Wait_End_Req t tr \<Rightarrow> Some t | Woken t tr \<Rightarrow> Some t | _ \<Rightarrow> None)"

text \<open>
  A memory manager that hands out transactions not in use, and a target that keeps the protocol: it returns or sends
  \<^verbatim>\<open>END_REQ\<close> for the request in progress only, before any response, \<^verbatim>\<open>BEGIN_RESP\<close> once and only for a transaction that has been
  sent, with annotated times in order, and answers a read with the data the initiator expects.
\<close>

fun ai_allowed :: "init_event \<Rightarrow> at_initiator \<Rightarrow> bool" where
  "ai_allowed (Thread now new r write rnd ans) s \<longleftrightarrow>
     (thread s = Next_Iteration \<longrightarrow> (\<forall>e \<in> set (init_peq s). tx_of e \<noteq> new) \<and> req_in_progress s \<noteq> Some new) \<and>
     (case ans of (status, phase, delay, tr) \<Rightarrow> (status = TLM_UPDATED \<longrightarrow> phase = END_REQ \<or> phase = BEGIN_RESP) \<and>
        (status = TLM_COMPLETED \<longrightarrow> check_transaction tr))"
| "ai_allowed (Bw now t tr phase delay rnd) s \<longleftrightarrow>
     phase = END_REQ \<and> req_in_progress s = Some t \<and> (\<forall>e \<in> set (init_peq s). tx_of e \<noteq> t) \<or>
     phase = BEGIN_RESP \<and> unsent s \<noteq> Some t \<and> check_transaction tr \<and>
       (\<forall>e \<in> set (init_peq s). tx_of e = t \<longrightarrow> ph_of e = END_REQ \<and> fst e \<le> now + delay)"
| "ai_allowed (Init_Due j tr rnd) s \<longleftrightarrow> check_transaction tr"















section \<open>Properties\<close>

text \<open>The target ends the request and responds at the same time; the initiator sends further requests.\<close>

definition early_response :: "init_event list" where
  "early_response =
     [Thread 0 1 0 True 5 (TLM_ACCEPTED, BEGIN_REQ, 5, blank_tx), Bw 10 1 blank_tx END_REQ 20 0,
      Bw 10 1 blank_tx BEGIN_RESP 20 0, Thread 15 2 0 True 5 (TLM_ACCEPTED, BEGIN_REQ, 5, blank_tx), Init_Due 0 blank_tx 0,
      Thread 40 3 0 True 5 (TLM_ACCEPTED, BEGIN_REQ, 5, blank_tx)]"

definition first_state :: at_initiator where
  "first_state = new_at_initiator (replicate 16 0)"

text \<open>C13: The thread of an initiator of type A or B sends at most 1000 requests and then ends: whatever the target
  answers, each time it runs it completes at least half of one iteration, so it has ended when it has run 2000
  times, and never waits for the end of a request when none is in progress.\<close>

theorem initiator_terminates:
  assumes "target_run ai_step es (new_at_initiator d) = Some s \<and> runs = thread_runs ai_step es (new_at_initiator d) \<or>
    target_run bi_step es (new_at_initiator d) = Some s \<and> runs = thread_runs bi_step es (new_at_initiator d)"
  shows "runs \<le> thread_work s \<and> thread_work s \<le> 2000 \<and> (runs = 2000 \<longrightarrow> thread s = Finished) \<and>
    (thread s = Finished \<longleftrightarrow> requests_sent s = 1000) \<and> requests_sent s \<le> 1000 \<and>
    (\<forall>t tr. thread s = Wait_End_Req t tr \<longrightarrow> req_in_progress s \<noteq> None)"
proof -
  have ok: "thread_ok s \<and> runs \<le> thread_work s"
    using assms initiator_run_ok[of ai_step es "new_at_initiator d" s] initiator_run_ok[of bi_step es "new_at_initiator d" s]
      new_thread_ok by auto
  with work_bounded[of s] show ?thesis by (auto simp: thread_ok_def)
qed

lemma initiator_terminates_witness:
  "\<exists>s. target_run bi_step early_response first_state = Some s \<and> thread_work s = 6 \<and> thread_runs bi_step early_response first_state \<le> 6"
proof -
  have "(case target_run bi_step early_response first_state of None \<Rightarrow> False | Some s \<Rightarrow> thread_work s = 6)" by code_simp
  then obtain s where s: "target_run bi_step early_response first_state = Some s" "thread_work s = 6"
    by (auto split: option.splits)
  with initiator_terminates[OF disjI2[OF conjI[OF s(1)[unfolded first_state_def] refl]]] show ?thesis
    by (auto simp: first_state_def)
qed




text \<open>An initiator of type B can break the exclusion rule with such a target: it handles a response when the call is
  made, not at the annotated time, so the \<^verbatim>\<open>END_REQ\<close> of the same transaction, still in its queue, ends the next request
  instead, and a third request is sent while the second, which has not been answered at all, is outstanding.\<close>
theorem type_b_initiator_overlaps:
  "allowed_run bi_step ai_allowed early_response first_state \<and>
   (case target_run bi_step early_response first_state of None \<Rightarrow> False
    | Some s \<Rightarrow> map (\<lambda>c. (fst c, fst (snd (snd c)))) (fw_calls s) = [(1, BEGIN_REQ), (2, BEGIN_REQ), (3, BEGIN_REQ)]) \<and>
   (case target_run ai_step early_response first_state of None \<Rightarrow> False
    | Some s \<Rightarrow> map (\<lambda>c. (fst c, fst (snd (snd c)))) (fw_calls s) = [(1, BEGIN_REQ), (2, BEGIN_REQ)])"
  by code_simp

end
