(* ===== verification/At_System.thy ===== *)
theory At_System
  imports At_Exclusion At_Initiator_Rules "HOL-Library.Multiset"
begin

text \<open>
  Initiators of type A, the interconnect (\<^verbatim>\<open>src/locknsnoop/common/at_interconnect.h\<close>) and targets of type A, each a function of
  its own theory, joined call by call: what one answers is computed by the component behind the socket. The attributes of the
  transactions are in one store, which all of them share. The schedule of the threads, processes and callbacks, the random
  numbers, and the transactions that the memory manager hands out are inputs; nothing else is. The scheduler is free in its
  choice of times too.
\<close>

section \<open>State\<close>

record at_system =
  inits :: "nat \<Rightarrow> at_initiator"
  ic :: at_ic
  tgts :: "nat \<Rightarrow> ab_target"
  tx_store :: "nat \<Rightarrow> payload"

definition new_at_system :: "(nat \<Rightarrow> i32 list) \<Rightarrow> at_system" where
  "new_at_system ds = \<lparr>inits = (\<lambda>i. new_at_initiator (ds i)), ic = new_at_ic, tgts = (\<lambda>_. new_ab_target), tx_store = (\<lambda>_. blank_tx)\<rparr>"

section \<open>Calls between the components\<close>

text \<open>A target works on the shared attributes.\<close>

definition target_at :: "at_system \<Rightarrow> nat \<Rightarrow> ab_target" where
  "target_at s v = (tgts s v)\<lparr>tx_attrs := tx_store s\<rparr>"

definition put_target :: "nat \<Rightarrow> ab_target \<Rightarrow> at_system \<Rightarrow> at_system" where
  "put_target v tg s = s\<lparr>tgts := (tgts s)(v := tg), tx_store := tx_attrs tg\<rparr>"

definition call_target :: "sc_time \<Rightarrow> nat \<Rightarrow> nat \<Rightarrow> tlm_phase \<Rightarrow> sc_time \<Rightarrow> at_system \<Rightarrow> answer \<times> at_system" where
  "call_target now v t phase delay s =
     (case a_nb_transport_fw now t (tx_store s t) phase delay (target_at s v) of
        (status, phase, delay, tg) \<Rightarrow> ((status, phase, delay), put_target v tg s))"

text \<open>The calls an operation of the interconnect has made: those on the backward path reach the initiators.\<close>

definition new_calls :: "at_ic \<Rightarrow> at_ic \<Rightarrow> call list" where
  "new_calls c c' = drop (length (trace c)) (trace c')"

fun call_initiator :: "sc_time \<Rightarrow> call \<Rightarrow> at_system \<Rightarrow> at_system" where
  "call_initiator now (Call_Bw i t phase delay) s =
     s\<lparr>inits := (inits s)(i := snd (ai_nb_transport_bw now t phase delay (inits s i)))\<rparr>"
| "call_initiator now _ s = s"

definition put_ic :: "sc_time \<Rightarrow> at_ic \<Rightarrow> at_system \<Rightarrow> at_system" where
  "put_ic now c s = fold (call_initiator now) (new_calls (ic s) c) (s\<lparr>ic := c\<rparr>)"

text \<open>
  A call of \<^verbatim>\<open>nb_transport_fw\<close> on the interconnect; it may or may not call the target. Targets of type A accept every
  request that these initiators send, and type A initiators accept every call: \<open>None\<close> is also any other answer.
\<close>

definition call_interconnect :: "nat \<Rightarrow> sc_time \<Rightarrow> nat \<Rightarrow> nat \<Rightarrow> tlm_phase \<Rightarrow> sc_time \<Rightarrow> at_system \<Rightarrow> at_system option" where
  "call_interconnect n now i t phase delay s =
     (let adr = address (tx_store s t);
          v = (if phase = BEGIN_REQ then fst (at_decode n adr) else case routes (ic s) t of Some r \<Rightarrow> rt_target r | None \<Rightarrow> 0);
          masked = (if phase = BEGIN_REQ then s\<lparr>tx_store := (tx_store s)(t := (tx_store s t)\<lparr>address := snd (at_decode n adr)\<rparr>)\<rparr> else s);
          (ans, called) = call_target now v t phase delay masked
      in do {
        (_, c) \<leftarrow> at_nb_transport_fw n now i t adr phase delay ans (ic s);
        if (case last (trace c) of Reply _ _ status _ \<Rightarrow> status = TLM_ACCEPTED | _ \<Rightarrow> False)
        then Some (put_ic now c (if Call_Fw v t phase delay \<in> set (new_calls (ic s) c) then called else masked))
        else None
      })"

fun send_calls :: "nat \<Rightarrow> sc_time \<Rightarrow> nat \<Rightarrow> (nat \<times> payload \<times> tlm_phase \<times> sc_time) list \<Rightarrow> at_system \<Rightarrow> at_system option" where
  "send_calls n now i [] s = Some s"
| "send_calls n now i ((t, tr, phase, delay) # cs) s = do {
     s \<leftarrow> call_interconnect n now i t phase delay (s\<lparr>tx_store := (tx_store s)(t := tr)\<rparr>);
     send_calls n now i cs s
   }"

fun answer_calls :: "sc_time \<Rightarrow> nat \<Rightarrow> (nat \<times> tlm_phase \<times> sc_time) list \<Rightarrow> at_system \<Rightarrow> at_system option" where
  "answer_calls now v [] s = Some s"
| "answer_calls now v ((t, phase, delay) # cs) s = do {
     (status, c) \<leftarrow> at_nb_transport_bw now v t phase delay (TLM_ACCEPTED, phase, delay) (ic s);
     if status = TLM_ACCEPTED then answer_calls now v cs (put_ic now c s) else None
   }"

section \<open>Events\<close>

datatype at_sys_event =
  Init_Thread nat sc_time nat i32 bool sc_time    \<comment> \<open>initiator, time, transaction handed out, random numbers\<close>
| Init_Queue nat sc_time nat sc_time                \<comment> \<open>initiator, time, entry of its queue, random delay\<close>
| Tgt_Queue nat nat end_req_input                   \<comment> \<open>target, entry of its queue, random delays\<close>
| Ic_End_Req sc_time nat
| Ic_End_Rsp sc_time nat

fun at_sys_step :: "nat \<Rightarrow> at_sys_event \<Rightarrow> at_system \<Rightarrow> at_system option" where
  "at_sys_step n (Init_Thread i now new r write rnd) s = do {
     a \<leftarrow> ai_thread_process now new r write rnd (TLM_ACCEPTED, BEGIN_REQ, rnd, blank_tx) (inits s i);
     send_calls n now i (drop (length (fw_calls (inits s i))) (fw_calls a)) (s\<lparr>inits := (inits s)(i := a)\<rparr>)
   }"
| "at_sys_step n (Init_Queue i now j rnd) s = do {
     a \<leftarrow> init_due j (\<lambda>t p. ai_peq_cb t p (tx_store s t) rnd) (inits s i);
     send_calls n now i (drop (length (fw_calls (inits s i))) (fw_calls a)) (s\<lparr>inits := (inits s)(i := a)\<rparr>)
   }"
| "at_sys_step n (Tgt_Queue v j inp) s = do {
     tg \<leftarrow> take_due j (\<lambda>now t p. a_peq_cb now t p (TLM_ACCEPTED, BEGIN_RESP, 0) inp) (target_at s v);
     answer_calls (fst (peq (tgts s v) ! j)) v (drop (length (bw_calls (tgts s v))) (bw_calls tg)) (put_target v tg s)
   }"
| "at_sys_step n (Ic_End_Req now v) s =
     (if \<not> end_req_event (ic s) v then Some s
      else case req_queue (ic s) v of
        [] \<Rightarrow> map_option (\<lambda>c. put_ic now c s)
                (end_req_process now v (TLM_ACCEPTED, BEGIN_REQ, 0) (TLM_ACCEPTED, BEGIN_RESP, 0) TLM_ACCEPTED (ic s))
      | (t, time) # _ \<Rightarrow>
          (case call_target now v t BEGIN_REQ (remaining now time) s of (ans, called) \<Rightarrow>
             map_option (\<lambda>c. put_ic now c called) (end_req_process now v ans (TLM_ACCEPTED, BEGIN_RESP, 0) TLM_ACCEPTED (ic s))))"
| "at_sys_step n (Ic_End_Rsp now i) s =
     (if \<not> end_rsp_event (ic s) i then Some s
      else map_option (\<lambda>c. put_ic now c s) (end_rsp_process now i (TLM_ACCEPTED, BEGIN_RESP, 0) TLM_ACCEPTED (ic s)))"

text \<open>The transactions that the memory manager cannot hand out, because an initiator or a target still holds them.\<close>

definition held_txs :: "ab_target \<Rightarrow> nat list" where
  "held_txs tg = map (fst \<circ> snd) (peq tg) @ (case end_req_pending tg of None \<Rightarrow> [] | Some t \<Rightarrow> [t]) @
     (case next_response_pending tg of None \<Rightarrow> [] | Some t \<Rightarrow> [t])"

definition response_at :: "at_system \<Rightarrow> nat \<Rightarrow> nat list" where
  "response_at s i = (if end_rsp_event (ic s) i then [] else case rsp_in_progress (ic s) i of None \<Rightarrow> [] | Some t \<Rightarrow> [t])"

definition responses_at :: "at_system \<Rightarrow> nat \<Rightarrow> nat list" where
  "responses_at s i = response_at s i @ map fst (rsp_queue (ic s) i)"

definition waiting :: "at_ic \<Rightarrow> nat \<Rightarrow> nat set" where
  "waiting c v = fst ` set (req_queue c v)"

definition in_flight :: "nat \<Rightarrow> nat \<Rightarrow> at_system \<Rightarrow> nat \<Rightarrow> bool" where
  "in_flight m n s t \<longleftrightarrow> 
     (\<exists>v \<in> set [0..<n]. t \<in> set (held_txs (tgts s v)) \<union> waiting (ic s) v) \<or> (\<exists>i \<in> set [0..<m]. t \<in> set (responses_at s i))"

fun at_sys_allowed :: "nat \<Rightarrow> nat \<Rightarrow> at_sys_event \<Rightarrow> at_system \<Rightarrow> bool" where
  "at_sys_allowed m n (Init_Thread i now new r write rnd) s \<longleftrightarrow>
     i < m \<and> \<not> in_flight m n s new \<and> (\<forall>k \<in> set [0..<m]. unsent (inits s k) \<noteq> Some new)"
| "at_sys_allowed m n (Init_Queue i now j rnd) s \<longleftrightarrow> i < m"
| "at_sys_allowed m n (Tgt_Queue v j inp) s \<longleftrightarrow> v < n"
| "at_sys_allowed m n (Ic_End_Req now v) s \<longleftrightarrow> v < n"
| "at_sys_allowed m n (Ic_End_Rsp now i) s \<longleftrightarrow> i < m"

text \<open>An event that finds something to do, and a state in which the scheduler has something to run.\<close>

definition thread_ready :: "at_initiator \<Rightarrow> bool" where
  "thread_ready a \<longleftrightarrow> (case thread a of Next_Iteration \<Rightarrow> True | Woken t tr \<Rightarrow> True | _ \<Rightarrow> False)"

fun at_sys_effective :: "at_sys_event \<Rightarrow> at_system \<Rightarrow> bool" where
  "at_sys_effective (Init_Thread i now new r write rnd) s \<longleftrightarrow> thread_ready (inits s i)"
| "at_sys_effective (Init_Queue i now j rnd) s \<longleftrightarrow> is_due j (init_peq (inits s i))"
| "at_sys_effective (Tgt_Queue v j inp) s \<longleftrightarrow> is_due j (peq (tgts s v))"
| "at_sys_effective (Ic_End_Req now v) s \<longleftrightarrow> end_req_event (ic s) v"
| "at_sys_effective (Ic_End_Rsp now i) s \<longleftrightarrow> end_rsp_event (ic s) i"

definition at_sys_ready :: "nat \<Rightarrow> nat \<Rightarrow> at_system \<Rightarrow> bool" where
  "at_sys_ready m n s \<longleftrightarrow>
     (\<exists>i \<in> set [0..<m]. init_peq (inits s i) \<noteq> [] \<or> end_rsp_event (ic s) i \<or> thread_ready (inits s i)) \<or>
     (\<exists>v \<in> set [0..<n]. peq (tgts s v) \<noteq> [] \<or> end_req_event (ic s) v)"

fun effective_events :: "nat \<Rightarrow> at_sys_event list \<Rightarrow> at_system \<Rightarrow> nat" where
  "effective_events n [] s = 0"
| "effective_events n (e # es) s =
     (if at_sys_effective e s then 1 else 0) + (case at_sys_step n e s of None \<Rightarrow> 0 | Some s' \<Rightarrow> effective_events n es s')"

end
