(* ===== verification/At_System_Invariant.thy ===== *)
theory At_System_Invariant
  imports At_System
begin

text \<open>
  What every step of the system of \<^verbatim>\<open>At_System\<close> keeps: the targets and the interconnect agree on the request in progress, each response is in
  one place, the attributes fit the phases. Then what one callback of a target does to it.
\<close>

section \<open>The invariant\<close>

text \<open>
  While a target is in its callback it has made calls that the interconnect has not seen yet: \<open>pend\<close> gives them for each
  target, between the steps there are none.
\<close>

type_synonym pending_calls = "nat \<Rightarrow> (nat \<times> tlm_phase \<times> sc_time) list"

definition calls_of :: "tlm_phase \<Rightarrow> (nat \<times> tlm_phase \<times> sc_time) list \<Rightarrow> nat list" where
  "calls_of p cs = map fst (filter (\<lambda>c. fst (snd c) = p) cs)"

definition txs_of :: "peq_phase \<Rightarrow> ab_target \<Rightarrow> nat list" where
  "txs_of p tg = map (fst \<circ> snd) (filter (\<lambda>e. snd (snd e) = p) (peq tg))"

text \<open>The requests a target has not ended, and those it has ended and not answered.\<close>

definition requests_of :: "ab_target \<Rightarrow> nat list" where
  "requests_of tg = txs_of (Tlm BEGIN_REQ) tg @ (case end_req_pending tg of None \<Rightarrow> [] | Some t \<Rightarrow> [t])"

definition work_of :: "ab_target \<Rightarrow> nat list" where
  "work_of tg = txs_of Internal_Ph tg @ (case next_response_pending tg of None \<Rightarrow> [] | Some t \<Rightarrow> [t])"

definition answering :: "ab_target \<Rightarrow> nat" where
  "answering tg = (if response_in_progress tg then 1 else 0)"

definition open_request :: "at_ic \<Rightarrow> nat \<Rightarrow> nat list" where
  "open_request c v = (if end_req_event c v then [] else case at_ic.req_in_progress c v of None \<Rightarrow> [] | Some t \<Rightarrow> [t])"

definition held_at :: "pending_calls \<Rightarrow> at_system \<Rightarrow> nat \<Rightarrow> nat set" where
  "held_at pend s v = set (held_txs (tgts s v)) \<union> fst ` set (pend v)"

definition routed_to :: "nat \<Rightarrow> at_ic \<Rightarrow> nat \<Rightarrow> nat \<Rightarrow> bool" where
  "routed_to m c t v \<longleftrightarrow> (\<exists>r. routes c t = Some r \<and> rt_target r = v \<and> rt_init r < m \<and> \<not> dont_propagate_fw r)"

definition routed_from :: "nat \<Rightarrow> at_ic \<Rightarrow> nat \<Rightarrow> nat \<Rightarrow> bool" where
  "routed_from n c t i \<longleftrightarrow> (\<exists>r. routes c t = Some r \<and> rt_init r = i \<and> rt_target r < n \<and> \<not> dont_propagate_fw r)"

definition routed_target :: "at_ic \<Rightarrow> nat \<Rightarrow> nat option" where
  "routed_target c t = map_option rt_target (routes c t)"

text \<open>The responses of target \<open>v\<close> that are on their way to initiator \<open>i\<close> or wait for their end there.\<close>

definition open_responses :: "at_system \<Rightarrow> nat \<Rightarrow> nat \<Rightarrow> nat" where
  "open_responses s v i = length (filter (\<lambda>t. routed_target (ic s) t = Some v) (responses_at s i))"

definition received_responses :: "at_initiator \<Rightarrow> nat list" where
  "received_responses a = map (fst \<circ> snd) (filter (\<lambda>e. snd (snd e) = BEGIN_RESP) (init_peq a))"

definition request_ok :: "at_ic \<Rightarrow> nat \<Rightarrow> ab_target \<Rightarrow> (nat \<times> tlm_phase \<times> sc_time) list \<Rightarrow> bool" where
  "request_ok c v tg cs \<longleftrightarrow> requests_of tg @ calls_of END_REQ cs = open_request c v \<and>
     (end_req_event c v \<or> req_queue c v \<noteq> [] \<longrightarrow> at_ic.req_in_progress c v \<noteq> None) \<and> set (work_of tg) \<inter> set (requests_of tg) = {} \<and>
     set (calls_of BEGIN_RESP cs) \<inter> set (open_request c v) = {}"

definition requests_inv :: "nat \<Rightarrow> pending_calls \<Rightarrow> at_system \<Rightarrow> bool" where
  "requests_inv n pend s \<longleftrightarrow> (\<forall>v<n. request_ok (ic s) v (tgts s v) (pend v))"

definition responses_inv :: "nat \<Rightarrow> nat \<Rightarrow> pending_calls \<Rightarrow> at_system \<Rightarrow> bool" where
  "responses_inv m n pend s \<longleftrightarrow>
     (\<forall>v<n. (\<Sum>i<m. open_responses s v i) + length (txs_of (Tlm END_RESP) (tgts s v)) + length (calls_of BEGIN_RESP (pend v)) =
        answering (tgts s v)) \<and>
     (\<forall>i<m. end_rsp_event (ic s) i \<or> rsp_queue (ic s) i \<noteq> [] \<longrightarrow> rsp_in_progress (ic s) i \<noteq> None)"

definition received_inv :: "nat \<Rightarrow> at_system \<Rightarrow> bool" where
  "received_inv m s \<longleftrightarrow> (\<forall>i<m. received_responses (inits s i) = response_at s i \<and>
     (\<forall>e \<in> set (init_peq (inits s i)). snd (snd e) \<in> {END_REQ, BEGIN_RESP}))"

definition routes_inv :: "nat \<Rightarrow> nat \<Rightarrow> pending_calls \<Rightarrow> at_system \<Rightarrow> bool" where
  "routes_inv m n pend s \<longleftrightarrow>
     (\<forall>v<n. (\<forall>t \<in> held_at pend s v \<union> waiting (ic s) v. routed_to m (ic s) t v) \<and>
        (\<forall>c \<in> set (pend v). fst (snd c) \<in> {END_REQ, BEGIN_RESP})) \<and>
     (\<forall>i<m. \<forall>t \<in> set (responses_at s i). routed_from n (ic s) t i)"

text \<open>A request that waits in the interconnect is nowhere else.\<close>

definition queues_inv :: "nat \<Rightarrow> nat \<Rightarrow> pending_calls \<Rightarrow> at_system \<Rightarrow> bool" where
  "queues_inv m n pend s \<longleftrightarrow>
     (\<forall>v<n. distinct (map fst (req_queue (ic s) v)) \<and> waiting (ic s) v \<inter> held_at pend s v = {} \<and>
        (\<forall>i<m. waiting (ic s) v \<inter> set (responses_at s i) = {}))"

definition completed_tx :: "payload \<Rightarrow> bool" where
  "completed_tx tr \<longleftrightarrow> response tr = TLM_OK_RESPONSE \<and> check_transaction tr"

text \<open>The attributes: the targets accept every transaction in flight, and a transaction with a response has been executed.\<close>

definition store_inv :: "nat \<Rightarrow> nat \<Rightarrow> pending_calls \<Rightarrow> at_system \<Rightarrow> bool" where
  "store_inv m n pend s \<longleftrightarrow>
     (\<forall>v<n. ab_inv (target_at s v) \<and>
        (\<forall>t. next_response_pending (tgts s v) = Some t \<or> t \<in> set (calls_of BEGIN_RESP (pend v)) \<longrightarrow> completed_tx (tx_store s t)) \<and>
        (\<forall>t \<in> held_at pend s v \<union> waiting (ic s) v. reject (tx_store s t) = None)) \<and>
     (\<forall>i<m. \<forall>t \<in> set (responses_at s i). completed_tx (tx_store s t) \<and> reject (tx_store s t) = None) \<and>
     (\<forall>t. 4 \<le> length (data (tx_store s t)))"

text \<open>A transaction that the thread of an initiator has prepared is not in use, and every target accepts it.\<close>

definition prepared_inv :: "nat \<Rightarrow> nat \<Rightarrow> pending_calls \<Rightarrow> at_system \<Rightarrow> bool" where
  "prepared_inv m n pend s \<longleftrightarrow>
     (\<forall>i<m. \<forall>t. unsent (inits s i) = Some t \<longrightarrow> \<not> in_flight m n s t \<and> (\<forall>v<n. t \<notin> held_at pend s v) \<and> (\<forall>k<m. k \<noteq> i \<longrightarrow> unsent (inits s k) \<noteq> Some t)) \<and>
     (\<forall>i<m. \<forall>t tr. thread (inits s i) = Wait_End_Req t tr \<or> thread (inits s i) = Woken t tr \<longrightarrow>
        reject tr = None \<and> 4 \<le> length (data tr))"

text \<open>A request that an initiator regards as outstanding is open at a target, or waits, or its end is in the queue of the initiator.\<close>

definition located :: "nat \<Rightarrow> pending_calls \<Rightarrow> at_system \<Rightarrow> nat \<Rightarrow> nat \<Rightarrow> bool" where
  "located n pend s i t \<longleftrightarrow> map_option rt_init (routes (ic s) t) = Some i \<and>
     (\<exists>v<n. t \<in> waiting (ic s) v \<or> t \<in> set (requests_of (tgts s v)) \<or> t \<in> set (calls_of END_REQ (pend v)))"

definition ended_requests :: "at_initiator \<Rightarrow> nat set" where
  "ended_requests a = (fst \<circ> snd) ` {e \<in> set (init_peq a). snd (snd e) = END_REQ}"

definition outstanding_inv :: "nat \<Rightarrow> nat \<Rightarrow> pending_calls \<Rightarrow> at_system \<Rightarrow> bool" where
  "outstanding_inv m n pend s \<longleftrightarrow>
     (\<forall>i<m. (\<forall>t. at_initiator.req_in_progress (inits s i) = Some t \<longrightarrow> located n pend s i t \<or> t \<in> ended_requests (inits s i)) \<and>
        (\<forall>t tr. thread (inits s i) = Wait_End_Req t tr \<longrightarrow> at_initiator.req_in_progress (inits s i) \<noteq> None))"

definition at_sys_inv :: "nat \<Rightarrow> nat \<Rightarrow> pending_calls \<Rightarrow> at_system \<Rightarrow> bool" where
  "at_sys_inv m n pend s \<longleftrightarrow> 0 < n \<and> requests_inv n pend s \<and> responses_inv m n pend s \<and> received_inv m s \<and>
     routes_inv m n pend s \<and> queues_inv m n pend s \<and> store_inv m n pend s \<and> prepared_inv m n pend s \<and> outstanding_inv m n pend s"

abbreviation none_pending :: pending_calls where "none_pending \<equiv> \<lambda>_. []"

lemma new_system_inv: "0 < n \<Longrightarrow> at_sys_inv m n none_pending (new_at_system ds)"
  by (simp add: at_sys_inv_def requests_inv_def responses_inv_def received_inv_def routes_inv_def queues_inv_def store_inv_def
      request_ok_def prepared_inv_def outstanding_inv_def held_at_def waiting_def new_at_system_def new_at_ic_def new_ab_target_def new_at_initiator_def responses_at_def response_at_def
      held_txs_def open_responses_def requests_of_def work_of_def entries_def txs_of_def calls_of_def open_request_def unsent_def
      target_at_def ab_inv_def blank_tx_def answering_def received_responses_def)

section \<open>One callback of a target\<close>

lemma calls_of_simps [simp]:
  "calls_of p [] = []" "calls_of p (c # cs) = (if fst (snd c) = p then fst c # calls_of p cs else calls_of p cs)"
  "calls_of p (cs @ ds) = calls_of p cs @ calls_of p ds"
  by (auto simp: calls_of_def)

lemma txs_of_frame [simp]:
  "txs_of p (peq_notify time t q tg) = txs_of p tg @ (if q = p then [t] else [])"
  "txs_of p (tg\<lparr>tx_attrs := x\<rparr>) = txs_of p tg" "txs_of p (tg\<lparr>refs := r\<rparr>) = txs_of p tg"
  "txs_of p (tg\<lparr>bw_calls := c\<rparr>) = txs_of p tg" "txs_of p (tg\<lparr>response_in_progress := b\<rparr>) = txs_of p tg"
  "txs_of p (tg\<lparr>next_response_pending := u\<rparr>) = txs_of p tg" "txs_of p (tg\<lparr>n_trans := k\<rparr>) = txs_of p tg"
  "txs_of p (tg\<lparr>end_req_pending := u\<rparr>) = txs_of p tg"
  by (simp_all add: txs_of_def peq_notify_def)

definition queued_txs :: "ab_target \<Rightarrow> nat set" where
  "queued_txs tg = (fst \<circ> snd) ` set (peq tg)"

lemma queued_frame [simp]:
  "queued_txs (peq_notify time t q tg) = insert t (queued_txs tg)"
  "queued_txs (tg\<lparr>tx_attrs := x\<rparr>) = queued_txs tg" "queued_txs (tg\<lparr>refs := r\<rparr>) = queued_txs tg"
  "queued_txs (tg\<lparr>bw_calls := c\<rparr>) = queued_txs tg" "queued_txs (tg\<lparr>response_in_progress := b\<rparr>) = queued_txs tg"
  "queued_txs (tg\<lparr>next_response_pending := u\<rparr>) = queued_txs tg" "queued_txs (tg\<lparr>n_trans := k\<rparr>) = queued_txs tg"
  "queued_txs (tg\<lparr>end_req_pending := u\<rparr>) = queued_txs tg"
  by (auto simp: queued_txs_def peq_notify_def)

lemma entries_txs: "entries p tg = length (txs_of p tg)"
  by (simp add: entries_def txs_of_def)

text \<open>What the rest of the system sees of a callback: the state before, the calls made, and the state after.\<close>

definition callback_ok :: "ab_target \<Rightarrow> (nat \<times> tlm_phase \<times> sc_time) list \<Rightarrow> ab_target \<Rightarrow> bool" where
  "callback_ok tg cs tg' \<longleftrightarrow>
     requests_of tg' @ calls_of END_REQ cs = requests_of tg \<and>
     set (work_of tg') \<inter> set (requests_of tg') = {} \<and> set (calls_of BEGIN_RESP cs) \<inter> set (requests_of tg) = {} \<and>
     length (txs_of (Tlm END_RESP) tg') + length (calls_of BEGIN_RESP cs) + answering tg =
       answering tg' + length (txs_of (Tlm END_RESP) tg) \<and>
     set (held_txs tg') \<union> fst ` set cs \<subseteq> set (held_txs tg) \<and> (\<forall>c \<in> set cs. fst (snd c) \<in> {END_REQ, BEGIN_RESP}) \<and>
     (\<forall>t. next_response_pending tg' = Some t \<or> t \<in> set (calls_of BEGIN_RESP cs) \<longrightarrow> completed_tx (tx_attrs tg' t)) \<and>
     (\<forall>t. completed_tx (tx_attrs tg t) \<longrightarrow> completed_tx (tx_attrs tg' t)) \<and>
     (\<forall>t. reject (tx_attrs tg' t) = reject (tx_attrs tg t)) \<and>
     (\<forall>t. 4 \<le> length (data (tx_attrs tg' t)))"

text \<open>
  A weight of what is left to do, which every callback lowers: a request costs more than its end and its response, a response
  more than its end. The calls on the backward path leave an entry in the queue of an initiator and an event of the interconnect.
\<close>

definition target_weight :: "ab_target \<Rightarrow> nat" where
  "target_weight tg = 7 * length (txs_of (Tlm BEGIN_REQ) tg) + 4 * length (txs_of Internal_Ph tg) + length (txs_of (Tlm END_RESP) tg) +
     (if end_req_pending tg = None then 0 else 6) + (if next_response_pending tg = None then 0 else 3)"

definition call_weight :: "(nat \<times> tlm_phase \<times> sc_time) list \<Rightarrow> nat" where
  "call_weight cs = 2 * length (calls_of END_REQ cs) + 3 * length (calls_of BEGIN_RESP cs)"

definition callback_done :: "ab_target \<Rightarrow> (nat \<times> tlm_phase \<times> sc_time) list \<Rightarrow> ab_target \<Rightarrow> bool" where
  "callback_done tg cs tg' \<longleftrightarrow> callback_ok tg cs tg' \<and> target_weight tg' + call_weight cs < target_weight tg"

lemma executed:
  assumes "execute_tx tr = Some tr'"
  shows "completed_tx tr'" "reject tr' = reject tr" "4 \<le> length (data tr) \<Longrightarrow> 4 \<le> length (data tr')"
  using assms by (auto simp: execute_tx_def completed_tx_def check_transaction_def reject_def split: if_splits)

text \<open>The queue without the entry that is due.\<close>

definition took :: "peq_phase \<Rightarrow> nat \<Rightarrow> ab_target \<Rightarrow> ab_target \<Rightarrow> bool" where
  "took q t tg tg0 \<longleftrightarrow> put_back q tg tg0 \<and> bw_calls tg0 = bw_calls tg \<and> t \<in> set (txs_of q tg) \<and>
     (\<forall>p. p \<noteq> q \<longrightarrow> txs_of p tg0 = txs_of p tg) \<and> set (txs_of q tg) = insert t (set (txs_of q tg0)) \<and>
     length (txs_of q tg) = Suc (length (txs_of q tg0)) \<and>
     queued_txs tg = insert t (queued_txs tg0)"

lemma took_due:
  assumes "j < length (peq tg)" and "peq tg ! j = (now, t, q)"
  shows "took q t tg (tg\<lparr>peq := take j (peq tg) @ drop (Suc j) (peq tg)\<rparr>)"
proof -
  have e: "peq tg = take j (peq tg) @ (now, t, q) # drop (Suc j) (peq tg)" using assms by (metis id_take_nth_drop)
  let ?a = "take j (peq tg)" and ?b = "drop (Suc j) (peq tg)"
  have "txs_of p tg = map (fst \<circ> snd) (filter (\<lambda>e. snd (snd e) = p) (?a @ (now, t, q) # ?b))" for p
    using e by (simp add: txs_of_def)
  moreover have "txs_of p (tg\<lparr>peq := ?a @ ?b\<rparr>) = map (fst \<circ> snd) (filter (\<lambda>e. snd (snd e) = p) (?a @ ?b))" for p
    by (simp add: txs_of_def)
  moreover have "queued_txs tg = insert t (queued_txs (tg\<lparr>peq := ?a @ ?b\<rparr>))"
    using arg_cong[OF e, of "\<lambda>q. (fst \<circ> snd) ` set q"] by (auto simp: queued_txs_def)
  moreover have "put_back q tg (tg\<lparr>peq := ?a @ ?b\<rparr>)"
    using entries_taken[OF assms] by (simp add: put_back_def)
  ultimately show ?thesis by (simp add: took_def)
qed

lemma took_fields:
  assumes "took q t tg tg0"
  shows "n_trans tg0 = n_trans tg" "next_response_pending tg0 = next_response_pending tg"
    "response_in_progress tg0 = response_in_progress tg" "end_req_pending tg0 = end_req_pending tg" "tx_attrs tg0 = tx_attrs tg"
    "bw_calls tg0 = bw_calls tg" "t \<in> set (txs_of q tg)" "p \<noteq> q \<Longrightarrow> txs_of p tg0 = txs_of p tg"
    "set (txs_of q tg) = insert t (set (txs_of q tg0))" "length (txs_of q tg) = Suc (length (txs_of q tg0))"
    "queued_txs tg = insert t (queued_txs tg0)"
  using assms by (auto simp: took_def put_back_def)

lemma accepted_response [simp]:
  "a_send_response now t (TLM_ACCEPTED, ph, dl) inp tg = call_bw t BEGIN_RESP 0 (tg\<lparr>response_in_progress := True\<rparr>)"
  by (simp add: a_send_response_def Let_def)

lemma one_request: "ab_inv tg \<Longrightarrow> length (requests_of tg) \<le> 1"
  by (auto simp: ab_inv_def requests_of_def entries_txs split: option.splits)

lemma held_parts:
  "set (held_txs tg) = queued_txs tg \<union> set_option (end_req_pending tg) \<union> set_option (next_response_pending tg)"
  "set (requests_of tg) = set (txs_of (Tlm BEGIN_REQ) tg) \<union> set_option (end_req_pending tg)"
  "set (work_of tg) = set (txs_of Internal_Ph tg) \<union> set_option (next_response_pending tg)"
  by (auto simp: held_txs_def queued_txs_def requests_of_def work_of_def split: option.splits)

lemma txs_peq: "set (txs_of p tg) \<subseteq> queued_txs tg"
  by (auto simp: txs_of_def queued_txs_def)

text \<open>\<^verbatim>\<open>BEGIN_REQ\<close>: the request is ended at once or waits for room.\<close>

lemma callback_request:
  assumes "ab_inv tg" and "took (Tlm BEGIN_REQ) t tg tg0" and "set (work_of tg) \<inter> set (requests_of tg) = {}"
    and "\<And>u. next_response_pending tg = Some u \<Longrightarrow> completed_tx (tx_attrs tg u)"
    and "\<And>u. 4 \<le> length (data (tx_attrs tg u))"
    and "a_peq_cb now t (Tlm BEGIN_REQ) (TLM_ACCEPTED, ph, dl) inp tg0 = Some tg'"
  shows "\<exists>cs. bw_calls tg' = bw_calls tg @ cs \<and> callback_done tg cs tg'"
proof -
  note f = took_fields[OF assms(2)]
  have e: "end_req_pending tg = None" "txs_of (Tlm BEGIN_REQ) tg0 = []"
    using one_request[OF assms(1)] f(10) by (auto simp: requests_of_def split: option.splits)
  with f(9) f(10) have r: "txs_of (Tlm BEGIN_REQ) tg = [t]" by (cases "txs_of (Tlm BEGIN_REQ) tg") auto
  have w: "t \<notin> set (work_of tg)" using assms(3) r by (auto simp: held_parts)
  show ?thesis
  proof (cases "n_trans tg = 2")
    case True
    then have t': "tg' = (acquire t tg0)\<lparr>end_req_pending := Some t\<rparr>" using assms(6) f(1) by (simp add: a_peq_cb_def acquire_def)
    have "callback_ok tg [] tg'"
      using f e r w assms(3,4,5) by (auto simp: callback_ok_def t' acquire_def requests_of_def held_parts answering_def)
    moreover have "target_weight tg' + call_weight [] < target_weight tg"
      using f e r by (simp add: target_weight_def call_weight_def t' acquire_def)
    ultimately show ?thesis using f(6) by (intro exI[of _ "[]"]) (simp add: t' acquire_def callback_done_def)
  next
    case False
    obtain ad d l where inp: "inp = (ad, d, l)" by (cases inp)
    have t': "tg' = (peq_notify (now + (d + l)) t Internal_Ph (call_bw t END_REQ ad (acquire t tg0)))\<lparr>n_trans := n_trans tg + 1\<rparr>"
      using assms(6) f(1) False by (simp add: a_peq_cb_def acquire_def a_send_end_req_def inp call_bw_def Let_def)
    have "callback_ok tg [(t, END_REQ, ad)] tg'"
      using f e r w assms(3,4,5)
      by (auto simp: callback_ok_def t' acquire_def call_bw_def requests_of_def held_parts answering_def)
    moreover have "target_weight tg' + call_weight [(t, END_REQ, ad)] < target_weight tg"
      using f e r by (simp add: target_weight_def call_weight_def t' acquire_def call_bw_def)
    ultimately show ?thesis using f(6)
      by (intro exI[of _ "[(t, END_REQ, ad)]"]) (simp add: t' acquire_def call_bw_def callback_done_def)
  qed
qed

text \<open>\<^verbatim>\<open>END_RESP\<close>: the next response and the end of a request that waits for room.\<close>

lemma callback_end:
  assumes "ab_inv tg" and "took (Tlm END_RESP) t tg tg0" and "set (work_of tg) \<inter> set (requests_of tg) = {}"
    and "\<And>u. next_response_pending tg = Some u \<Longrightarrow> completed_tx (tx_attrs tg u)"
    and "\<And>u. 4 \<le> length (data (tx_attrs tg u))"
    and "a_peq_cb now t (Tlm END_RESP) (TLM_ACCEPTED, ph, dl) inp tg0 = Some tg'"
  shows "\<exists>cs. bw_calls tg' = bw_calls tg @ cs \<and> callback_done tg cs tg'"
proof -
  note f = took_fields[OF assms(2)]
  obtain ad d l where inp: "inp = (ad, d, l)" by (cases inp)
  have rip: "response_in_progress tg0" using assms(6) by (simp add: a_peq_cb_def split: if_splits)
  have e: "length (txs_of (Tlm END_RESP) tg0) = 0"
    using assms(1) f(3,10) rip by (auto simp: ab_inv_def entries_txs)
  have one: "length (requests_of tg) \<le> 1" by (rule one_request[OF assms(1)])
  let ?resp = "case next_response_pending tg of None \<Rightarrow> [] | Some u \<Rightarrow> [(u, BEGIN_RESP, 0)]"
  let ?req = "case end_req_pending tg of None \<Rightarrow> [] | Some u \<Rightarrow> [(u, END_REQ, ad)]"
  let ?s1 = "(release t tg0)\<lparr>n_trans := n_trans tg - 1, response_in_progress := False\<rparr>"
  define s2 where "s2 = (case next_response_pending tg of None \<Rightarrow> ?s1
      | Some u \<Rightarrow> (call_bw u BEGIN_RESP 0 (?s1\<lparr>response_in_progress := True\<rparr>))\<lparr>next_response_pending := None\<rparr>)"
  have t': "tg' = a_unblock now inp s2"
    using assms(6) f(1,2) rip by (auto simp: a_peq_cb_def s2_def release_def Let_def split: option.splits)
  have "bw_calls tg' = bw_calls tg @ ?resp @ ?req"
    using f(4,6) by (auto simp: t' s2_def a_unblock_def a_send_end_req_def inp call_bw_def release_def Let_def peq_notify_def split: option.splits)
  moreover have "callback_ok tg (?resp @ ?req) tg'"
  proof (cases "end_req_pending tg")
    case None
    with f e rip assms(3,4,5) show ?thesis
      by (auto simp: callback_ok_def t' s2_def a_unblock_def release_def call_bw_def requests_of_def held_parts answering_def split: option.splits)
  next
    case (Some v)
    with one have r: "txs_of (Tlm BEGIN_REQ) tg = []" by (simp add: requests_of_def)
    with Some f e rip assms(3,4,5) show ?thesis
      by (auto simp: callback_ok_def t' s2_def a_unblock_def a_send_end_req_def inp release_def call_bw_def requests_of_def held_parts
          answering_def Let_def split: option.splits)
  qed
  moreover have "target_weight tg' + call_weight (?resp @ ?req) < target_weight tg"
    using f e by (auto simp: target_weight_def call_weight_def t' s2_def a_unblock_def a_send_end_req_def inp release_def call_bw_def Let_def
        split: option.splits)
  ultimately show ?thesis unfolding callback_done_def by blast
qed

text \<open>A request is executed and answered, or its response waits.\<close>

lemma callback_work:
  assumes "ab_inv tg" and "took Internal_Ph t tg tg0" and "set (work_of tg) \<inter> set (requests_of tg) = {}"
    and "\<And>u. next_response_pending tg = Some u \<Longrightarrow> completed_tx (tx_attrs tg u)"
    and "\<And>u. 4 \<le> length (data (tx_attrs tg u))"
    and "a_peq_cb now t Internal_Ph (TLM_ACCEPTED, ph, dl) inp tg0 = Some tg'"
  shows "\<exists>cs. bw_calls tg' = bw_calls tg @ cs \<and> callback_done tg cs tg'"
proof -
  note f = took_fields[OF assms(2)]
  obtain tr where tr: "execute_tx (tx_attrs tg t) = Some tr"
    using assms(6) f(5) by (auto simp: a_peq_cb_def bind_eq_Some_conv)
  note x = executed[OF tr]
  have w: "t \<in> set (work_of tg)" using f(7) by (simp add: work_of_def)
  show ?thesis
  proof (cases "response_in_progress tg")
    case True
    then have t': "tg' = (set_payload t tr tg0)\<lparr>next_response_pending := Some t\<rparr>" "next_response_pending tg = None"
      using assms(6) f(2,3,5) tr by (auto simp: a_peq_cb_def set_payload_def split: if_splits)
    have "callback_ok tg [] tg'"
      using f x w assms(3,4,5) t'(2) True
      by (auto simp: callback_ok_def t'(1) set_payload_def requests_of_def held_parts answering_def)
    moreover have "target_weight tg' + call_weight [] < target_weight tg"
      using f t'(2) by (simp add: target_weight_def call_weight_def t'(1) set_payload_def)
    ultimately show ?thesis using f(6) by (intro exI[of _ "[]"]) (simp add: t' set_payload_def callback_done_def)
  next
    case False
    then have t': "tg' = call_bw t BEGIN_RESP 0 ((set_payload t tr tg0)\<lparr>response_in_progress := True\<rparr>)" "next_response_pending tg = None"
      using assms(1,6) f(2,3,5) tr by (auto simp: a_peq_cb_def set_payload_def ab_inv_def split: if_splits)
    have "callback_ok tg [(t, BEGIN_RESP, 0)] tg'"
      using f x w assms(3,4,5) t'(2) False
      by (auto simp: callback_ok_def t'(1) set_payload_def call_bw_def requests_of_def held_parts answering_def)
    moreover have "target_weight tg' + call_weight [(t, BEGIN_RESP, 0)] < target_weight tg"
      using f t'(2) by (simp add: target_weight_def call_weight_def t'(1) set_payload_def call_bw_def)
    ultimately show ?thesis using f(6)
      by (intro exI[of _ "[(t, BEGIN_RESP, 0)]"]) (simp add: t' set_payload_def call_bw_def callback_done_def)
  qed
qed

lemma callback_summary:
  assumes "ab_inv tg" and "is_due j (peq tg)" and "set (work_of tg) \<inter> set (requests_of tg) = {}"
    and "\<And>u. next_response_pending tg = Some u \<Longrightarrow> completed_tx (tx_attrs tg u)"
    and "\<And>u. 4 \<le> length (data (tx_attrs tg u))"
    and "take_due j (\<lambda>now t p. a_peq_cb now t p (TLM_ACCEPTED, ph, dl) inp) tg = Some tg'"
  shows "\<exists>cs. bw_calls tg' = bw_calls tg @ cs \<and> callback_done tg cs tg'"
proof -
  obtain now t q where e: "peq tg ! j = (now, t, q)" by (cases "peq tg ! j")
  let ?tg0 = "tg\<lparr>peq := take j (peq tg) @ drop (Suc j) (peq tg)\<rparr>"
  have k: "took q t tg ?tg0" by (rule took_due) (use assms(2) e in \<open>auto simp: is_due_def\<close>)
  have cb: "a_peq_cb now t q (TLM_ACCEPTED, ph, dl) inp ?tg0 = Some tg'" using assms(2,6) e by (simp add: take_due_def)
  show ?thesis
  proof (cases q)
    case Internal_Ph
    from callback_work[OF assms(1) k[unfolded Internal_Ph] assms(3-5) cb[unfolded Internal_Ph]] show ?thesis .
  next
    case (Tlm p)
    show ?thesis
    proof (cases p)
      case BEGIN_REQ
      from callback_request[OF assms(1) k[unfolded Tlm BEGIN_REQ] assms(3-5) cb[unfolded Tlm BEGIN_REQ]] show ?thesis .
    next
      case END_RESP
      from callback_end[OF assms(1) k[unfolded Tlm END_RESP] assms(3-5) cb[unfolded Tlm END_RESP]] show ?thesis .
    qed (use cb Tlm in \<open>simp_all add: a_peq_cb_def\<close>)
  qed
qed

section \<open>Steps of the targets\<close>

lemmas at_sys_defs = requests_inv_def responses_inv_def received_inv_def routes_inv_def queues_inv_def store_inv_def prepared_inv_def

lemma target_at_parts [simp]:
  "requests_of (target_at s v) = requests_of (tgts s v)" "work_of (target_at s v) = work_of (tgts s v)"
  "held_txs (target_at s v) = held_txs (tgts s v)" "txs_of p (target_at s v) = txs_of p (tgts s v)"
  "answering (target_at s v) = answering (tgts s v)" "next_response_pending (target_at s v) = next_response_pending (tgts s v)"
  "tx_attrs (target_at s v) = tx_store s" "bw_calls (target_at s v) = bw_calls (tgts s v)" "peq (target_at s v) = peq (tgts s v)"
  by (simp_all add: target_at_def requests_of_def work_of_def held_txs_def answering_def)

lemma ab_inv_attrs: "ab_inv tg \<Longrightarrow> (\<And>t. 4 \<le> length (data (x t))) \<Longrightarrow> ab_inv (tg\<lparr>tx_attrs := x\<rparr>)"
  by (auto simp: ab_inv_def)

lemma put_target_parts [simp]:
  "inits (put_target v tg s) = inits s" "ic (put_target v tg s) = ic s" "tgts (put_target v tg s) = (tgts s)(v := tg)"
  "tx_store (put_target v tg s) = tx_attrs tg" "responses_at (put_target v tg s) = responses_at s"
  "response_at (put_target v tg s) = response_at s" "open_responses (put_target v tg s) = open_responses s"
  by (simp_all add: put_target_def responses_at_def response_at_def open_responses_def fun_eq_iff split: option.split)

lemma request_ok_at [simp]: "request_ok c v (target_at s w) cs = request_ok c v (tgts s w) cs"
  by (simp add: request_ok_def)

lemma callback_request_ok: "request_ok c v tg [] \<Longrightarrow> callback_ok tg cs tg' \<Longrightarrow> request_ok c v tg' cs"
  by (auto simp: request_ok_def callback_ok_def)

lemma in_flight_iff:
  "in_flight m n s t \<longleftrightarrow>
     (\<exists>v<n. t \<in> set (held_txs (tgts s v)) \<union> waiting (ic s) v) \<or> (\<exists>i<m. t \<in> set (responses_at s i))"
  by (auto simp: in_flight_def)

lemma at_sys_invD:
  assumes "at_sys_inv m n pend s"
  shows "0 < n" "requests_inv n pend s" "responses_inv m n pend s" "received_inv m s" "routes_inv m n pend s"
    "queues_inv m n pend s" "store_inv m n pend s" "prepared_inv m n pend s" "outstanding_inv m n pend s"
  using assms by (simp_all add: at_sys_inv_def)

lemma routes_invD:
  assumes "routes_inv m n pend s"
  shows "v < n \<Longrightarrow> t \<in> held_at pend s v \<or> t \<in> waiting (ic s) v \<Longrightarrow> routed_to m (ic s) t v"
    "v < n \<Longrightarrow> c \<in> set (pend v) \<Longrightarrow> fst (snd c) = END_REQ \<or> fst (snd c) = BEGIN_RESP"
    "i < m \<Longrightarrow> t \<in> set (responses_at s i) \<Longrightarrow> routed_from n (ic s) t i"
  using assms by (auto simp: routes_inv_def)

lemma queues_invD:
  assumes "queues_inv m n pend s" and "v < n"
  shows "distinct (map fst (req_queue (ic s) v))" "t \<in> waiting (ic s) v \<Longrightarrow> t \<notin> held_at pend s v"
    "i < m \<Longrightarrow> t \<in> waiting (ic s) v \<Longrightarrow> t \<notin> set (responses_at s i)"
  using assms by (auto simp: queues_inv_def)

lemma store_invD:
  assumes "store_inv m n pend s"
  shows "v < n \<Longrightarrow> ab_inv (target_at s v)"
    "v < n \<Longrightarrow> next_response_pending (tgts s v) = Some t \<or> t \<in> set (calls_of BEGIN_RESP (pend v)) \<Longrightarrow> completed_tx (tx_store s t)"
    "v < n \<Longrightarrow> t \<in> held_at pend s v \<or> t \<in> waiting (ic s) v \<Longrightarrow> reject (tx_store s t) = None"
    "i < m \<Longrightarrow> t \<in> set (responses_at s i) \<Longrightarrow> completed_tx (tx_store s t)"
    "i < m \<Longrightarrow> t \<in> set (responses_at s i) \<Longrightarrow> reject (tx_store s t) = None"
    "4 \<le> length (data (tx_store s t))"
  using assms by (auto simp: store_inv_def)

lemma prepared_invD:
  assumes "prepared_inv m n pend s" and "i < m"
  shows "unsent (inits s i) = Some t \<Longrightarrow> \<not> in_flight m n s t"
    "unsent (inits s i) = Some t \<Longrightarrow> v < n \<Longrightarrow> t \<notin> held_at pend s v"
    "unsent (inits s i) = Some t \<Longrightarrow> k < m \<Longrightarrow> k \<noteq> i \<Longrightarrow> unsent (inits s k) \<noteq> Some t"
    "thread (inits s i) = Wait_End_Req t tr \<or> thread (inits s i) = Woken t tr \<Longrightarrow> reject tr = None \<and> 4 \<le> length (data tr)"
proof -
  have a: "unsent (inits s i) = Some t \<longrightarrow> \<not> in_flight m n s t \<and> (\<forall>v<n. t \<notin> held_at pend s v) \<and>
      (\<forall>k<m. k \<noteq> i \<longrightarrow> unsent (inits s k) \<noteq> Some t)"
    using assms unfolding prepared_inv_def by blast
  show "unsent (inits s i) = Some t \<Longrightarrow> \<not> in_flight m n s t"
    "unsent (inits s i) = Some t \<Longrightarrow> v < n \<Longrightarrow> t \<notin> held_at pend s v"
    "unsent (inits s i) = Some t \<Longrightarrow> k < m \<Longrightarrow> k \<noteq> i \<Longrightarrow> unsent (inits s k) \<noteq> Some t"
    using a by simp_all
  show "thread (inits s i) = Wait_End_Req t tr \<or> thread (inits s i) = Woken t tr \<Longrightarrow> reject tr = None \<and> 4 \<le> length (data tr)"
    using assms unfolding prepared_inv_def by blast
qed

lemma routes_invI:
  assumes "\<And>v t. v < n \<Longrightarrow> t \<in> held_at pend s v \<or> t \<in> waiting (ic s) v \<Longrightarrow> routed_to m (ic s) t v"
    and "\<And>v c. v < n \<Longrightarrow> c \<in> set (pend v) \<Longrightarrow> fst (snd c) = END_REQ \<or> fst (snd c) = BEGIN_RESP"
    and "\<And>i t. i < m \<Longrightarrow> t \<in> set (responses_at s i) \<Longrightarrow> routed_from n (ic s) t i"
  shows "routes_inv m n pend s"
  using assms by (simp add: routes_inv_def)

lemma queues_invI:
  assumes "\<And>v. v < n \<Longrightarrow> distinct (map fst (req_queue (ic s) v))"
    and "\<And>v t. v < n \<Longrightarrow> t \<in> waiting (ic s) v \<Longrightarrow> t \<notin> held_at pend s v"
    and "\<And>v i t. v < n \<Longrightarrow> i < m \<Longrightarrow> t \<in> waiting (ic s) v \<Longrightarrow> t \<notin> set (responses_at s i)"
  shows "queues_inv m n pend s"
  using assms unfolding queues_inv_def by blast

lemma store_invI:
  assumes "\<And>v. v < n \<Longrightarrow> ab_inv (target_at s v)"
    and "\<And>v t. v < n \<Longrightarrow> next_response_pending (tgts s v) = Some t \<or> t \<in> set (calls_of BEGIN_RESP (pend v)) \<Longrightarrow> completed_tx (tx_store s t)"
    and "\<And>v t. v < n \<Longrightarrow> t \<in> held_at pend s v \<or> t \<in> waiting (ic s) v \<Longrightarrow> reject (tx_store s t) = None"
    and "\<And>i t. i < m \<Longrightarrow> t \<in> set (responses_at s i) \<Longrightarrow> completed_tx (tx_store s t) \<and> reject (tx_store s t) = None"
    and "\<And>t. 4 \<le> length (data (tx_store s t))"
  shows "store_inv m n pend s"
  using assms by (simp add: store_inv_def)

lemma prepared_invI:
  assumes "\<And>i t. i < m \<Longrightarrow> unsent (inits s i) = Some t \<Longrightarrow> \<not> in_flight m n s t"
    and "\<And>i t v. i < m \<Longrightarrow> unsent (inits s i) = Some t \<Longrightarrow> v < n \<Longrightarrow> t \<notin> held_at pend s v"
    and "\<And>i t k. i < m \<Longrightarrow> unsent (inits s i) = Some t \<Longrightarrow> k < m \<Longrightarrow> k \<noteq> i \<Longrightarrow> unsent (inits s k) \<noteq> Some t"
    and "\<And>i t tr. i < m \<Longrightarrow> thread (inits s i) = Wait_End_Req t tr \<or> thread (inits s i) = Woken t tr \<Longrightarrow> reject tr = None \<and> 4 \<le> length (data tr)"
  shows "prepared_inv m n pend s"
  using assms unfolding prepared_inv_def by blast

lemma located_moved:
  assumes "located n pend s i t" and "map_option rt_init (routes (ic s') t) = map_option rt_init (routes (ic s) t)"
    and "\<And>v. v < n \<Longrightarrow> t \<in> waiting (ic s) v \<or> t \<in> set (requests_of (tgts s v)) \<or> t \<in> set (calls_of END_REQ (pend v)) \<Longrightarrow>
      t \<in> waiting (ic s') v \<or> t \<in> set (requests_of (tgts s' v)) \<or> t \<in> set (calls_of END_REQ (pend' v))"
  shows "located n pend' s' i t"
  using assms unfolding located_def by metis

lemma outstanding_invI:
  assumes inv: "outstanding_inv m n pend s"
    and same: "\<And>i. i < m \<Longrightarrow> at_initiator.req_in_progress (inits s' i) = at_initiator.req_in_progress (inits s i)"
      "\<And>i t tr. i < m \<Longrightarrow> thread (inits s' i) = Wait_End_Req t tr \<Longrightarrow> thread (inits s i) = Wait_End_Req t tr"
    and more: "\<And>i t. i < m \<Longrightarrow> located n pend s i t \<Longrightarrow> located n pend' s' i t \<or> t \<in> ended_requests (inits s' i)"
      "\<And>i. i < m \<Longrightarrow> ended_requests (inits s i) \<subseteq> ended_requests (inits s' i)"
  shows "outstanding_inv m n pend' s'"
  unfolding outstanding_inv_def
proof (intro allI impI conjI)
  fix i t assume i: "i < m" and "at_initiator.req_in_progress (inits s' i) = Some t"
  then have "located n pend s i t \<or> t \<in> ended_requests (inits s i)" using inv same(1)[OF i] by (simp add: outstanding_inv_def)
  then show "located n pend' s' i t \<or> t \<in> ended_requests (inits s' i)" using more[OF i] by blast
next
  fix i t tr assume i: "i < m" and "thread (inits s' i) = Wait_End_Req t tr"
  then have "thread (inits s i) = Wait_End_Req t tr" by (rule same(2))
  then show "at_initiator.req_in_progress (inits s' i) \<noteq> None" using inv i same(1)[OF i] unfolding outstanding_inv_def by metis
qed

lemma callback_inv:
  assumes inv: "at_sys_inv m n none_pending s" and v: "v < n"
    and ok: "callback_ok (target_at s v) cs tg" and ab: "ab_inv tg"
  shows "at_sys_inv m n (none_pending(v := cs)) (put_target v tg s)"
proof -
  let ?s = "put_target v tg s" and ?p = "none_pending(v := cs)"
  note d = at_sys_invD[OF inv]
  note c = ok[unfolded callback_ok_def target_at_parts]
  have sub: "held_at ?p ?s w \<subseteq> held_at none_pending s w" for w using c by (auto simp: held_at_def)
  have held: "set (held_txs (tgts ?s w)) \<subseteq> set (held_txs (tgts s w))" for w using c by auto
  have check: "completed_tx (tx_store ?s t)" if "completed_tx (tx_store s t)" for t using c that by simp
  have rej: "reject (tx_store ?s t) = reject (tx_store s t)" and len: "4 \<le> length (data (tx_store ?s t))" for t using c by simp_all
  have "requests_inv n ?p ?s"
    using d(2) callback_request_ok[OF _ ok, of "ic s" v] v by (simp add: requests_inv_def)
  moreover have "responses_inv m n ?p ?s"
  proof -
    have "length (txs_of (Tlm END_RESP) tg) + length (calls_of BEGIN_RESP cs) + answering (tgts s v) =
       answering tg + length (txs_of (Tlm END_RESP) (tgts s v))" using c by blast
    then show ?thesis using d(3) v by (auto simp: responses_inv_def)
  qed
  moreover have "received_inv m ?s" using d(4) by (simp add: received_inv_def)
  moreover have "routes_inv m n ?p ?s"
  proof (rule routes_invI)
    show "routed_to m (ic ?s) t w" if "w < n" "t \<in> held_at ?p ?s w \<or> t \<in> waiting (ic ?s) w" for w t
      using routes_invD(1)[OF d(5), of w t] that sub[of w] by auto
  qed (use routes_invD(3)[OF d(5)] c in \<open>auto split: if_splits\<close>)
  moreover have "queues_inv m n ?p ?s"
  proof (rule queues_invI)
    show "t \<notin> held_at ?p ?s w" if "w < n" "t \<in> waiting (ic ?s) w" for w t
      using queues_invD(2)[OF d(6), of w t] that sub[of w] by auto
  qed (use queues_invD(1,3)[OF d(6)] in simp_all)
  moreover have "store_inv m n ?p ?s"
  proof -
    have "ab_inv (target_at ?s w)" if "w < n" for w
    proof (cases "w = v")
      case True
      then show ?thesis using ab by (simp add: target_at_def)
    next
      case False
      then have "ab_inv ((target_at s w)\<lparr>tx_attrs := tx_attrs tg\<rparr>)"
        using store_invD(1)[OF d(7) that] len by (intro ab_inv_attrs) simp_all
      then show ?thesis using False by (simp add: target_at_def)
    qed
    moreover have "completed_tx (tx_store ?s t)"
      if "w < n" "next_response_pending (tgts ?s w) = Some t \<or> t \<in> set (calls_of BEGIN_RESP (?p w))" for w t
      using that c store_invD(2)[OF d(7), of w t] check by (cases "w = v") auto
    moreover have "reject (tx_store ?s t) = None" if "w < n" "t \<in> held_at ?p ?s w \<or> t \<in> waiting (ic ?s) w" for t w
      using that sub[of w] store_invD(3)[OF d(7), of w t] unfolding rej by auto
    moreover have "completed_tx (tx_store ?s t) \<and> reject (tx_store ?s t) = None" if "k < m" "t \<in> set (responses_at ?s k)" for k t
      using that store_invD(4,5)[OF d(7), of k t] check unfolding rej by simp
    ultimately show ?thesis using len by (intro store_invI)
  qed
  moreover have "prepared_inv m n ?p ?s"
  proof (rule prepared_invI)
    have fl: "in_flight m n s t" if "in_flight m n ?s t" for t
      using that held unfolding in_flight_iff put_target_parts(2,5) by blast
    fix k t assume k: "k < m" "unsent (inits ?s k) = Some t"
    then have u: "unsent (inits s k) = Some t" by simp
    show "\<not> in_flight m n ?s t" using prepared_invD(1)[OF d(8) k(1) u] fl by blast
    show "t \<notin> held_at ?p ?s w" if "w < n" for w using prepared_invD(2)[OF d(8) k(1) u that] sub[of w] by blast
    show "unsent (inits ?s l) \<noteq> Some t" if "l < m" "l \<noteq> k" for l using prepared_invD(3)[OF d(8) k(1) u that] by simp
  next
    fix k t tr assume "k < m" "thread (inits ?s k) = Wait_End_Req t tr \<or> thread (inits ?s k) = Woken t tr"
    then show "reject tr = None \<and> 4 \<le> length (data tr)" using prepared_invD(4)[OF d(8)] by simp
  qed
  moreover have "outstanding_inv m n ?p ?s"
  proof (rule outstanding_invI[OF d(9)])
    have moved: "t \<in> set (requests_of tg) \<or> t \<in> set (calls_of END_REQ cs)" if "t \<in> set (requests_of (tgts s v))" for t
    proof -
      have "set (requests_of tg @ calls_of END_REQ cs) = set (requests_of (tgts s v))" using c by simp
      then show ?thesis using that by auto
    qed
    show "located n ?p ?s k t \<or> t \<in> ended_requests (inits ?s k)" if "located n none_pending s k t" for k t
      by (rule disjI1, rule located_moved[OF that]) (auto dest: moved split: if_splits)
  qed simp_all
  ultimately show ?thesis using d(1) by (simp add: at_sys_inv_def)
qed

end
