(* ===== verification/At_System_Calls.thy ===== *)
theory At_System_Calls
  imports At_System_Invariant
begin

text \<open>
  The calls between the components of \<^verbatim>\<open>At_System\<close> keep the invariant: responses and ends of requests on the backward path, requests and
  ends of responses on the forward path. Each lemma also bounds what the call adds to the weight of what is left to do.
\<close>

section \<open>The weight of the system\<close>

definition init_weight :: "at_initiator \<Rightarrow> nat" where
  "init_weight a = 8 * (2000 - thread_work a) + sum_list (map (\<lambda>e. if snd (snd e) = END_REQ then 1 else 3) (init_peq a))"

definition initiator_side :: "at_system \<Rightarrow> nat \<Rightarrow> nat" where
  "initiator_side s i = init_weight (inits s i) + 3 * length (rsp_queue (ic s) i) + (if end_rsp_event (ic s) i then 1 else 0)"

definition target_side :: "at_system \<Rightarrow> nat \<Rightarrow> nat" where
  "target_side s v = target_weight (tgts s v) + 7 * length (req_queue (ic s) v) + (if end_req_event (ic s) v then 1 else 0)"

definition sys_weight :: "nat \<Rightarrow> nat \<Rightarrow> at_system \<Rightarrow> nat" where
  "sys_weight m n s = (\<Sum>i<m. initiator_side s i) + (\<Sum>v<n. target_side s v)"

lemma sum_changed:
  fixes f :: "nat \<Rightarrow> nat"
  assumes "i < m" and "\<And>k. k < m \<Longrightarrow> k \<noteq> i \<Longrightarrow> f' k = f k"
  shows "(\<Sum>k<m. f' k) + f i = (\<Sum>k<m. f k) + f' i"
proof -
  have "(\<Sum>k<m. g k) = g i + (\<Sum>k\<in>{..<m} - {i}. g k)" for g :: "nat \<Rightarrow> nat"
    using assms(1) by (intro sum.remove) auto
  moreover have "(\<Sum>k\<in>{..<m} - {i}. f' k) = (\<Sum>k\<in>{..<m} - {i}. f k)" using assms(2) by (intro sum.cong) auto
  ultimately show ?thesis by simp
qed

text \<open>A change at one initiator, at one target, or at one of each.\<close>

lemma weight_initiator:
  assumes "i < m" and "\<And>k. k < m \<Longrightarrow> k \<noteq> i \<Longrightarrow> initiator_side s' k = initiator_side s k" and "\<And>v. v < n \<Longrightarrow> target_side s' v = target_side s v"
  shows "sys_weight m n s' + initiator_side s i = sys_weight m n s + initiator_side s' i"
  using sum_changed[of i m "initiator_side s'" "initiator_side s"] assms by (simp add: sys_weight_def)

lemma weight_target:
  assumes "v < n" and "\<And>k. k < m \<Longrightarrow> initiator_side s' k = initiator_side s k" and "\<And>w. w < n \<Longrightarrow> w \<noteq> v \<Longrightarrow> target_side s' w = target_side s w"
  shows "sys_weight m n s' + target_side s v = sys_weight m n s + target_side s' v"
  using sum_changed[of v n "target_side s'" "target_side s"] assms by (simp add: sys_weight_def)

lemma weight_both:
  assumes "i < m" and "\<And>k. k < m \<Longrightarrow> k \<noteq> i \<Longrightarrow> initiator_side s' k = initiator_side s k"
    and "v < n" and "\<And>w. w < n \<Longrightarrow> w \<noteq> v \<Longrightarrow> target_side s' w = target_side s w"
  shows "sys_weight m n s' + initiator_side s i + target_side s v = sys_weight m n s + initiator_side s' i + target_side s' v"
  using sum_changed[of i m "initiator_side s'" "initiator_side s"] sum_changed[of v n "target_side s'" "target_side s"] assms
  by (simp add: sys_weight_def)

lemma put_target_weight:
  assumes "v < n"
  shows "sys_weight m n (put_target v tg s) + target_weight (tgts s v) = sys_weight m n s + target_weight tg"
  using weight_target[of v n m "put_target v tg s" s] assms by (simp add: initiator_side_def target_side_def)

section \<open>Calls on the backward path\<close>

lemma responses_at_set: "set (responses_at s i) = set (response_at s i) \<union> fst ` set (rsp_queue (ic s) i)"
  by (simp add: responses_at_def)

text \<open>Steps that at most turn a call for a response into a response under way.\<close>

lemma shuffle_inv:
  assumes inv: "at_sys_inv m n pend s" and req: "requests_inv n pend' s'" and resp: "responses_inv m n pend' s'"
    and rcv: "received_inv m s'" and out: "outstanding_inv m n pend' s'"
    and same: "tgts s' = tgts s" "tx_store s' = tx_store s" "routes (ic s') = routes (ic s)" "req_queue (ic s') = req_queue (ic s)"
    and more: "\<And>i t. i < m \<Longrightarrow> t \<in> set (responses_at s' i) \<Longrightarrow> t \<in> set (responses_at s i) \<or>
        (\<exists>v<n. t \<in> set (calls_of BEGIN_RESP (pend v)) \<and> map_option rt_init (routes (ic s) t) = Some i)"
    and calls: "\<And>v. set (pend' v) \<subseteq> set (pend v)"
    and thr: "\<And>i. unsent (inits s' i) = unsent (inits s i)"
      "\<And>i t tr. thread (inits s' i) = Wait_End_Req t tr \<or> thread (inits s' i) = Woken t tr \<Longrightarrow>
         thread (inits s i) = Wait_End_Req t tr \<or> thread (inits s i) = Woken t tr"
  shows "at_sys_inv m n pend' s'"
proof -
  note d = at_sys_invD[OF inv]
  have sub: "held_at pend' s' v \<subseteq> held_at pend s v" for v using calls(1)[of v] same(1) by (auto simp: held_at_def)
  have called: "t \<in> held_at pend s v" if "t \<in> set (calls_of BEGIN_RESP (pend v))" for t v
    using that by (auto simp: held_at_def calls_of_def)
  have w: "waiting (ic s') = waiting (ic s)" using same(4) by (auto simp: waiting_def)
  have routed: "routed_to m (ic s') = routed_to m (ic s)" "routed_from n (ic s') = routed_from n (ic s)"
    using same(3) by (auto simp: routed_to_def routed_from_def fun_eq_iff)
  have "routes_inv m n pend' s'"
  proof (rule routes_invI)
    show "routed_to m (ic s') t v" if "v < n" "t \<in> held_at pend' s' v \<or> t \<in> waiting (ic s') v" for v t
      using routes_invD(1)[OF d(5), of v t] that sub[of v] w routed by auto
    show "fst (snd c) = END_REQ \<or> fst (snd c) = BEGIN_RESP" if "v < n" "c \<in> set (pend' v)" for v c
      using routes_invD(2)[OF d(5) that(1), of c] that(2) calls(1)[of v] by blast
    show "routed_from n (ic s') t i" if "i < m" "t \<in> set (responses_at s' i)" for i t
      using more[OF that]
    proof
      assume "\<exists>v<n. t \<in> set (calls_of BEGIN_RESP (pend v)) \<and> map_option rt_init (routes (ic s) t) = Some i"
      then show ?thesis using routes_invD(1)[OF d(5)] called routed by (fastforce simp: routed_to_def routed_from_def)
    qed (use routes_invD(3)[OF d(5) that(1)] routed in simp)
  qed
  moreover have "queues_inv m n pend' s'"
  proof (rule queues_invI)
    show "t \<notin> held_at pend' s' v" if "v < n" "t \<in> waiting (ic s') v" for v t
      using queues_invD(2)[OF d(6) that(1), of t] that w sub[of v] by auto
    show "t \<notin> set (responses_at s' i)" if v: "v < n" and i: "i < m" and t: "t \<in> waiting (ic s') v" for v i t
    proof
      assume "t \<in> set (responses_at s' i)"
      then consider "t \<in> set (responses_at s i)" | u where "u < n" "t \<in> held_at pend s u"
        using more[OF i] called by blast
      then show False
      proof cases
        case 2
        then have "u = v" using routes_invD(1)[OF d(5)] v t w by (metis routed_to_def option.inject)
        then show False using queues_invD(2)[OF d(6) v, of t] 2 t w by simp
      qed (use queues_invD(3)[OF d(6) v i, of t] t w in simp)
    qed
  qed (use queues_invD(1)[OF d(6)] same in simp)
  moreover have "store_inv m n pend' s'"
  proof (rule store_invI)
    have calls': "set (calls_of p (pend' v)) \<subseteq> set (calls_of p (pend v))" for p v using calls[of v] by (auto simp: calls_of_def)
    show "ab_inv (target_at s' v)" if "v < n" for v using store_invD(1)[OF d(7) that] same(1,2) by (simp add: target_at_def)
    show "completed_tx (tx_store s' t)" if "v < n"
        "next_response_pending (tgts s' v) = Some t \<or> t \<in> set (calls_of BEGIN_RESP (pend' v))" for v t
      using store_invD(2)[OF d(7) that(1), of t] that(2) same calls'[of BEGIN_RESP v] by auto
    show "reject (tx_store s' t) = None" if "v < n" "t \<in> held_at pend' s' v \<or> t \<in> waiting (ic s') v" for v t
      using store_invD(3)[OF d(7), of v t] that sub[of v] w same(2) by auto
    show "completed_tx (tx_store s' t) \<and> reject (tx_store s' t) = None" if "i < m" "t \<in> set (responses_at s' i)" for i t
      using more[OF that] store_invD(2,3)[OF d(7)] store_invD(4,5)[OF d(7) that(1)] called same(2) by metis
  qed (use store_invD(6)[OF d(7)] same in simp)
  moreover have "prepared_inv m n pend' s'"
  proof (rule prepared_invI)
    have fl: "in_flight m n s t \<or> (\<exists>v<n. t \<in> held_at pend s v)" if "in_flight m n s' t" for t
      using that more called same(1) w unfolding in_flight_iff by metis
    fix k t assume k: "k < m" "unsent (inits s' k) = Some t"
    then have u: "unsent (inits s k) = Some t" using thr by simp
    show "\<not> in_flight m n s' t" using prepared_invD(1,2)[OF d(8) k(1) u] fl by blast
    show "t \<notin> held_at pend' s' v" if "v < n" for v using prepared_invD(2)[OF d(8) k(1) u that] sub[of v] by blast
    show "unsent (inits s' l) \<noteq> Some t" if "l < m" "l \<noteq> k" for l using prepared_invD(3)[OF d(8) k(1) u that] thr by simp
  next
    fix k t tr assume "k < m" "thread (inits s' k) = Wait_End_Req t tr \<or> thread (inits s' k) = Woken t tr"
    then show "reject tr = None \<and> 4 \<le> length (data tr)" using prepared_invD(4)[OF d(8), of k t tr] thr(2) by blast
  qed
  ultimately show ?thesis using d(1) req resp rcv out by (simp add: at_sys_inv_def)
qed

text \<open>Steps that move no transaction.\<close>

lemma quiet_inv:
  assumes inv: "at_sys_inv m n pend s" and req: "requests_inv n pend' s'" and out: "outstanding_inv m n pend' s'"
    and same: "tgts s' = tgts s" "tx_store s' = tx_store s" "routes (ic s') = routes (ic s)" "req_queue (ic s') = req_queue (ic s)"
      "\<And>i. responses_at s' i = responses_at s i" "\<And>i. response_at s' i = response_at s i"
    and flag: "\<And>i. i < m \<Longrightarrow> end_rsp_event (ic s') i \<or> rsp_queue (ic s') i \<noteq> [] \<Longrightarrow> rsp_in_progress (ic s') i \<noteq> None"
    and calls: "\<And>v. set (pend' v) \<subseteq> set (pend v)" "\<And>v. calls_of BEGIN_RESP (pend' v) = calls_of BEGIN_RESP (pend v)"
    and rcv: "\<And>i. received_responses (inits s' i) = received_responses (inits s i)"
    and phs: "\<And>i e. e \<in> set (init_peq (inits s' i)) \<Longrightarrow> e \<in> set (init_peq (inits s i)) \<or> snd (snd e) \<in> {END_REQ, BEGIN_RESP}"
    and thr: "\<And>i. unsent (inits s' i) = unsent (inits s i)"
      "\<And>i t tr. thread (inits s' i) = Wait_End_Req t tr \<or> thread (inits s' i) = Woken t tr \<Longrightarrow>
         thread (inits s i) = Wait_End_Req t tr \<or> thread (inits s i) = Woken t tr"
  shows "at_sys_inv m n pend' s'"
proof (rule shuffle_inv[OF inv req])
  note d = at_sys_invD[OF inv]
  have "open_responses s' = open_responses s" using same by (simp add: open_responses_def routed_target_def fun_eq_iff)
  then show "responses_inv m n pend' s'" using d(3) flag calls(2) same by (simp add: responses_inv_def)
  have "snd (snd e) \<in> {END_REQ, BEGIN_RESP}" if "i < m" "e \<in> set (init_peq (inits s' i))" for i e
    using phs[OF that(2)] d(4) that(1) by (auto simp: received_inv_def)
  then show "received_inv m s'" using d(4) rcv same(6) by (simp add: received_inv_def)
qed (use assms in simp_all)

lemma put_ic_calls:
  "trace c = trace (ic s) @ cs \<Longrightarrow> put_ic now c s = fold (call_initiator now) cs (s\<lparr>ic := c\<rparr>)"
  by (simp add: put_ic_def new_calls_def)

lemma initiator_hears [simp]:
  "thread (snd (ai_nb_transport_bw now t p dl a)) = thread a" "unsent (snd (ai_nb_transport_bw now t p dl a)) = unsent a"
  "init_peq (snd (ai_nb_transport_bw now t p dl a)) = init_peq a @ [(now + dl, t, p)]"
  "received_responses (snd (ai_nb_transport_bw now t p dl a)) = received_responses a @ (if p = BEGIN_RESP then [t] else [])"
  "at_initiator.req_in_progress (snd (ai_nb_transport_bw now t p dl a)) = at_initiator.req_in_progress a"
  "ended_requests (snd (ai_nb_transport_bw now t p dl a)) = ended_requests a \<union> (if p = END_REQ then {t} else {})"
  by (force simp: ai_nb_transport_bw_def ai_peq_notify_def unsent_def received_responses_def ended_requests_def split: if_splits)+

lemma heard_weight [simp]:
  "init_weight (snd (ai_nb_transport_bw now t p dl a)) = init_weight a + (if p = END_REQ then 1 else 3)"
  by (simp add: init_weight_def thread_work_def ai_nb_transport_bw_def ai_peq_notify_def)

lemma response_at_cong:
  "rsp_in_progress (ic s') i = rsp_in_progress (ic s) i \<Longrightarrow> end_rsp_event (ic s') i = end_rsp_event (ic s) i \<Longrightarrow>
   response_at s' i = response_at s i"
  "rsp_in_progress (ic s') i = rsp_in_progress (ic s) i \<Longrightarrow> end_rsp_event (ic s') i = end_rsp_event (ic s) i \<Longrightarrow>
   rsp_queue (ic s') i = rsp_queue (ic s) i \<Longrightarrow> responses_at s' i = responses_at s i"
  by (simp_all add: response_at_def responses_at_def)

lemma open_request_notified: "open_request (notify_req v c) w = (if w = v then [] else open_request c w)"
  by (simp add: open_request_def notify_req_def)

lemma open_request_made [simp]: "open_request (made x c) = open_request c"
  by (simp add: open_request_def made_def fun_eq_iff)

lemma open_request_Cons:
  assumes "request_ok c v tg ((t, END_REQ, dl) # cs)"
  shows "open_request c v = [t]" "requests_of tg = []" "calls_of END_REQ cs = []" "at_ic.req_in_progress c v = Some t"
    "\<not> end_req_event c v"
proof -
  have o: "requests_of tg @ t # calls_of END_REQ cs = open_request c v" using assms by (simp add: request_ok_def)
  moreover have "length (open_request c v) \<le> 1" by (simp add: open_request_def split: option.split)
  ultimately have l: "length (requests_of tg @ t # calls_of END_REQ cs) \<le> 1" by simp
  then show e: "requests_of tg = []" "calls_of END_REQ cs = []" by simp_all
  then show r: "open_request c v = [t]" using o by simp
  then show "at_ic.req_in_progress c v = Some t" "\<not> end_req_event c v"
    by (auto simp: open_request_def split: if_splits option.splits)
qed

lemma request_ok_cong:
  assumes "request_ok c v tg cs" and "end_req_event c' v = end_req_event c v"
    and "at_ic.req_in_progress c' v = at_ic.req_in_progress c v"
    and "req_queue c' v \<noteq> [] \<Longrightarrow> req_queue c v \<noteq> [] \<or> at_ic.req_in_progress c v \<noteq> None"
  shows "request_ok c' v tg cs"
proof -
  have "open_request c' v = open_request c v" using assms(2,3) by (simp add: open_request_def)
  then show ?thesis using assms unfolding request_ok_def by metis
qed

lemma end_req_answered:
  assumes inv: "at_sys_inv m n (none_pending(v := (t, END_REQ, dl) # cs)) s" and v: "v < n"
  shows "\<exists>c. at_nb_transport_bw now v t END_REQ dl (TLM_ACCEPTED, END_REQ, dl) (ic s) = Some (TLM_ACCEPTED, c) \<and>
    at_sys_inv m n (none_pending(v := cs)) (put_ic now c s) \<and> sys_weight m n (put_ic now c s) \<le> sys_weight m n s + 2"
proof -
  let ?p = "none_pending(v := (t, END_REQ, dl) # cs)"
  note d = at_sys_invD[OF inv]
  have ok: "request_ok (ic s) w (tgts s w) (?p w)" if "w < n" for w using d(2) that by (simp add: requests_inv_def)
  note o = open_request_Cons[OF ok[OF v, unfolded fun_upd_same]]
  have "t \<in> held_at ?p s v" by (simp add: held_at_def)
  then obtain r where r: "routes (ic s) t = Some r" "rt_init r < m"
    using routes_invD(1)[OF d(5) v] by (auto simp: routed_to_def)
  let ?c = "made (Call_Bw (rt_init r) t END_REQ dl) (notify_req v (ic s))"
  have call: "at_nb_transport_bw now v t END_REQ dl (TLM_ACCEPTED, END_REQ, dl) (ic s) = Some (TLM_ACCEPTED, ?c)"
    using o(4) r by (simp add: at_nb_transport_bw_def notify_req_def)
  let ?a = "snd (ai_nb_transport_bw now t END_REQ dl (inits s (rt_init r)))"
  have s': "put_ic now ?c s = s\<lparr>ic := ?c, inits := (inits s)(rt_init r := ?a)\<rparr>"
    by (subst put_ic_calls[of _ _ "[Call_Bw (rt_init r) t END_REQ dl]"]) (simp_all add: made_def notify_req_def)
  let ?s' = "s\<lparr>ic := ?c, inits := (inits s)(rt_init r := ?a)\<rparr>"
  have out: "outstanding_inv m n (none_pending(v := cs)) ?s'"
  proof (rule outstanding_invI[OF d(9)])
    have c: "routes ?c = routes (ic s)" "waiting ?c = waiting (ic s)" by (auto simp: made_def notify_req_def waiting_def)
    show "located n (none_pending(v := cs)) ?s' k u \<or> u \<in> ended_requests (inits ?s' k)" if "located n ?p s k u" for k u
    proof (cases "u = t \<and> k = rt_init r")
      case False
      have "u \<noteq> t" using False that r(1) by (auto simp: located_def)
      show ?thesis by (rule disjI1, rule located_moved[OF that]) (use \<open>u \<noteq> t\<close> in \<open>auto simp: c split: if_splits\<close>)
    qed simp
  qed (auto split: if_splits)
  have "at_sys_inv m n (none_pending(v := cs)) (put_ic now ?c s)"
    unfolding s'
  proof (rule quiet_inv[OF inv _ out])
    show "requests_inv n (none_pending(v := cs)) (s\<lparr>ic := ?c, inits := (inits s)(rt_init r := ?a)\<rparr>)"
      unfolding requests_inv_def
    proof (intro allI impI)
      fix w assume w: "w < n"
      show "request_ok (ic (s\<lparr>ic := ?c, inits := (inits s)(rt_init r := ?a)\<rparr>)) w
          (tgts (s\<lparr>ic := ?c, inits := (inits s)(rt_init r := ?a)\<rparr>) w) ((none_pending(v := cs)) w)"
      proof (cases "w = v")
        case True
        then show ?thesis using ok[OF v] o by (simp add: request_ok_def open_request_notified, simp add: made_def notify_req_def)
      next
        case False
        then show ?thesis using request_ok_cong[OF ok[OF w], of ?c] by (simp add: made_def notify_req_def)
      qed
    qed
    show "end_rsp_event (ic (s\<lparr>ic := ?c, inits := (inits s)(rt_init r := ?a)\<rparr>)) i \<or>
        rsp_queue (ic (s\<lparr>ic := ?c, inits := (inits s)(rt_init r := ?a)\<rparr>)) i \<noteq> [] \<Longrightarrow>
        rsp_in_progress (ic (s\<lparr>ic := ?c, inits := (inits s)(rt_init r := ?a)\<rparr>)) i \<noteq> None" if "i < m" for i
      using d(3) that by (auto simp: responses_inv_def made_def notify_req_def)
  qed (auto simp: made_def notify_req_def intro: response_at_cong split: if_splits)
  moreover have "sys_weight m n (put_ic now ?c s) \<le> sys_weight m n s + 2"
  proof -
    have "sys_weight m n ?s' + initiator_side s (rt_init r) + target_side s v = sys_weight m n s + initiator_side ?s' (rt_init r) + target_side ?s' v"
      by (rule weight_both[OF r(2) _ v]) (simp_all add: initiator_side_def target_side_def made_def notify_req_def)
    then show ?thesis unfolding s' by (simp add: initiator_side_def target_side_def made_def notify_req_def split: if_splits)
  qed
  ultimately show ?thesis using call by blast
qed

text \<open>A response comes to the interconnect: it is passed on, or it waits.\<close>

lemma open_responses_more:
  assumes "mset (responses_at s' i) = add_mset t (mset (responses_at s i))" and "\<And>k. k \<noteq> i \<Longrightarrow> responses_at s' k = responses_at s k"
    and "routed_target (ic s') = routed_target (ic s)" and "routed_target (ic s) t = Some v" and "i < m"
  shows "(\<Sum>k<m. open_responses s' w k) = (\<Sum>k<m. open_responses s w k) + (if w = v then 1 else 0)"
proof -
  have count: "open_responses s0 w k = size (filter_mset (\<lambda>t. routed_target (ic s0) t = Some w) (mset (responses_at s0 k)))" for s0 k
    unfolding open_responses_def by (metis mset_filter size_mset)
  have i: "open_responses s' w i = open_responses s w i + (if w = v then 1 else 0)"
    unfolding count assms(1,3) using assms(4) by simp
  have k: "open_responses s' w k = open_responses s w k" if "k \<noteq> i" for k unfolding count assms(3) using assms(2)[OF that] by simp
  show ?thesis
  proof (cases "w = v")
    case True
    with i k show ?thesis using sum_changed[of i m "open_responses s' w" "open_responses s w"] assms(5) by simp
  next
    case False
    then have "open_responses s' w k = open_responses s w k" for k using i k by (cases "k = i") simp_all
    with False show ?thesis by simp
  qed
qed

lemma notified_again: "end_req_event c v \<Longrightarrow> notify_req v c = c"
  by (simp add: notify_req_def fun_upd_idem)

lemma begin_resp_answered:
  assumes inv: "at_sys_inv m n (none_pending(v := (t, BEGIN_RESP, dl) # cs)) s" and v: "v < n"
  shows "\<exists>c. at_nb_transport_bw now v t BEGIN_RESP dl (TLM_ACCEPTED, BEGIN_RESP, dl) (ic s) = Some (TLM_ACCEPTED, c) \<and>
    at_sys_inv m n (none_pending(v := cs)) (put_ic now c s) \<and> sys_weight m n (put_ic now c s) \<le> sys_weight m n s + 3"
proof -
  let ?p = "none_pending(v := (t, BEGIN_RESP, dl) # cs)"
  note d = at_sys_invD[OF inv]
  have ok: "request_ok (ic s) w (tgts s w) (?p w)" if "w < n" for w using d(2) that by (simp add: requests_inv_def)
  have "t \<in> held_at ?p s v" by (simp add: held_at_def)
  then obtain r where r: "routes (ic s) t = Some r" "rt_init r < m" "rt_target r = v"
    using routes_invD(1)[OF d(5) v] by (auto simp: routed_to_def)
  define i where "i = rt_init r"
  have i: "i < m" using r i_def by simp
  have to: "routed_target (ic s) t = Some v" using r by (simp add: routed_target_def)
  have again: "notify_req v (ic s) = ic s" if "at_ic.req_in_progress (ic s) v = Some t"
    using ok[OF v] that notified_again by (auto simp: request_ok_def open_request_def split: if_splits)
  have flag: "\<not> end_rsp_event (ic s) i" if "rsp_in_progress (ic s) i = None" using d(3) that i by (auto simp: responses_inv_def)
  have req': "requests_inv n (none_pending(v := cs)) s'" if "tgts s' = tgts s" "end_req_event (ic s') = end_req_event (ic s)"
      "at_ic.req_in_progress (ic s') = at_ic.req_in_progress (ic s)" "req_queue (ic s') = req_queue (ic s)" for s'
    unfolding requests_inv_def
  proof (intro allI impI)
    fix w assume "w < n"
    then have "request_ok (ic s) w (tgts s w) ((none_pending(v := cs)) w)" using ok[of w] by (auto simp: request_ok_def)
    then show "request_ok (ic s') w (tgts s' w) ((none_pending(v := cs)) w)" using request_ok_cong that by metis
  qed
  have inv': "at_sys_inv m n (none_pending(v := cs)) s'"
    if same: "tgts s' = tgts s" "tx_store s' = tx_store s" "routes (ic s') = routes (ic s)" "req_queue (ic s') = req_queue (ic s)"
      "end_req_event (ic s') = end_req_event (ic s)" "at_ic.req_in_progress (ic s') = at_ic.req_in_progress (ic s)"
      "\<And>k. thread (inits s' k) = thread (inits s k)"
      "\<And>k. at_initiator.req_in_progress (inits s' k) = at_initiator.req_in_progress (inits s k)"
      "\<And>k. ended_requests (inits s' k) = ended_requests (inits s k)"
      and r1: "mset (responses_at s' i) = add_mset t (mset (responses_at s i))"
      and r2: "\<And>k. k \<noteq> i \<Longrightarrow> responses_at s' k = responses_at s k"
      and fl: "\<And>k. k < m \<Longrightarrow> end_rsp_event (ic s') k \<or> rsp_queue (ic s') k \<noteq> [] \<Longrightarrow> rsp_in_progress (ic s') k \<noteq> None"
      and rcv: "received_inv m s'" for s'
  proof (rule shuffle_inv[OF inv req'[OF same(1,5,6,4)] _ rcv _ same(1-4)])
    have w: "waiting (ic s') = waiting (ic s)" using same(4) by (auto simp: waiting_def)
    show "outstanding_inv m n (none_pending(v := cs)) s'"
    proof (rule outstanding_invI[OF d(9)])
      show "located n (none_pending(v := cs)) s' k u \<or> u \<in> ended_requests (inits s' k)" if "located n ?p s k u" for k u
        by (rule disjI1, rule located_moved[OF that]) (auto simp: same(1,3) w)
    qed (use same in auto)
    have "(\<Sum>k<m. open_responses s' w k) = (\<Sum>k<m. open_responses s w k) + (if w = v then 1 else 0)" for w
      by (rule open_responses_more[OF r1 r2 _ to i]) (use same in \<open>simp_all add: routed_target_def fun_eq_iff\<close>)
    then show "responses_inv m n (none_pending(v := cs)) s'"
      using d(3) fl same by (auto simp: responses_inv_def)
    show "t' \<in> set (responses_at s k) \<or> (\<exists>u<n. t' \<in> set (calls_of BEGIN_RESP (?p u)) \<and> map_option rt_init (routes (ic s) t') = Some k)"
      if "k < m" "t' \<in> set (responses_at s' k)" for k t'
    proof (cases "k = i")
      case True
      then have "t' = t \<or> t' \<in> set (responses_at s k)" using arg_cong[OF r1, of set_mset] that(2) by auto
      then show ?thesis using v r True i_def by auto
    qed (use r2 that in simp)
  qed (use same in \<open>auto simp: unsent_def\<close>)
  show ?thesis
  proof (cases "rsp_in_progress (ic s) i = None")
    case True
    let ?c = "made (Call_Bw i t BEGIN_RESP (dl + 1000)) ((ic s)\<lparr>rsp_in_progress := (rsp_in_progress (ic s))(i := Some t)\<rparr>)"
    let ?a = "snd (ai_nb_transport_bw now t BEGIN_RESP (dl + 1000) (inits s i))"
    let ?s = "s\<lparr>ic := ?c, inits := (inits s)(i := ?a)\<rparr>"
    have "at_nb_transport_bw now v t BEGIN_RESP dl (TLM_ACCEPTED, BEGIN_RESP, dl) (ic s) = Some (TLM_ACCEPTED, ?c)"
      using again r True by (cases "at_ic.req_in_progress (ic s) v = Some t") (simp_all add: at_nb_transport_bw_def i_def Let_def)
    moreover have "put_ic now ?c s = ?s"
      by (subst put_ic_calls[of _ _ "[Call_Bw i t BEGIN_RESP (dl + 1000)]"]) (simp_all add: made_def)
    moreover have "at_sys_inv m n (none_pending(v := cs)) ?s"
    proof (rule inv')
      show "received_inv m ?s"
        using d(4) True flag by (auto simp: received_inv_def made_def response_at_def split: if_splits)
      show "mset (responses_at ?s i) = add_mset t (mset (responses_at s i))"
        using True flag by (simp add: responses_at_def response_at_def made_def)
      show "k < m \<Longrightarrow> end_rsp_event (ic ?s) k \<or> rsp_queue (ic ?s) k \<noteq> [] \<Longrightarrow> rsp_in_progress (ic ?s) k \<noteq> None" for k
        using d(3) by (auto simp: responses_inv_def made_def)
    qed (auto simp: made_def responses_at_def response_at_def)
    moreover have "sys_weight m n ?s \<le> sys_weight m n s + 3"
      using weight_initiator[OF i, of ?s s n] by (simp add: initiator_side_def target_side_def made_def)
    ultimately show ?thesis by metis
  next
    case False
    let ?c = "queue_the_rsp now i t dl (ic s)"
    have "at_nb_transport_bw now v t BEGIN_RESP dl (TLM_ACCEPTED, BEGIN_RESP, dl) (ic s) = Some (TLM_ACCEPTED, ?c)"
      using again r False by (cases "at_ic.req_in_progress (ic s) v = Some t") (simp_all add: at_nb_transport_bw_def i_def Let_def)
    moreover have s': "put_ic now ?c s = s\<lparr>ic := ?c\<rparr>"
      by (subst put_ic_calls[of _ _ "[]"]) (simp_all add: queue_the_rsp_def)
    moreover have "at_sys_inv m n (none_pending(v := cs)) (s\<lparr>ic := ?c\<rparr>)"
    proof (rule inv')
      show "received_inv m (s\<lparr>ic := ?c\<rparr>)" using d(4) by (simp add: received_inv_def queue_the_rsp_def response_at_def)
      show "k < m \<Longrightarrow> end_rsp_event (ic (s\<lparr>ic := ?c\<rparr>)) k \<or> rsp_queue (ic (s\<lparr>ic := ?c\<rparr>)) k \<noteq> [] \<Longrightarrow> rsp_in_progress (ic (s\<lparr>ic := ?c\<rparr>)) k \<noteq> None" for k
        using d(3) False by (auto simp: responses_inv_def queue_the_rsp_def split: if_splits)
    qed (auto simp: queue_the_rsp_def responses_at_def response_at_def)
    moreover have "sys_weight m n (s\<lparr>ic := ?c\<rparr>) \<le> sys_weight m n s + 3"
      using weight_initiator[OF i, of "s\<lparr>ic := ?c\<rparr>" s n] by (simp add: initiator_side_def target_side_def queue_the_rsp_def)
    ultimately show ?thesis by metis
  qed
qed

lemma answer_calls_inv:
  assumes "at_sys_inv m n (none_pending(v := cs)) s" and "v < n"
  shows "\<exists>s'. answer_calls now v cs s = Some s' \<and> at_sys_inv m n none_pending s' \<and> sys_weight m n s' \<le> sys_weight m n s + call_weight cs"
  using assms
proof (induction cs arbitrary: s)
  case (Cons c cs)
  obtain t p dl where c: "c = (t, p, dl)" by (cases c)
  have "p = END_REQ \<or> p = BEGIN_RESP"
    using routes_invD(2)[OF at_sys_invD(5)[OF Cons.prems(1)] Cons.prems(2), of c] c by simp
  then obtain k where k: "at_nb_transport_bw now v t p dl (TLM_ACCEPTED, p, dl) (ic s) = Some (TLM_ACCEPTED, k)"
      "at_sys_inv m n (none_pending(v := cs)) (put_ic now k s)"
      "sys_weight m n (put_ic now k s) + call_weight cs \<le> sys_weight m n s + call_weight (c # cs)"
  proof (elim disjE)
    assume p: "p = END_REQ"
    from end_req_answered[OF Cons.prems(1)[unfolded c p] Cons.prems(2), of now] that show ?thesis
      by (auto simp: call_weight_def c p)
  next
    assume p: "p = BEGIN_RESP"
    from begin_resp_answered[OF Cons.prems(1)[unfolded c p] Cons.prems(2), of now] that show ?thesis
      by (auto simp: call_weight_def c p)
  qed
  obtain s' where "answer_calls now v cs (put_ic now k s) = Some s'" "at_sys_inv m n none_pending s'"
      "sys_weight m n s' \<le> sys_weight m n (put_ic now k s) + call_weight cs"
    using Cons.IH[OF k(2) Cons.prems(2)] by blast
  with k(1,3) show ?case by (simp add: c)
next
  case Nil
  have "none_pending(v := []) = none_pending" by (simp add: fun_eq_iff)
  with Nil show ?case by (simp add: call_weight_def)
qed

section \<open>Steps of the initiators\<close>

text \<open>A transaction that no component holds.\<close>

definition nowhere :: "nat \<Rightarrow> nat \<Rightarrow> at_system \<Rightarrow> nat \<Rightarrow> bool" where
  "nowhere m n s t \<longleftrightarrow> (\<forall>v<n. t \<notin> set (held_txs (tgts s v)) \<and> t \<notin> waiting (ic s) v) \<and> (\<forall>i<m. t \<notin> set (responses_at s i))"

lemma not_in_flight: "\<not> in_flight m n s t \<longleftrightarrow> nowhere m n s t"
  by (auto simp: in_flight_iff nowhere_def)

lemma held_at_none [simp]: "held_at none_pending s v = set (held_txs (tgts s v))"
  by (simp add: held_at_def)

lemma inits_parts [simp]:
  "responses_at (s\<lparr>inits := x\<rparr>) = responses_at s" "response_at (s\<lparr>inits := x\<rparr>) = response_at s"
  "responses_at (s\<lparr>tx_store := y\<rparr>) = responses_at s" "response_at (s\<lparr>tx_store := y\<rparr>) = response_at s"
  "open_responses (s\<lparr>inits := x\<rparr>) = open_responses s" "open_responses (s\<lparr>tx_store := y\<rparr>) = open_responses s"
  "held_at p (s\<lparr>inits := x\<rparr>) = held_at p s" "held_at p (s\<lparr>tx_store := y\<rparr>) = held_at p s"
  "in_flight m n (s\<lparr>inits := x\<rparr>) = in_flight m n s" "in_flight m n (s\<lparr>tx_store := y\<rparr>) = in_flight m n s"
  "nowhere m n (s\<lparr>inits := x\<rparr>) = nowhere m n s" "nowhere m n (s\<lparr>tx_store := y\<rparr>) = nowhere m n s"
  "target_at (s\<lparr>inits := x\<rparr>) = target_at s"
  "located n p (s\<lparr>inits := x\<rparr>) = located n p s" "located n p (s\<lparr>tx_store := y\<rparr>) = located n p s"
  by (simp_all add: responses_at_def response_at_def open_responses_def held_at_def in_flight_iff nowhere_def target_at_def located_def fun_eq_iff
      cong: if_cong option.case_cong)

lemma initiator_inv:
  assumes inv: "at_sys_inv m n none_pending s"
    and rcv: "received_responses a = received_responses (inits s i)"
    and phs: "\<And>e. e \<in> set (init_peq a) \<Longrightarrow> e \<in> set (init_peq (inits s i)) \<or> snd (snd e) \<in> {END_REQ, BEGIN_RESP}"
    and uns: "\<And>t. i < m \<Longrightarrow> unsent a = Some t \<Longrightarrow> nowhere m n s t \<and> (\<forall>k<m. k \<noteq> i \<longrightarrow> unsent (inits s k) \<noteq> Some t)"
    and thr: "\<And>t tr. i < m \<Longrightarrow> thread a = Wait_End_Req t tr \<or> thread a = Woken t tr \<Longrightarrow> reject tr = None \<and> 4 \<le> length (data tr)"
    and out: "\<And>t. i < m \<Longrightarrow> at_initiator.req_in_progress a = Some t \<Longrightarrow> located n none_pending s i t \<or> t \<in> ended_requests a"
      "\<And>t tr. i < m \<Longrightarrow> thread a = Wait_End_Req t tr \<Longrightarrow> at_initiator.req_in_progress a \<noteq> None"
  shows "at_sys_inv m n none_pending (s\<lparr>inits := (inits s)(i := a)\<rparr>)"
proof -
  let ?s = "s\<lparr>inits := (inits s)(i := a)\<rparr>"
  note d = at_sys_invD[OF inv]
  have "received_inv m ?s"
    unfolding received_inv_def
  proof (intro allI impI)
    fix k assume k: "k < m"
    have old: "received_responses (inits s k) = response_at s k" "\<forall>e \<in> set (init_peq (inits s k)). snd (snd e) \<in> {END_REQ, BEGIN_RESP}"
      using d(4) k by (simp_all add: received_inv_def)
    show "received_responses (inits ?s k) = response_at ?s k \<and> (\<forall>e \<in> set (init_peq (inits ?s k)). snd (snd e) \<in> {END_REQ, BEGIN_RESP})"
    proof (cases "k = i")
      case True
      have "snd (snd e) \<in> {END_REQ, BEGIN_RESP}" if "e \<in> set (init_peq a)" for e using phs[OF that] old(2) True by blast
      then show ?thesis using old(1) rcv True by simp
    qed (use old in simp)
  qed
  moreover have "prepared_inv m n none_pending ?s"
  proof (rule prepared_invI)
    fix k t assume k: "k < m" "unsent (inits ?s k) = Some t"
    have *: "nowhere m n s t \<and> (\<forall>l<m. l \<noteq> k \<longrightarrow> unsent (inits s l) \<noteq> Some t)"
    proof (cases "k = i")
      case False
      then show ?thesis using prepared_invD(1,3)[OF d(8) k(1), of t] k(2) by (simp add: not_in_flight)
    qed (use uns k in simp)
    show "\<not> in_flight m n ?s t" using * by (simp add: not_in_flight)
    show "t \<notin> held_at none_pending ?s v" if "v < n" for v using * that by (simp add: nowhere_def)
    show "unsent (inits ?s l) \<noteq> Some t" if "l < m" "l \<noteq> k" for l
      using * that k uns[of t] by (cases "l = i") auto
  next
    fix k t tr assume "k < m" "thread (inits ?s k) = Wait_End_Req t tr \<or> thread (inits ?s k) = Woken t tr"
    then show "reject tr = None \<and> 4 \<le> length (data tr)"
      using prepared_invD(4)[OF d(8), of k t tr] thr[of t tr] by (cases "k = i") simp_all
  qed
  moreover have "outstanding_inv m n none_pending ?s"
    unfolding outstanding_inv_def
  proof (intro allI impI conjI)
    fix k t assume k: "k < m" "at_initiator.req_in_progress (inits ?s k) = Some t"
    show "located n none_pending ?s k t \<or> t \<in> ended_requests (inits ?s k)"
      using k out(1)[of t] d(9) by (cases "k = i") (simp_all add: outstanding_inv_def)
  next
    fix k t tr assume k: "k < m" "thread (inits ?s k) = Wait_End_Req t tr"
    show "at_initiator.req_in_progress (inits ?s k) \<noteq> None"
    proof (cases "k = i")
      case False
      then show ?thesis using k d(9) unfolding outstanding_inv_def by auto
    qed (use k out(2)[of t tr] in simp)
  qed
  moreover have "requests_inv n none_pending ?s" "responses_inv m n none_pending ?s" "routes_inv m n none_pending ?s"
      "queues_inv m n none_pending ?s" "store_inv m n none_pending ?s"
    using d by (simp_all add: requests_inv_def responses_inv_def routes_inv_def queues_inv_def store_inv_def)
  ultimately show ?thesis using d(1) by (simp add: at_sys_inv_def)
qed

lemma initiator_weight:
  assumes "i < m"
  shows "sys_weight m n (s\<lparr>inits := (inits s)(i := a)\<rparr>) + init_weight (inits s i) = sys_weight m n s + init_weight a"
  using weight_initiator[OF assms, of "s\<lparr>inits := (inits s)(i := a)\<rparr>" s n] by (simp add: initiator_side_def target_side_def)

lemma store_weight [simp]: "sys_weight m n (s\<lparr>tx_store := x\<rparr>) = sys_weight m n s"
  by (simp add: sys_weight_def initiator_side_def target_side_def)

lemma store_written:
  assumes inv: "at_sys_inv m n none_pending s" and t: "nowhere m n s t" and tr: "4 \<le> length (data tr)"
  shows "at_sys_inv m n none_pending (s\<lparr>tx_store := (tx_store s)(t := tr)\<rparr>)"
proof -
  let ?s = "s\<lparr>tx_store := (tx_store s)(t := tr)\<rparr>"
  note d = at_sys_invD[OF inv]
  have len: "4 \<le> length (data (tx_store ?s u))" for u using store_invD(6)[OF d(7), of u] tr by simp
  have same: "v < n \<Longrightarrow> u \<in> set (held_txs (tgts s v)) \<or> u \<in> waiting (ic s) v \<Longrightarrow> u \<noteq> t"
      "k < m \<Longrightarrow> u \<in> set (responses_at s k) \<Longrightarrow> u \<noteq> t" for u v k
    using t by (auto simp: nowhere_def)
  have "store_inv m n none_pending ?s"
  proof (rule store_invI)
    show "ab_inv (target_at ?s v)" if "v < n" for v
      using ab_inv_attrs[OF store_invD(1)[OF d(7) that], of "tx_store ?s"] len by (simp add: target_at_def)
    show "completed_tx (tx_store ?s u)"
      if "v < n" "next_response_pending (tgts ?s v) = Some u \<or> u \<in> set (calls_of BEGIN_RESP [])" for v u
    proof -
      have u: "next_response_pending (tgts s v) = Some u" using that(2) by simp
      then have "u \<in> set (held_txs (tgts s v))" by (simp add: held_txs_def)
      with same(1)[of v u] that(1) store_invD(2)[OF d(7) that(1), of u] u show ?thesis by simp
    qed
    show "reject (tx_store ?s u) = None" if "v < n" "u \<in> held_at none_pending ?s v \<or> u \<in> waiting (ic ?s) v" for v u
      using same(1)[of v u] store_invD(3)[OF d(7), of v u] that by simp
    show "completed_tx (tx_store ?s u) \<and> reject (tx_store ?s u) = None" if "k < m" "u \<in> set (responses_at ?s k)" for k u
      using same(2)[of k u] store_invD(4,5)[OF d(7) that(1), of u] that by simp
  qed (rule len)
  moreover have "requests_inv n none_pending ?s" "responses_inv m n none_pending ?s" "received_inv m ?s" "routes_inv m n none_pending ?s"
      "queues_inv m n none_pending ?s" "prepared_inv m n none_pending ?s" "outstanding_inv m n none_pending ?s"
    using d by (simp_all add: requests_inv_def responses_inv_def received_inv_def routes_inv_def queues_inv_def prepared_inv_def outstanding_inv_def)
  ultimately show ?thesis using d(1) by (simp add: at_sys_inv_def)
qed

section \<open>Requests\<close>

text \<open>A transaction comes to a target, or to its queue in the interconnect.\<close>

lemma placed_inv:
  assumes inv: "at_sys_inv m n none_pending s" and v: "v < n"
    and req: "requests_inv n none_pending s'" and ab: "\<And>w. w < n \<Longrightarrow> ab_inv (target_at s' w)"
    and resp: "\<And>w. w < n \<Longrightarrow> txs_of (Tlm END_RESP) (tgts s' w) = txs_of (Tlm END_RESP) (tgts s w) \<and> answering (tgts s' w) = answering (tgts s w) \<and>
        next_response_pending (tgts s' w) = next_response_pending (tgts s w)"
    and held: "\<And>w. w < n \<Longrightarrow> set (held_txs (tgts s' w)) \<subseteq> set (held_txs (tgts s w)) \<union> (if w = v then {t} else {})"
    and wait: "\<And>w. w < n \<Longrightarrow> waiting (ic s') w \<subseteq> waiting (ic s) w \<union> (if w = v then {t} else {})"
      "\<And>w. w < n \<Longrightarrow> distinct (map fst (req_queue (ic s') w))" "t \<in> set (held_txs (tgts s' v)) \<Longrightarrow> t \<notin> waiting (ic s') v"
    and same: "inits s' = inits s" "tx_store s' = tx_store s" "rsp_queue (ic s') = rsp_queue (ic s)"
      "rsp_in_progress (ic s') = rsp_in_progress (ic s)" "end_rsp_event (ic s') = end_rsp_event (ic s)"
    and route: "\<And>u. u \<noteq> t \<Longrightarrow> routes (ic s') u = routes (ic s) u" "routed_to m (ic s') t v"
    and new: "\<And>w. w < n \<Longrightarrow> t \<notin> set (held_txs (tgts s w)) \<and> (w \<noteq> v \<longrightarrow> t \<notin> waiting (ic s) w)"
      "\<And>i. i < m \<Longrightarrow> t \<notin> set (responses_at s i)" "\<And>k. k < m \<Longrightarrow> unsent (inits s k) \<noteq> Some t"
    and rej: "reject (tx_store s t) = None" and asked: "\<And>w. w < n \<Longrightarrow> set (requests_of (tgts s w)) \<subseteq> set (requests_of (tgts s' w))"
    and kept: "\<And>w. w < n \<Longrightarrow> waiting (ic s) w \<subseteq> waiting (ic s') w \<union> set (requests_of (tgts s' w))"
    and origin: "t \<in> waiting (ic s) v \<Longrightarrow> routes (ic s') t = routes (ic s) t"
  shows "at_sys_inv m n none_pending s'"
proof -
  note d = at_sys_invD[OF inv]
  have resps: "responses_at s' i = responses_at s i" "response_at s' i = response_at s i" for i
    by (rule response_at_cong; simp add: same)+
  have opened: "open_responses s' w i = open_responses s w i" if "i < m" for w i
  proof -
    have "routed_target (ic s') u = routed_target (ic s) u" if "u \<in> set (responses_at s i)" for u
      using route(1)[of u] new(2)[OF \<open>i < m\<close>] that by (cases "u = t") (simp_all add: routed_target_def)
    then have "filter (\<lambda>u. routed_target (ic s') u = Some w) (responses_at s i) = filter (\<lambda>u. routed_target (ic s) u = Some w) (responses_at s i)"
      by (intro filter_cong) simp_all
    then show ?thesis by (simp add: open_responses_def resps)
  qed
  have routed: "routed_to m (ic s') u w \<longleftrightarrow> routed_to m (ic s) u w" "routed_from n (ic s') u i \<longleftrightarrow> routed_from n (ic s) u i" if "u \<noteq> t" for u w i
    using route(1)[OF that] by (simp_all add: routed_to_def routed_from_def)
  have old: "w < n \<Longrightarrow> u \<in> set (held_txs (tgts s' w)) \<or> u \<in> waiting (ic s') w \<Longrightarrow>
      u \<in> set (held_txs (tgts s w)) \<or> u \<in> waiting (ic s) w \<or> u = t \<and> w = v" for u w
    using held[of w] wait(1)[of w] by (auto split: if_splits)
  have "(\<Sum>i<m. open_responses s' w i) = (\<Sum>i<m. open_responses s w i)" for w by (rule sum.cong[OF refl]) (simp add: opened)
  then have "responses_inv m n none_pending s'" using d(3) resp same by (simp add: responses_inv_def)
  moreover have "received_inv m s'" using d(4) same resps by (simp add: received_inv_def)
  moreover have "routes_inv m n none_pending s'"
  proof (rule routes_invI)
    show "routed_to m (ic s') u w" if "w < n" "u \<in> held_at none_pending s' w \<or> u \<in> waiting (ic s') w" for w u
    proof (cases "u = t")
      case True
      then show ?thesis using old[OF that(1)] that(2) new(1)[OF that(1)] route(2) by auto
    next
      case False
      then show ?thesis using old[OF that(1), of u] that routes_invD(1)[OF d(5) that(1), of u] routed(1) by auto
    qed
    show "routed_from n (ic s') u i" if "i < m" "u \<in> set (responses_at s' i)" for i u
      using routes_invD(3)[OF d(5) that(1), of u] that(2) new(2)[OF that(1)] routed(2)[of u i] resps by auto
  qed simp
  moreover have "queues_inv m n none_pending s'"
  proof (rule queues_invI)
    show "u \<notin> held_at none_pending s' w" if w: "w < n" and u: "u \<in> waiting (ic s') w" for w u
    proof (cases "u = t")
      case True
      then have "w = v" using new(1)[OF w] wait(1)[OF w] u by (auto split: if_splits)
      then show ?thesis using wait(3) u True by auto
    next
      case False
      then show ?thesis using held[OF w] wait(1)[OF w] u queues_invD(2)[OF d(6) w, of u] by (auto split: if_splits)
    qed
    show "u \<notin> set (responses_at s' i)" if "w < n" "i < m" "u \<in> waiting (ic s') w" for w i u
      using new(2)[OF that(2)] wait(1)[OF that(1)] that(3) queues_invD(3)[OF d(6) that(1,2), of u] resps by (auto split: if_splits)
  qed (rule wait(2))
  moreover have "store_inv m n none_pending s'"
  proof (rule store_invI)
    show "completed_tx (tx_store s' u)"
      if "w < n" "next_response_pending (tgts s' w) = Some u \<or> u \<in> set (calls_of BEGIN_RESP [])" for w u
      using store_invD(2)[OF d(7) that(1), of u] that resp[OF that(1)] same by simp
    show "reject (tx_store s' u) = None" if "w < n" "u \<in> held_at none_pending s' w \<or> u \<in> waiting (ic s') w" for w u
      using old[OF that(1), of u] that store_invD(3)[OF d(7) that(1), of u] rej same by auto
    show "completed_tx (tx_store s' u) \<and> reject (tx_store s' u) = None" if "i < m" "u \<in> set (responses_at s' i)" for i u
      using store_invD(4,5)[OF d(7) that(1), of u] that(2) same resps by simp
    show "4 \<le> length (data (tx_store s' u))" for u using store_invD(6)[OF d(7), of u] same by simp
  qed (rule ab)
  moreover have "prepared_inv m n none_pending s'"
  proof (rule prepared_invI)
    fix k u assume k: "k < m" "unsent (inits s' k) = Some u"
    then have u: "unsent (inits s k) = Some u" "u \<noteq> t" using same(1) new(3) by auto
    have "nowhere m n s u" using prepared_invD(1)[OF d(8) k(1) u(1)] by (simp add: not_in_flight)
    then have *: "nowhere m n s' u" using old[of _ u] u(2) resps unfolding nowhere_def by metis
    then show "\<not> in_flight m n s' u" by (simp add: not_in_flight)
    show "u \<notin> held_at none_pending s' w" if "w < n" for w using * that by (simp add: nowhere_def)
    show "unsent (inits s' l) \<noteq> Some u" if "l < m" "l \<noteq> k" for l using prepared_invD(3)[OF d(8) k(1) u(1) that] same(1) by simp
  next
    fix k u tr assume "k < m" "thread (inits s' k) = Wait_End_Req u tr \<or> thread (inits s' k) = Woken u tr"
    then show "reject tr = None \<and> 4 \<le> length (data tr)" using prepared_invD(4)[OF d(8), of k u tr] same(1) by simp
  qed
  moreover have "outstanding_inv m n none_pending s'"
  proof (rule outstanding_invI[OF d(9)])
    have rt: "routes (ic s') u = routes (ic s) u" if "w < n" "u \<in> waiting (ic s) w \<or> u \<in> set (requests_of (tgts s w))" for u w
    proof (cases "u = t")
      case True
      have "w = v \<and> t \<in> waiting (ic s) w" using new(1)[OF that(1)] that(2) True by (auto simp: held_parts dest: subsetD[OF txs_peq])
      then show ?thesis using origin True by blast
    qed (rule route(1))
    show "located n none_pending s' k u \<or> u \<in> ended_requests (inits s' k)" if "located n none_pending s k u" for k u
    proof (rule disjI1, rule located_moved[OF that])
      show "map_option rt_init (routes (ic s') u) = map_option rt_init (routes (ic s) u)"
        using that rt[of _ u] by (auto simp: located_def)
      show "u \<in> waiting (ic s') w \<or> u \<in> set (requests_of (tgts s' w)) \<or> u \<in> set (calls_of END_REQ [])"
        if "w < n" "u \<in> waiting (ic s) w \<or> u \<in> set (requests_of (tgts s w)) \<or> u \<in> set (calls_of END_REQ [])" for w
        using asked[OF that(1)] kept[OF that(1)] that(2) by auto
    qed
  qed (simp_all add: same)
  ultimately show ?thesis using d(1) req by (simp add: at_sys_inv_def)
qed

lemma target_accepts:
  assumes "reject (tx_store s t) = None"
  shows "call_target now v t p delay s = ((TLM_ACCEPTED, p, delay), put_target v (peq_notify (now + delay) t (Tlm p) (target_at s v)) s)"
proof -
  have "set_payload t (tx_store s t) (target_at s v) = target_at s v" by (simp add: set_payload_def target_at_def)
  then show ?thesis using assms by (simp add: call_target_def a_nb_transport_fw_def)
qed

lemma requests_ended: "requests_of tg = [] \<Longrightarrow> entries (Tlm BEGIN_REQ) tg = 0 \<and> end_req_pending tg = None"
  by (auto simp: requests_of_def entries_txs split: option.splits)

lemma notified_parts:
  "answering (peq_notify time t q tg) = answering tg" "requests_of (peq_notify time t (Tlm BEGIN_REQ) tg) =
     txs_of (Tlm BEGIN_REQ) tg @ t # (case end_req_pending tg of None \<Rightarrow> [] | Some t \<Rightarrow> [t])"
  "work_of (peq_notify time t (Tlm p) tg) = work_of tg"
  by (simp_all add: held_txs_def peq_notify_def answering_def requests_of_def work_of_def txs_of_def)

lemma notified_held: "set (held_txs (peq_notify time t q tg)) = insert t (set (held_txs tg))"
  by (auto simp: held_txs_def peq_notify_def split: option.splits)

lemma notified_weight:
  "target_weight (peq_notify time t (Tlm p) (target_at s v)) =
     target_weight (tgts s v) + (if p = BEGIN_REQ then 7 else if p = END_RESP then 1 else 0)"
  by (simp add: target_weight_def target_at_def)

text \<open>A target gets a request when no other is open there.\<close>

lemma request_given:
  assumes inv: "at_sys_inv m n none_pending s" and v: "v < n" and free: "open_request (ic s) v = []"
    and s': "s' = put_target v (peq_notify time t (Tlm BEGIN_REQ) (target_at s v)) s\<lparr>ic := c\<rparr>"
    and here: "at_ic.req_in_progress c v = Some t" "\<not> end_req_event c v"
      "\<And>w. w \<noteq> v \<Longrightarrow> at_ic.req_in_progress c w = at_ic.req_in_progress (ic s) w \<and> end_req_event c w = end_req_event (ic s) w"
    and wait: "\<And>w. waiting c w \<subseteq> waiting (ic s) w" "t \<notin> waiting c v" "\<And>w. w < n \<Longrightarrow> distinct (map fst (req_queue c w))"
    and same: "rsp_queue c = rsp_queue (ic s)" "rsp_in_progress c = rsp_in_progress (ic s)" "end_rsp_event c = end_rsp_event (ic s)"
    and route: "\<And>u. u \<noteq> t \<Longrightarrow> routes c u = routes (ic s) u" "routed_to m c t v"
    and new: "\<And>w. w < n \<Longrightarrow> t \<notin> set (held_txs (tgts s w)) \<and> (w \<noteq> v \<longrightarrow> t \<notin> waiting (ic s) w)"
      "\<And>i. i < m \<Longrightarrow> t \<notin> set (responses_at s i)" "\<And>k. k < m \<Longrightarrow> unsent (inits s k) \<noteq> Some t"
    and rej: "reject (tx_store s t) = None"
    and kept: "\<And>w. w < n \<Longrightarrow> waiting (ic s) w \<subseteq> waiting c w \<union> (if w = v then {t} else {})"
    and origin: "t \<in> waiting (ic s) v \<Longrightarrow> routes c t = routes (ic s) t"
  shows "at_sys_inv m n none_pending s'"
proof (rule placed_inv[OF inv v _ _ _ _ _ _ _ _ _ _ _ _ _ _ new rej])
  note d = at_sys_invD[OF inv]
  have ok: "request_ok (ic s) w (tgts s w) []" if "w < n" for w using d(2) that by (simp add: requests_inv_def)
  have none: "requests_of (tgts s v) = []" using ok[OF v] free by (simp add: request_ok_def)
  note e = requests_ended[OF none]
  have e': "txs_of (Tlm BEGIN_REQ) (tgts s v) = []" "end_req_pending (tgts s v) = None" using e by (simp_all add: entries_txs)
  let ?tg = "peq_notify time t (Tlm BEGIN_REQ) (target_at s v)"
  have tv: "tgts s' w = (if w = v then ?tg else tgts s w)" for w unfolding s' by simp
  have tend: "end_req_pending (target_at s v) = None" using e' by (simp add: target_at_def)
  show "requests_inv n none_pending s'"
    unfolding requests_inv_def
  proof (intro allI impI)
    fix w assume w: "w < n"
    show "request_ok (ic s') w (tgts s' w) []"
    proof (cases "w = v")
      case True
      have "t \<notin> set (work_of (tgts s v))" using new(1)[OF v] txs_peq[of Internal_Ph "tgts s v"] by (auto simp: held_parts)
      then have "request_ok c v ?tg []"
        using here(1,2) e' tend by (simp add: request_ok_def notified_parts open_request_def)
      then show ?thesis unfolding tv using True s' by simp
    next
      case False
      have "req_queue c w \<noteq> [] \<Longrightarrow> req_queue (ic s) w \<noteq> []" using wait(1)[of w] by (auto simp: waiting_def)
      then have "request_ok c w (tgts s w) []" using request_ok_cong[OF ok[OF w], of c] here(3)[OF False] by blast
      then show ?thesis unfolding tv using False s' by simp
    qed
  qed
  show "ab_inv (target_at s' w)" if w: "w < n" for w
  proof (cases "w = v")
    case True
    have "entries (Tlm BEGIN_REQ) (target_at s v) = 0" using e' by (simp add: entries_txs)
    then have "ab_inv ?tg" using store_invD(1)[OF d(7) v] tend by (simp add: ab_inv_def)
    moreover have "target_at s' v = ?tg" unfolding s' by (simp add: target_at_def peq_notify_def)
    ultimately show ?thesis using True by simp
  next
    case False
    then have "target_at s' w = target_at s w" unfolding s' by (simp add: target_at_def)
    then show ?thesis using store_invD(1)[OF d(7) w] by simp
  qed
  show "txs_of (Tlm END_RESP) (tgts s' w) = txs_of (Tlm END_RESP) (tgts s w) \<and> answering (tgts s' w) = answering (tgts s w) \<and>
      next_response_pending (tgts s' w) = next_response_pending (tgts s w)" if "w < n" for w
    unfolding tv by (simp add: notified_parts)
  show "set (held_txs (tgts s' w)) \<subseteq> set (held_txs (tgts s w)) \<union> (if w = v then {t} else {})" if "w < n" for w
    unfolding tv by (auto simp: notified_held)
  show "waiting (ic s') w \<subseteq> waiting (ic s) w \<union> (if w = v then {t} else {})" for w using wait(1)[of w] s' by auto
  have asked: "set (requests_of (tgts s' w)) = (if w = v then {t} else set (requests_of (tgts s w)))" for w
    unfolding tv using e' tend by (simp add: notified_parts)
  show "set (requests_of (tgts s w)) \<subseteq> set (requests_of (tgts s' w))" for w unfolding asked using none by simp
  show "waiting (ic s) w \<subseteq> waiting (ic s') w \<union> set (requests_of (tgts s' w))" if "w < n" for w
    unfolding asked using kept[OF that] s' by (auto split: if_splits)
  show "t \<in> waiting (ic s) v \<Longrightarrow> routes (ic s') t = routes (ic s) t" using origin s' by simp
qed (use wait same route s' in simp_all)

text \<open>A request waits in the interconnect.\<close>

lemma request_queued:
  assumes inv: "at_sys_inv m n none_pending s" and v: "v < n"
    and here: "at_ic.req_in_progress c = at_ic.req_in_progress (ic s)" "end_req_event c = end_req_event (ic s)"
      "req_queue c = (req_queue (ic s))(v := req_queue (ic s) v @ [(t, time)])"
    and same: "rsp_queue c = rsp_queue (ic s)" "rsp_in_progress c = rsp_in_progress (ic s)" "end_rsp_event c = end_rsp_event (ic s)"
    and route: "\<And>u. u \<noteq> t \<Longrightarrow> routes c u = routes (ic s) u" "routed_to m c t v"
    and new: "nowhere m n s t" "\<And>k. k < m \<Longrightarrow> unsent (inits s k) \<noteq> Some t"
    and rej: "reject (tx_store s t) = None" and busy: "at_ic.req_in_progress (ic s) v \<noteq> None"
  shows "at_sys_inv m n none_pending (s\<lparr>ic := c\<rparr>)"
proof (rule placed_inv[OF inv v _ _ _ _ _ _ _ _ _ _ _ _ _ _ _ _ new(2) rej])
  note d = at_sys_invD[OF inv]
  show "requests_inv n none_pending (s\<lparr>ic := c\<rparr>)"
    unfolding requests_inv_def
  proof (intro allI impI)
    fix w assume "w < n"
    then have "request_ok (ic s) w (tgts s w) []" using d(2) by (simp add: requests_inv_def)
    then show "request_ok (ic (s\<lparr>ic := c\<rparr>)) w (tgts (s\<lparr>ic := c\<rparr>) w) []" using request_ok_cong[of "ic s" w _ _ c] here busy
      by (simp split: if_splits)
  qed
  show "ab_inv (target_at (s\<lparr>ic := c\<rparr>) w)" if "w < n" for w using store_invD(1)[OF d(7) that] by (simp add: target_at_def)
  show "waiting (ic (s\<lparr>ic := c\<rparr>)) w \<subseteq> waiting (ic s) w \<union> (if w = v then {t} else {})" for w
    using here(3) by (auto simp: waiting_def)
  show "waiting (ic s) w \<subseteq> waiting (ic (s\<lparr>ic := c\<rparr>)) w \<union> set (requests_of (tgts (s\<lparr>ic := c\<rparr>) w))" for w
    using here(3) by (auto simp: waiting_def)
  show "t \<in> waiting (ic s) v \<Longrightarrow> routes (ic (s\<lparr>ic := c\<rparr>)) t = routes (ic s) t" using new(1) v by (simp add: nowhere_def)
  have "t \<notin> fst ` set (req_queue (ic s) v)" using new(1) v by (simp add: nowhere_def waiting_def)
  then show "distinct (map fst (req_queue (ic (s\<lparr>ic := c\<rparr>)) w))" if "w < n" for w
    using queues_invD(1)[OF d(6) that] here(3) by auto
qed (use v same route new(1) in \<open>simp_all add: nowhere_def\<close>)

lemma decoded_target: "0 < n \<Longrightarrow> fst (at_decode n a) < n"
  by (simp add: at_decode_def)

lemma reject_address [simp]: "reject (tr\<lparr>address := a\<rparr>) = reject tr"
  by (simp add: reject_def)

lemma request_called:
  assumes inv: "at_sys_inv m n none_pending s" and i: "i < m" and t: "nowhere m n s t" "\<And>k. k < m \<Longrightarrow> unsent (inits s k) \<noteq> Some t"
    and rej: "reject (tx_store s t) = None"
    and a: "unsent a = None" "init_peq a = init_peq (inits s i)" "at_initiator.req_in_progress a = Some t"
  shows "\<exists>s'. call_interconnect n now i t BEGIN_REQ delay (s\<lparr>inits := (inits s)(i := a)\<rparr>) = Some s' \<and> at_sys_inv m n none_pending s' \<and>
    sys_weight m n s' \<le> sys_weight m n (s\<lparr>inits := (inits s)(i := a)\<rparr>) + 7"
proof -
  note d = at_sys_invD[OF inv]
  have recorded: "at_sys_inv m n none_pending (s1\<lparr>inits := (inits s)(i := a)\<rparr>)"
    if "at_sys_inv m n none_pending s1" "inits s1 = inits s" "located n none_pending s1 i t" for s1
  proof -
    have "at_sys_inv m n none_pending (s1\<lparr>inits := (inits s1)(i := a)\<rparr>)"
      by (rule initiator_inv[OF that(1)])
        (use a that(2,3) in \<open>auto simp: received_responses_def unsent_def split: at_thread.splits\<close>)
    then show ?thesis using that(2) by simp
  qed
  obtain v adr where dec: "at_decode n (address (tx_store s t)) = (v, adr)" by (cases "at_decode n (address (tx_store s t))")
  have v: "v < n" using decoded_target[OF d(1), of "address (tx_store s t)"] dec by simp
  let ?s = "s\<lparr>tx_store := (tx_store s)(t := (tx_store s t)\<lparr>address := adr\<rparr>)\<rparr>"
  have inv1: "at_sys_inv m n none_pending ?s" using store_written[OF inv t(1)] store_invD(6)[OF d(7), of t] by simp
  have rej1: "reject (tx_store ?s t) = None" using rej by simp
  have t1: "nowhere m n ?s t" "\<And>k. k < m \<Longrightarrow> unsent (inits ?s k) \<noteq> Some t" using t by simp_all
  let ?si = "s\<lparr>inits := (inits s)(i := a), tx_store := (tx_store s)(t := (tx_store s t)\<lparr>address := adr\<rparr>)\<rparr>"
  let ?called = "put_target v (peq_notify (now + delay) t (Tlm BEGIN_REQ) (target_at ?s v)) ?s"
  let ?calledi = "put_target v (peq_notify (now + delay) t (Tlm BEGIN_REQ) (target_at ?s v)) ?si"
  have call: "call_target now v t BEGIN_REQ delay ?si = ((TLM_ACCEPTED, BEGIN_REQ, delay), ?calledi)"
  proof -
    have "target_at ?si v = target_at ?s v" by (simp add: target_at_def)
    then show ?thesis using target_accepts[of ?si t now v BEGIN_REQ delay] rej1 by simp
  qed
  let ?r = "(routes (ic s))(t \<mapsto> \<lparr>rt_init = i, rt_target = v, dont_propagate_fw = False\<rparr>)"
  show ?thesis
  proof (cases "at_ic.req_in_progress (ic s) v = None")
    case False
    let ?c = "made (Reply i t TLM_ACCEPTED BEGIN_REQ) ((ic s)\<lparr>routes := ?r, held := (held (ic s))(t := held (ic s) t + 1),
      req_queue := (req_queue (ic s))(v := req_queue (ic s) v @ [(t, now + delay)])\<rparr>)"
    have fw: "at_nb_transport_fw n now i t (address (tx_store s t)) BEGIN_REQ delay (TLM_ACCEPTED, BEGIN_REQ, delay) (ic s) = Some (adr, ?c)"
      using False dec by (simp add: at_nb_transport_fw_def)
    have put: "put_ic now ?c ?si = ?si\<lparr>ic := ?c\<rparr>"
      by (subst put_ic_calls[of _ _ "[Reply i t TLM_ACCEPTED BEGIN_REQ]"]) (simp_all add: made_def)
    have none: "Call_Fw v t BEGIN_REQ delay \<notin> set (new_calls (ic s) ?c)" by (simp add: new_calls_def made_def)
    have "last (trace ?c) = Reply i t TLM_ACCEPTED BEGIN_REQ" by (simp add: made_def)
    then have step: "call_interconnect n now i t BEGIN_REQ delay (s\<lparr>inits := (inits s)(i := a)\<rparr>) = Some (?si\<lparr>ic := ?c\<rparr>)"
      using dec call fw put none by (simp add: call_interconnect_def Let_def)
    have inv': "at_sys_inv m n none_pending (?s\<lparr>ic := ?c\<rparr>)"
      by (rule request_queued[OF inv1 v _ _ _ _ _ _ _ _ t1 rej1]) (use i False in \<open>simp_all add: made_def routed_to_def\<close>)
    have eq: "?si\<lparr>ic := ?c\<rparr> = ?s\<lparr>ic := ?c\<rparr>\<lparr>inits := (inits s)(i := a)\<rparr>" by (rule at_system.equality) simp_all
    have loc: "located n none_pending (?s\<lparr>ic := ?c\<rparr>) i t" using v by (auto simp: located_def made_def waiting_def)
    have "at_sys_inv m n none_pending (?si\<lparr>ic := ?c\<rparr>)" unfolding eq by (rule recorded[OF inv' _ loc]) simp
    moreover have "sys_weight m n (?si\<lparr>ic := ?c\<rparr>) \<le> sys_weight m n (s\<lparr>inits := (inits s)(i := a)\<rparr>) + 7"
      using weight_target[OF v, of m "?si\<lparr>ic := ?c\<rparr>" "s\<lparr>inits := (inits s)(i := a)\<rparr>"] by (simp add: initiator_side_def target_side_def made_def)
    ultimately show ?thesis using step by blast
  next
    case True
    let ?c = "made (Reply i t TLM_ACCEPTED BEGIN_REQ) (made (Call_Fw v t BEGIN_REQ delay)
      (at_ic.req_in_progress_update (\<lambda>_. (at_ic.req_in_progress (ic s))(v := Some t)) ((ic s)\<lparr>routes := ?r\<rparr>)))"
    have fw: "at_nb_transport_fw n now i t (address (tx_store s t)) BEGIN_REQ delay (TLM_ACCEPTED, BEGIN_REQ, delay) (ic s) = Some (adr, ?c)"
      using True dec by (simp add: at_nb_transport_fw_def fw_answer_def)
    have put: "put_ic now ?c ?calledi = ?calledi\<lparr>ic := ?c\<rparr>"
      by (subst put_ic_calls[of _ _ "[Call_Fw v t BEGIN_REQ delay, Reply i t TLM_ACCEPTED BEGIN_REQ]"]) (simp_all add: made_def)
    have some: "Call_Fw v t BEGIN_REQ delay \<in> set (new_calls (ic s) ?c)" by (simp add: new_calls_def made_def)
    have "last (trace ?c) = Reply i t TLM_ACCEPTED BEGIN_REQ" by (simp add: made_def)
    then have step: "call_interconnect n now i t BEGIN_REQ delay (s\<lparr>inits := (inits s)(i := a)\<rparr>) = Some (?calledi\<lparr>ic := ?c\<rparr>)"
      using dec call fw put some by (simp add: call_interconnect_def Let_def)
    have inv': "at_sys_inv m n none_pending (?called\<lparr>ic := ?c\<rparr>)"
    proof (rule request_given[OF inv1 v _ refl])
      have "request_ok (ic s) v (tgts s v) []" using d(2) v by (simp add: requests_inv_def)
      then have "\<not> end_req_event (ic s) v" using True by (auto simp: request_ok_def)
      then show "\<not> end_req_event ?c v" by (simp add: made_def)
      show "t \<in> waiting (ic ?s) v \<Longrightarrow> routes ?c t = routes (ic ?s) t" using t(1) v by (simp add: nowhere_def)
      show "t \<notin> waiting ?c v" using t(1) v by (simp add: nowhere_def waiting_def made_def)
      show "distinct (map fst (req_queue ?c w))" if "w < n" for w using queues_invD(1)[OF d(6) that] by (simp add: made_def)
    qed (use True t t1 rej1 i in \<open>auto simp: made_def open_request_def routed_to_def waiting_def nowhere_def\<close>)
    have eq: "?calledi\<lparr>ic := ?c\<rparr> = ?called\<lparr>ic := ?c\<rparr>\<lparr>inits := (inits s)(i := a)\<rparr>"
      by (rule at_system.equality) (simp_all add: put_target_def)
    have loc: "located n none_pending (?called\<lparr>ic := ?c\<rparr>) i t" using v by (auto simp: located_def made_def notified_parts)
    have "at_sys_inv m n none_pending (?calledi\<lparr>ic := ?c\<rparr>)" unfolding eq by (rule recorded[OF inv' _ loc]) simp
    moreover have "sys_weight m n (?calledi\<lparr>ic := ?c\<rparr>) \<le> sys_weight m n (s\<lparr>inits := (inits s)(i := a)\<rparr>) + 7"
      using weight_target[OF v, of m "?calledi\<lparr>ic := ?c\<rparr>" "s\<lparr>inits := (inits s)(i := a)\<rparr>"]
      by (simp add: initiator_side_def target_side_def made_def notified_weight)
    ultimately show ?thesis using step by blast
  qed
qed

section \<open>Responses\<close>

lemma notified_end:
  "requests_of (peq_notify time t (Tlm END_RESP) tg) = requests_of tg"
  "txs_of (Tlm END_RESP) (peq_notify time t (Tlm END_RESP) tg) = txs_of (Tlm END_RESP) tg @ [t]"
  by (simp_all add: requests_of_def peq_notify_def txs_of_def)

lemma request_ok_end [simp]: "request_ok c v (peq_notify time t (Tlm END_RESP) tg) cs = request_ok c v tg cs"
  by (simp add: request_ok_def notified_end notified_parts)

lemma ab_inv_end:
  "ab_inv tg \<Longrightarrow> response_in_progress tg \<Longrightarrow> entries (Tlm END_RESP) tg = 0 \<Longrightarrow> ab_inv (peq_notify time t (Tlm END_RESP) tg)"
  by (auto simp: ab_inv_def)

text \<open>An initiator ends the response in progress.\<close>

lemma response_ended:
  assumes inv: "at_sys_inv m n none_pending s" and i: "i < m" and t: "response_at s i = [t]"
    and rcv: "received_responses a = []"
    and phs: "\<And>e. e \<in> set (init_peq a) \<Longrightarrow> e \<in> set (init_peq (inits s i)) \<or> snd (snd e) \<in> {END_REQ, BEGIN_RESP}"
    and uns: "unsent a = unsent (inits s i)"
    and thr: "\<And>u tr. thread a = Wait_End_Req u tr \<or> thread a = Woken u tr \<Longrightarrow>
         thread (inits s i) = Wait_End_Req u tr \<or> thread (inits s i) = Woken u tr"
    and out: "\<And>u. at_initiator.req_in_progress a = Some u \<Longrightarrow> at_initiator.req_in_progress (inits s i) = Some u"
      "\<And>u tr. thread a = Wait_End_Req u tr \<Longrightarrow> at_initiator.req_in_progress a \<noteq> None"
      "ended_requests (inits s i) \<subseteq> ended_requests a"
  shows "\<exists>s'. call_interconnect n now i t END_RESP delay (s\<lparr>inits := (inits s)(i := a)\<rparr>) = Some s' \<and> at_sys_inv m n none_pending s' \<and>
    sys_weight m n s' \<le> sys_weight m n (s\<lparr>inits := (inits s)(i := a)\<rparr>) + 2"
proof -
  note d = at_sys_invD[OF inv]
  let ?s = "s\<lparr>inits := (inits s)(i := a)\<rparr>"
  have ti: "t \<in> set (responses_at s i)" using t by (simp add: responses_at_def)
  have rip: "rsp_in_progress (ic s) i = Some t" "\<not> end_rsp_event (ic s) i"
    using t by (auto simp: response_at_def split: if_splits option.splits)
  obtain r v where r: "routes (ic s) t = Some r" "rt_init r = i" "rt_target r = v" "v < n" "\<not> dont_propagate_fw r"
    using routes_invD(3)[OF d(5) i ti] by (auto simp: routed_from_def)
  have rej: "reject (tx_store ?s t) = None" using store_invD(5)[OF d(7) i ti] by simp
  let ?called = "put_target v (peq_notify (now + delay) t (Tlm END_RESP) (target_at ?s v)) ?s"
  let ?c = "made (Reply i t TLM_ACCEPTED END_RESP) (made (Call_Fw v t END_RESP delay) (notify_rsp i (ic s)))"
  let ?s' = "?called\<lparr>ic := ?c\<rparr>"
  have call: "call_target now v t END_RESP delay ?s = ((TLM_ACCEPTED, END_RESP, delay), ?called)" by (rule target_accepts[OF rej])
  have fw: "at_nb_transport_fw n now i t (address (tx_store s t)) END_RESP delay (TLM_ACCEPTED, END_RESP, delay) (ic s) =
      Some (address (tx_store s t), ?c)"
    using r rip by (simp add: at_nb_transport_fw_def fw_answer_def)
  have put: "put_ic now ?c ?called = ?s'"
    by (subst put_ic_calls[of _ _ "[Call_Fw v t END_RESP delay, Reply i t TLM_ACCEPTED END_RESP]"]) (simp_all add: made_def notify_rsp_def)
  have some: "Call_Fw v t END_RESP delay \<in> set (new_calls (ic s) ?c)" by (simp add: new_calls_def made_def notify_rsp_def)
  have "last (trace ?c) = Reply i t TLM_ACCEPTED END_RESP" by (simp add: made_def)
  then have step: "call_interconnect n now i t END_RESP delay ?s = Some ?s'"
    using r call fw put some by (simp add: call_interconnect_def Let_def)
  have ics: "ic ?s' = ?c" "tx_store ?s' = tx_store s" "routes ?c = routes (ic s)" "req_queue ?c = req_queue (ic s)"
      "rsp_queue ?c = rsp_queue (ic s)" "rsp_in_progress ?c = rsp_in_progress (ic s)"
      "end_rsp_event ?c = (end_rsp_event (ic s))(i := True)"
      "at_ic.req_in_progress ?c = at_ic.req_in_progress (ic s)" "end_req_event ?c = end_req_event (ic s)"
    by (simp_all add: made_def notify_rsp_def)
  have ini: "inits ?s' = (inits s)(i := a)" by simp
  let ?tg = "peq_notify (now + delay) t (Tlm END_RESP) (target_at s v)"
  have tv: "tgts ?s' w = (if w = v then ?tg else tgts s w)" for w by simp
  have resp: "response_at ?s' k = (if k = i then [] else response_at s k)" for k
    unfolding response_at_def ics by simp
  have resps: "responses_at ?s' k = (if k = i then map fst (rsp_queue (ic s) i) else responses_at s k)" for k
    unfolding responses_at_def resp ics by simp
  have rsub: "set (responses_at ?s' k) \<subseteq> set (responses_at s k)" for k unfolding resps by (auto simp: responses_at_def)
  have wait: "waiting (ic ?s') w = waiting (ic s) w" for w unfolding waiting_def ics by simp
  have held: "set (held_txs (tgts ?s' w)) = (if w = v then insert t (set (held_txs (tgts s w))) else set (held_txs (tgts s w)))" for w
    unfolding tv by (simp add: notified_held)
  have routed: "routed_to m (ic ?s') = routed_to m (ic s)" "routed_from n (ic ?s') = routed_from n (ic s)"
    unfolding ics routed_to_def routed_from_def by (simp_all add: fun_eq_iff)
  have sum: "(\<Sum>k<m. open_responses s w k) = (\<Sum>k<m. open_responses ?s' w k) + (if w = v then 1 else 0)" for w
  proof (rule open_responses_more[OF _ _ _ _ i])
    show "mset (responses_at s i) = add_mset t (mset (responses_at ?s' i))" unfolding resps using t by (simp add: responses_at_def)
    show "responses_at s k = responses_at ?s' k" if "k \<noteq> i" for k unfolding resps using that by simp
    show "routed_target (ic s) = routed_target (ic ?s')" by (simp only: routed_target_def ics fun_eq_iff simp_thms)
    then show "routed_target (ic ?s') t = Some v" using r by (metis routed_target_def option.simps(9))
  qed
  have count: "(\<Sum>k<m. open_responses s w k) + length (txs_of (Tlm END_RESP) (tgts s w)) = answering (tgts s w)" if "w < n" for w
    using d(3) that by (simp add: responses_inv_def)
  have "at_sys_inv m n none_pending ?s'"
    unfolding at_sys_inv_def
  proof (intro conjI)
    show "0 < n" by (rule d(1))
    show "requests_inv n none_pending ?s'"
      unfolding requests_inv_def
    proof (intro allI impI)
      fix w assume "w < n"
      then have "request_ok (ic s) w (tgts s w) []" using d(2) by (simp add: requests_inv_def)
      then have "request_ok ?c w (tgts s w) []" by (rule request_ok_cong) (simp_all add: ics)
      then have "request_ok ?c w (tgts ?s' w) []" unfolding tv by (cases "w = v") simp_all
      then show "request_ok (ic ?s') w (tgts ?s' w) []" unfolding ics .
    qed
    show "responses_inv m n none_pending ?s'"
      unfolding responses_inv_def
    proof (intro conjI allI impI)
      fix w assume w: "w < n"
      show "(\<Sum>k<m. open_responses ?s' w k) + length (txs_of (Tlm END_RESP) (tgts ?s' w)) + length (calls_of BEGIN_RESP []) =
          answering (tgts ?s' w)"
        using count[OF w] sum[of w] unfolding tv by (simp add: notified_parts notified_end split: if_splits)
    next
      fix k assume "k < m" "end_rsp_event (ic ?s') k \<or> rsp_queue (ic ?s') k \<noteq> []"
      then show "rsp_in_progress (ic ?s') k \<noteq> None" using d(3) rip unfolding ics by (auto simp: responses_inv_def split: if_splits)
    qed
    show "received_inv m ?s'"
      unfolding received_inv_def
    proof (intro allI impI)
      fix k assume k: "k < m"
      have old: "received_responses (inits s k) = response_at s k" "\<forall>e \<in> set (init_peq (inits s k)). snd (snd e) \<in> {END_REQ, BEGIN_RESP}"
        using d(4) k by (simp_all add: received_inv_def)
      have "snd (snd e) \<in> {END_REQ, BEGIN_RESP}" if "e \<in> set (init_peq a)" "k = i" for e using phs[OF that(1)] old(2) that(2) by blast
      then show "received_responses (inits ?s' k) = response_at ?s' k \<and> (\<forall>e \<in> set (init_peq (inits ?s' k)). snd (snd e) \<in> {END_REQ, BEGIN_RESP})"
        unfolding resp ini using old rcv by auto
    qed
    show "routes_inv m n none_pending ?s'"
    proof (rule routes_invI)
      show "routed_to m (ic ?s') u w" if "w < n" "u \<in> held_at none_pending ?s' w \<or> u \<in> waiting (ic ?s') w" for w u
      proof (cases "u = t \<and> w = v")
        case True
        then show ?thesis unfolding routed using r i by (simp add: routed_to_def)
      next
        case False
        then have "u \<in> held_at none_pending s w \<or> u \<in> waiting (ic s) w" using that(2) unfolding wait held_at_none held by (auto split: if_splits)
        then show ?thesis unfolding routed by (rule routes_invD(1)[OF d(5) that(1)])
      qed
      show "routed_from n (ic ?s') u k" if "k < m" "u \<in> set (responses_at ?s' k)" for k u
        using routes_invD(3)[OF d(5) that(1)] rsub that(2) unfolding routed by blast
    qed simp
    show "queues_inv m n none_pending ?s'"
    proof (rule queues_invI)
      show "u \<notin> held_at none_pending ?s' w" if "w < n" "u \<in> waiting (ic ?s') w" for w u
        using queues_invD(2)[OF d(6) that(1), of u] queues_invD(3)[OF d(6) that(1) i, of u] that(2) ti unfolding wait held_at_none held
        by (auto split: if_splits)
      show "u \<notin> set (responses_at ?s' k)" if "w < n" "k < m" "u \<in> waiting (ic ?s') w" for w k u
        using queues_invD(3)[OF d(6) that(1,2), of u] that(3) rsub[of k] unfolding wait by blast
      show "distinct (map fst (req_queue (ic ?s') w))" if "w < n" for w using queues_invD(1)[OF d(6) that] unfolding ics .
    qed
    show "store_inv m n none_pending ?s'"
    proof (rule store_invI)
      show "ab_inv (target_at ?s' w)" if w: "w < n" for w
      proof (cases "w = v")
        case True
        have "response_in_progress (target_at s v)" "entries (Tlm END_RESP) (target_at s v) = 0"
          using count[OF r(4)] sum[of v] by (auto simp: answering_def entries_txs target_at_def split: if_splits)
        then have "ab_inv ?tg" using store_invD(1)[OF d(7) r(4)] by (intro ab_inv_end)
        moreover have "target_at ?s' v = ?tg" by (simp add: target_at_def peq_notify_def)
        ultimately show ?thesis using True by simp
      next
        case False
        then have "target_at ?s' w = target_at s w" by (simp add: target_at_def)
        then show ?thesis using store_invD(1)[OF d(7) w] by simp
      qed
      show "completed_tx (tx_store ?s' u)"
        if "w < n" "next_response_pending (tgts ?s' w) = Some u \<or> u \<in> set (calls_of BEGIN_RESP [])" for w u
        using store_invD(2)[OF d(7) that(1), of u] that(2) unfolding tv ics(2) by (simp split: if_splits)
      show "reject (tx_store ?s' u) = None" if "w < n" "u \<in> held_at none_pending ?s' w \<or> u \<in> waiting (ic ?s') w" for w u
        using store_invD(3)[OF d(7) that(1), of u] that(2) rej unfolding wait held_at_none held ics(2) by (auto split: if_splits)
      show "completed_tx (tx_store ?s' u) \<and> reject (tx_store ?s' u) = None" if "k < m" "u \<in> set (responses_at ?s' k)" for k u
        using store_invD(4,5)[OF d(7) that(1), of u] that(2) rsub[of k] unfolding ics(2) by blast
      show "4 \<le> length (data (tx_store ?s' u))" for u using store_invD(6)[OF d(7), of u] unfolding ics .
    qed
    show "prepared_inv m n none_pending ?s'"
    proof (rule prepared_invI)
      have same: "unsent (inits ?s' k) = unsent (inits s k)" for k unfolding ini using uns by simp
      have fl: "nowhere m n ?s' u" if "nowhere m n s u" for u
      proof -
        have "u \<noteq> t" using that ti i by (auto simp: nowhere_def)
        then show ?thesis using that rsub unfolding nowhere_def held wait by (auto split: if_splits)
      qed
      fix k u assume k: "k < m" "unsent (inits ?s' k) = Some u"
      then have u: "unsent (inits s k) = Some u" unfolding same by simp
      have "nowhere m n s u" using prepared_invD(1)[OF d(8) k(1) u] by (simp add: not_in_flight)
      from fl[OF this] have nw: "nowhere m n ?s' u" .
      show "\<not> in_flight m n ?s' u" using nw unfolding not_in_flight .
      show "u \<notin> held_at none_pending ?s' w" if "w < n" for w using nw that unfolding held_at_none nowhere_def by blast
      show "unsent (inits ?s' l) \<noteq> Some u" if "l < m" "l \<noteq> k" for l using prepared_invD(3)[OF d(8) k(1) u that] unfolding same .
    next
      fix k u tr assume "k < m" "thread (inits ?s' k) = Wait_End_Req u tr \<or> thread (inits ?s' k) = Woken u tr"
      then show "reject tr = None \<and> 4 \<le> length (data tr)"
        using prepared_invD(4)[OF d(8), of k u tr] thr[of u tr] unfolding ini by (cases "k = i") simp_all
    qed
    show "outstanding_inv m n none_pending ?s'"
      unfolding outstanding_inv_def
    proof (intro allI impI conjI)
      have asked: "set (requests_of (tgts ?s' w)) = set (requests_of (tgts s w))" for w unfolding tv by (simp add: notified_end)
      have loc: "located n none_pending ?s' = located n none_pending s" unfolding located_def asked wait unfolding ics(1,3) ..
      fix k u assume k: "k < m" "at_initiator.req_in_progress (inits ?s' k) = Some u"
      then have "at_initiator.req_in_progress (inits s k) = Some u" using out(1)[of u] unfolding ini by (cases "k = i") simp_all
      then have "located n none_pending s k u \<or> u \<in> ended_requests (inits s k)" using d(9) k(1) by (simp add: outstanding_inv_def)
      then show "located n none_pending ?s' k u \<or> u \<in> ended_requests (inits ?s' k)"
        unfolding loc ini using out(3) by (cases "k = i") auto
    next
      fix k u tr assume k: "k < m" "thread (inits ?s' k) = Wait_End_Req u tr"
      show "at_initiator.req_in_progress (inits ?s' k) \<noteq> None"
      proof (cases "k = i")
        case False
        then show ?thesis using k d(9) unfolding outstanding_inv_def ini by auto
      qed (use k out(2)[of u tr] ini in simp)
    qed
  qed
  moreover have "sys_weight m n ?s' \<le> sys_weight m n ?s + 2"
    using weight_both[OF i _ r(4), of ?s' ?s] by (simp add: initiator_side_def target_side_def ics(3-) notified_weight split: if_splits)
  ultimately show ?thesis using step by blast
qed

end
