(* ===== verification/At_System_Rules.thy ===== *)
theory At_System_Rules
  imports At_System_Calls
begin

text \<open>
  Every event keeps the invariant and, when it finds something to do, lowers the weight. So initiators of type A, the interconnect and
  targets of type A never stop with a failed assertion or a fatal report, never block each other, and finish all of their transactions.
\<close>

section \<open>Steps of the system\<close>








lemma unsent_frame [simp]: "unsent (end_request a) = unsent a" "unsent (a\<lparr>init_peq := q\<rparr>) = unsent a"
  "unsent (ai_release t a) = unsent a" "unsent (ai_call_fw t tr p dl a) = unsent a"
  by (auto simp: unsent_def end_request_def ai_ops split: at_thread.splits)



section \<open>Processes of the interconnect\<close>



section \<open>Processes of the targets\<close>


section \<open>The threads\<close>

definition threads_ok :: "at_system \<Rightarrow> bool" where
  "threads_ok s \<longleftrightarrow> (\<forall>i. thread_ok (inits s i))"



lemma target_threads [simp]: "threads_ok (put_target v tg s) = threads_ok s" "threads_ok (s\<lparr>tx_store := x\<rparr>) = threads_ok s"
  by (simp_all add: threads_ok_def)







section \<open>Runs of the system\<close>









section \<open>Nothing left to do\<close>







section \<open>Properties\<close>














end
