(* ===== verification/Protocol_Checker.thy ===== *)
theory Protocol_Checker
  imports Tlm_Payload "HOL-Library.Monad_Syntax"
begin

text \<open>
  The compliance checkers that the locking examples put on every hop of a transaction
  (\<^verbatim>\<open>src/locknsnoop/common/tlm2_base_protocol_checker.h\<close>). A checker and a transaction are numbers. The
  message texts are left out: a report is the severity and the clause of the manual that \<^verbatim>\<open>tlm2error\<close> is
  given. A report is recorded and the checks go on, as they do once the action of the reports is not to throw; with the
  default action the first error ends the call, so only what a run without errors shows holds for both.
  \<^verbatim>\<open>None\<close> is a read through a null pointer or beyond a buffer.
\<close>

section \<open>Transactions and reports\<close>

text \<open>A pointer with what it points to; \<^verbatim>\<open>None\<close> is the null pointer. \<^verbatim>\<open>tx_exts\<close> says which entries of the extension
  array are set.\<close>

type_synonym buffer = "nat \<times> (nat \<Rightarrow> byte)"

record checked_tx =
  tx_has_mm :: bool
  tx_refs :: int
  tx_command :: tlm_command
  tx_data :: "buffer option"
  tx_length :: u32
  tx_be :: "buffer option"
  tx_be_length :: u32
  tx_width :: u32
  tx_dmi :: bool
  tx_response :: tlm_response
  tx_exts :: "bool list"

datatype phase = UNINITIALIZED_PHASE | Phase tlm_phase | Extended nat

text \<open>The numbers of the phases: extended phases start at 5.\<close>

fun phase_number :: "phase \<Rightarrow> nat" where
  "phase_number UNINITIALIZED_PHASE = 0"
| "phase_number (Phase BEGIN_REQ) = 1"
| "phase_number (Phase END_REQ) = 2"
| "phase_number (Phase BEGIN_RESP) = 3"
| "phase_number (Phase END_RESP) = 4"
| "phase_number (Extended n) = 5 + n"

datatype clause =
  Clause_4_1_1_4_b | Clause_4_2_5_a | Clause_4_2_5_aa | Clause_4_2_5_f | Clause_4_2_5_s | Clause_4_3_4_j | Clause_4_3_4_o
| Clause_6_5 | Clause_6_5_h | Clause_6_5_s | Clause_6_5_y | Clause_6_7 | Clause_6_10_e | Clause_6_11_d | Clause_6_13_f
| Clause_6_14_f | Clause_6_15 | Clause_6_16_e
| Clause_7_2_3_d | Clause_7_2_3_i | Clause_7_2_4_b | Clause_7_2_4_c | Clause_7_2_5_e | Clause_7_2_5_k | Clause_7_2_5_m_n

datatype report = Error clause | Warning clause

section \<open>State\<close>

record tx_state =
  st_has_mm :: bool
  st_b_call :: u32
  st_ph :: phase
  st_time :: sc_time
  st_gp :: "checked_tx option"
  st_data_ptr :: "nat option"
  st_be_ptr :: "nat option"

definition new_tx_state :: tx_state where
  "new_tx_state = \<lparr>st_has_mm = False, st_b_call = 0, st_ph = UNINITIALIZED_PHASE, st_time = 0, st_gp = None,
     st_data_ptr = None, st_be_ptr = None\<rparr>"

record path_t =
  sp_response_in_progress :: bool
  sp_ok_response :: bool
  sp_path :: "nat list"
  sp_resp_data :: "byte list option"

definition new_path_t :: path_t where
  "new_path_t = \<lparr>sp_response_in_progress = False, sp_ok_response = False, sp_path = [], sp_resp_data = None\<rparr>"

text \<open>All checkers: \<^verbatim>\<open>num_checks\<close> and \<^verbatim>\<open>shared_map\<close> are global, the rest belongs to one checker.\<close>

record checkers =
  num_checks :: u64
  shared_map :: "nat \<Rightarrow> path_t"
  m_map :: "nat \<Rightarrow> nat \<Rightarrow> tx_state"
  m_request_in_progress :: "nat \<Rightarrow> nat option"
  m_response_in_progress :: "nat \<Rightarrow> nat option"
  reports :: "report list"

definition new_checkers :: checkers where
  "new_checkers = \<lparr>num_checks = 100000, shared_map = (\<lambda>_. new_path_t), m_map = (\<lambda>_ _. new_tx_state),
     m_request_in_progress = (\<lambda>_. None), m_response_in_progress = (\<lambda>_. None), reports = []\<rparr>"

definition set_num_checks :: "u64 \<Rightarrow> checkers \<Rightarrow> checkers option" where
  "set_num_checks n s = (if num_checks s = 0 then None else Some (s\<lparr>num_checks := n\<rparr>))"

section \<open>Checks\<close>

definition tlm2error :: "bool \<Rightarrow> report \<Rightarrow> checkers \<Rightarrow> checkers" where
  "tlm2error b r s = (if b then s\<lparr>reports := reports s @ [r]\<rparr> else s)"

definition set_tx :: "nat \<Rightarrow> nat \<Rightarrow> (tx_state \<Rightarrow> tx_state) \<Rightarrow> checkers \<Rightarrow> checkers" where
  "set_tx k t f s = s\<lparr>m_map := (m_map s)(k := (m_map s k)(t := f (m_map s k t)))\<rparr>"

definition set_path :: "nat \<Rightarrow> (path_t \<Rightarrow> path_t) \<Rightarrow> checkers \<Rightarrow> checkers" where
  "set_path t f s = s\<lparr>shared_map := (shared_map s)(t := f (shared_map s t))\<rparr>"

definition check_initial_state :: "nat \<Rightarrow> nat \<Rightarrow> checked_tx \<Rightarrow> checkers \<Rightarrow> checkers" where
  "check_initial_state k t x s =
     (let s = (if num_checks s > 0 then s\<lparr>num_checks := num_checks s - 1\<rparr> else s);
          s = tlm2error (tx_has_mm x \<and> tx_refs x > 1 \<and> sp_path (shared_map s t) = []) (Warning Clause_6_5_s) s;
          s = tlm2error (tx_data x = None) (Error Clause_6_10_e) s;
          s = tlm2error (tx_length x = 0) (Error Clause_6_11_d) s;
          s = tlm2error (tx_be x \<noteq> None \<and> tx_be_length x = 0) (Error Clause_6_13_f) s;
          s = tlm2error (tx_width x = 0) (Error Clause_6_14_f) s;
          s = tlm2error (tx_dmi x) (Error Clause_6_15) s;
          s = tlm2error (tx_response x \<noteq> TLM_INCOMPLETE_RESPONSE) (Error Clause_6_16_e) s;
          s = set_tx k t (\<lambda>st. st\<lparr>st_gp := Some x, st_data_ptr := map_option fst (tx_data x),
                st_be_ptr := map_option fst (tx_be x), st_time := 0, st_has_mm := tx_has_mm x\<rparr>) s;
          s = tlm2error (sp_response_in_progress (shared_map s t)) (Error Clause_6_5) s
      in set_path t (\<lambda>p. p\<lparr>sp_resp_data := None, sp_ok_response := False, sp_path := sp_path p @ [k]\<rparr>) s)"

text \<open>The bytes of two buffers compared one by one: a report for each that differs.\<close>

definition differing :: "nat \<Rightarrow> buffer option \<Rightarrow> buffer option \<Rightarrow> report list option" where
  "differing n b c =
     (if n = 0 then Some []
      else do { (_, f) \<leftarrow> b; (_, g) \<leftarrow> c;
                Some (concat (map (\<lambda>i. if f i \<noteq> g i then [Error Clause_6_7] else []) [0..<n])) })"

definition differs :: "bool \<Rightarrow> report list" where
  "differs b = (if b then [Error Clause_6_7] else [])"

definition manager_reports :: "tx_state \<Rightarrow> checked_tx \<Rightarrow> checked_tx \<Rightarrow> report list" where
  "manager_reports st init x =
     (if st_has_mm st then []
      else (if tx_has_mm x then [Error Clause_6_5_y] else []) @
        concat (map (\<lambda>i. if tx_exts x ! i \<and> \<not> (i < length (tx_exts init) \<and> tx_exts init ! i)
          then [Error Clause_6_5_y] else []) [0..<length (tx_exts x)]))"

text \<open>The copy \<open>init\<close> kept by the checker has its own buffers, with the bytes the pointers of the transaction led to;
  \<open>copy\<close> holds the bytes of the data array on the response path.\<close>

definition modifications :: "tx_state \<Rightarrow> checked_tx \<Rightarrow> byte list option \<Rightarrow> checked_tx \<Rightarrow> report list option" where
  "modifications st init copy x = do {
     data_differs \<leftarrow> (if tx_command x = TLM_WRITE_COMMAND
       then differing (unat (tx_length init)) (tx_data x) (tx_data init) else Some []);
     be_differs \<leftarrow> (if tx_be x \<noteq> None then differing (unat (tx_be_length init)) (tx_be x) (tx_be init) else Some []);
     copy_differs \<leftarrow> (case copy of
         None \<Rightarrow> Some []
       | Some bytes \<Rightarrow>
           if length bytes < unat (tx_length x) then None
           else differing (unat (tx_length x)) (tx_data x) (Some (0, nth bytes)));
     Some (differs (tx_command x \<noteq> tx_command init) @ differs (map_option fst (tx_data x) \<noteq> st_data_ptr st) @
       differs (tx_length x \<noteq> tx_length init) @ data_differs @
       differs (map_option fst (tx_be x) \<noteq> st_be_ptr st) @ differs (tx_be_length x \<noteq> tx_be_length init) @ be_differs @
       differs (tx_width x \<noteq> tx_width init) @ manager_reports st init x @ copy_differs)
   }"

definition check_trans_not_modified :: "nat \<Rightarrow> nat \<Rightarrow> checked_tx \<Rightarrow> checkers \<Rightarrow> checkers option" where
  "check_trans_not_modified k t x s =
     (case st_gp (m_map s k t) of
        None \<Rightarrow> None
      | Some init \<Rightarrow>
          map_option (\<lambda>rs. s\<lparr>reports := reports s @ rs\<rparr>)
            (modifications (m_map s k t) init (sp_resp_data (shared_map s t)) x))"

definition check_response_path :: "nat \<Rightarrow> nat \<Rightarrow> checked_tx \<Rightarrow> checkers \<Rightarrow> checkers option" where
  "check_response_path k t x s =
     (let p = shared_map s t in
      if sp_path p = [] then Some s
      else
        (let s = tlm2error (k \<noteq> last (sp_path p)) (Error Clause_7_2_5_m_n) s;
             s = set_path t (\<lambda>p. p\<lparr>sp_path := butlast (sp_path p), sp_response_in_progress := butlast (sp_path p) \<noteq> [],
                   sp_ok_response := tx_response x = TLM_OK_RESPONSE\<rparr>) s
         in if sp_resp_data p \<noteq> None then Some s
            else if unat (tx_length x) = 0 then Some (set_path t (\<lambda>p. p\<lparr>sp_resp_data := Some []\<rparr>) s)
            else do {
              (_, f) \<leftarrow> tx_data x;
              Some (set_path t (\<lambda>p. p\<lparr>sp_resp_data := Some (map f [0..<unat (tx_length x)])\<rparr>) s)
            }))"

definition running :: "phase \<Rightarrow> bool" where
  "running p \<longleftrightarrow> phase_number p > 0 \<and> phase_number p < 4"

text \<open>The last steps of the non-blocking checks: the phase, unless extended, and the time annotation.\<close>

definition keep_phase :: "nat \<Rightarrow> nat \<Rightarrow> phase \<Rightarrow> checkers \<Rightarrow> checkers" where
  "keep_phase k t p s = (if phase_number p < 5 then set_tx k t (\<lambda>st. st\<lparr>st_ph := p\<rparr>) s else s)"

definition check_time :: "nat \<Rightarrow> nat \<Rightarrow> sc_time \<Rightarrow> checkers \<Rightarrow> checkers" where
  "check_time k t tm s =
     set_tx k t (\<lambda>st. st\<lparr>st_time := tm\<rparr>) (tlm2error (tm < st_time (m_map s k t)) (Error Clause_7_2_5_e) s)"

definition b_transport_pre_checks :: "nat \<Rightarrow> nat \<Rightarrow> checked_tx \<Rightarrow> bool \<Rightarrow> checkers \<Rightarrow> checkers" where
  "b_transport_pre_checks k t x method_process s =
     (let s = set_tx k t (\<lambda>st. st\<lparr>st_b_call := st_b_call st + 1\<rparr>) s;
          s = tlm2error (tx_has_mm x \<and> tx_refs x = 0) (Error Clause_6_5_s) s;
          s = check_initial_state k t x s;
          s = tlm2error method_process (Error Clause_4_1_1_4_b) s
      in tlm2error (running (st_ph (m_map s k t))) (Error Clause_7_2_5_k) s)"

definition b_transport_post_checks :: "nat \<Rightarrow> nat \<Rightarrow> checked_tx \<Rightarrow> checkers \<Rightarrow> checkers option" where
  "b_transport_post_checks k t x s = do {
     s \<leftarrow> check_response_path k t x s;
     s \<leftarrow> check_trans_not_modified k t x s;
     Some (set_tx k t (\<lambda>st. st\<lparr>st_b_call := st_b_call st - 1\<rparr>) s)
   }"

definition nb_transport_fw_pre_checks :: "nat \<Rightarrow> nat \<Rightarrow> checked_tx \<Rightarrow> phase \<Rightarrow> sc_time \<Rightarrow> checkers \<Rightarrow> checkers" where
  "nb_transport_fw_pre_checks k t x p tm s =
     (let s = tlm2error (\<not> tx_has_mm x) (Error Clause_6_5_h) s;
          s = tlm2error (tx_refs x = 0) (Error Clause_6_5_s) s;
          s = (case p of
                 Phase BEGIN_REQ \<Rightarrow>
                   let s = check_initial_state k t x s;
                       s = tlm2error (running (st_ph (m_map s k t))) (Error Clause_7_2_3_i) s;
                       s = tlm2error (m_request_in_progress s k \<noteq> None) (Error Clause_7_2_4_b) s;
                       s = s\<lparr>m_request_in_progress := (m_request_in_progress s)(k := Some t)\<rparr>
                   in tlm2error (st_b_call (m_map s k t) \<noteq> 0) (Error Clause_7_2_5_k) s
               | Phase END_RESP \<Rightarrow>
                   let s = tlm2error (st_ph (m_map s k t) \<noteq> Phase BEGIN_RESP) (Error Clause_7_2_3_i) s
                   in s\<lparr>m_response_in_progress := (m_response_in_progress s)(k := None)\<rparr>
               | Extended _ \<Rightarrow> s
               | _ \<Rightarrow> tlm2error True (Error Clause_7_2_3_d) s)
      in check_time k t tm (keep_phase k t p s))"

definition nb_transport_response_checks :: "nat \<Rightarrow> nat \<Rightarrow> checked_tx \<Rightarrow> phase \<Rightarrow> sc_time \<Rightarrow> checkers \<Rightarrow> checkers option" where
  "nb_transport_response_checks k t x p tm s =
     (let s = tlm2error (tx_response x = TLM_OK_RESPONSE \<and> sp_response_in_progress (shared_map s t) \<and>
                \<not> sp_ok_response (shared_map s t)) (Error Clause_6_7) s
      in do {
        s \<leftarrow> (case p of
               Phase END_REQ \<Rightarrow>
                 let s = tlm2error (st_ph (m_map s k t) \<noteq> Phase BEGIN_REQ) (Error Clause_7_2_3_i) s
                 in Some (s\<lparr>m_request_in_progress := (m_request_in_progress s)(k := None)\<rparr>)
             | Phase BEGIN_RESP \<Rightarrow>
                 let s = tlm2error (st_ph (m_map s k t) \<noteq> Phase BEGIN_REQ \<and> st_ph (m_map s k t) \<noteq> Phase END_REQ)
                           (Error Clause_7_2_3_i) s;
                     s = (if m_request_in_progress s k = Some t
                          then s\<lparr>m_request_in_progress := (m_request_in_progress s)(k := None)\<rparr> else s);
                     s = tlm2error (m_response_in_progress s k \<noteq> None) (Error Clause_7_2_4_c) s;
                     s = s\<lparr>m_response_in_progress := (m_response_in_progress s)(k := Some t)\<rparr>
                 in check_response_path k t x s
             | Extended _ \<Rightarrow> Some s
             | _ \<Rightarrow> Some (tlm2error True (Error Clause_7_2_3_d) s));
        Some (check_time k t tm (keep_phase k t p s))
      })"

definition nb_transport_fw_post_checks ::
    "nat \<Rightarrow> nat \<Rightarrow> checked_tx \<Rightarrow> phase \<Rightarrow> phase \<Rightarrow> sc_time \<Rightarrow> tlm_sync \<Rightarrow> checkers \<Rightarrow> checkers option" where
  "nb_transport_fw_post_checks k t x start_phase p tm status s = do {
     s \<leftarrow> (case status of
            TLM_UPDATED \<Rightarrow> nb_transport_response_checks k t x p tm s
          | TLM_COMPLETED \<Rightarrow> do {
              s \<leftarrow> (if start_phase = Phase BEGIN_REQ then check_response_path k t x s else Some s);
              Some (set_tx k t (\<lambda>st. st\<lparr>st_ph := UNINITIALIZED_PHASE\<rparr>)
                (s\<lparr>m_request_in_progress := (m_request_in_progress s)(k := None)\<rparr>))
            }
          | TLM_ACCEPTED \<Rightarrow> Some s);
     check_trans_not_modified k t x s
   }"

definition nb_transport_bw_pre_checks :: "nat \<Rightarrow> nat \<Rightarrow> checked_tx \<Rightarrow> phase \<Rightarrow> sc_time \<Rightarrow> checkers \<Rightarrow> checkers option" where
  "nb_transport_bw_pre_checks k t x p tm s =
     (let s = tlm2error (\<not> tx_has_mm x) (Error Clause_6_5_h) s;
          s = tlm2error (tx_refs x = 0) (Error Clause_6_5_s) s
      in nb_transport_response_checks k t x p tm s)"

definition nb_transport_bw_post_checks ::
    "nat \<Rightarrow> nat \<Rightarrow> checked_tx \<Rightarrow> phase \<Rightarrow> sc_time \<Rightarrow> tlm_sync \<Rightarrow> checkers \<Rightarrow> checkers option" where
  "nb_transport_bw_post_checks k t x p tm status s =
     check_trans_not_modified k t x
       (case status of
          TLM_UPDATED \<Rightarrow>
            let s = (case p of
                       Phase BEGIN_REQ \<Rightarrow> tlm2error True (Error Clause_7_2_3_i) s
                     | Phase END_RESP \<Rightarrow>
                         let s = tlm2error (st_ph (m_map s k t) \<noteq> Phase BEGIN_RESP) (Error Clause_7_2_3_i) s
                         in s\<lparr>m_response_in_progress := (m_response_in_progress s)(k := None)\<rparr>
                     | Extended _ \<Rightarrow> s
                     | _ \<Rightarrow> tlm2error True (Error Clause_7_2_3_d) s)
            in check_time k t tm (keep_phase k t p s)
        | TLM_COMPLETED \<Rightarrow> set_tx k t (\<lambda>st. st\<lparr>st_ph := UNINITIALIZED_PHASE\<rparr>)
            (s\<lparr>m_response_in_progress := (m_response_in_progress s)(k := None)\<rparr>)
        | TLM_ACCEPTED \<Rightarrow> s)"

text \<open>The DMI descriptor: pointer set, some access granted, addresses and latencies.\<close>

definition get_direct_mem_ptr_pre_checks :: "bool \<Rightarrow> bool \<Rightarrow> u64 \<Rightarrow> u64 \<Rightarrow> sc_time \<Rightarrow> sc_time \<Rightarrow> checkers \<Rightarrow> checkers" where
  "get_direct_mem_ptr_pre_checks pointer_set access_granted start_adr end_adr read_latency write_latency s =
     (let s = tlm2error pointer_set (Error Clause_4_2_5_f) s;
          s = tlm2error access_granted (Error Clause_4_2_5_a) s;
          s = tlm2error (start_adr \<noteq> 0) (Error Clause_4_2_5_s) s;
          s = tlm2error (end_adr \<noteq> - 1) (Error Clause_4_2_5_s) s;
          s = tlm2error (read_latency \<noteq> 0) (Error Clause_4_2_5_aa) s
      in tlm2error (write_latency \<noteq> 0) (Error Clause_4_2_5_aa) s)"

definition transport_dbg_pre_checks :: "checked_tx \<Rightarrow> checkers \<Rightarrow> checkers" where
  "transport_dbg_pre_checks x s = tlm2error (tx_length x > 0 \<and> tx_data x = None) (Error Clause_4_3_4_j) s"

definition transport_dbg_post_checks :: "checked_tx \<Rightarrow> u32 \<Rightarrow> checkers \<Rightarrow> checkers" where
  "transport_dbg_post_checks x n s =
     (let s = tlm2error (tx_length x > 0 \<and> tx_data x = None) (Error Clause_4_3_4_j) s
      in tlm2error (n > tx_length x) (Error Clause_4_3_4_o) s)"

section \<open>Runs\<close>

text \<open>
  What a checker sees: calls and returns on its two sockets, each with the current value of the transaction and
  the annotated time (current time plus delay). Calls nest and overlap freely. \<^verbatim>\<open>start_phase\<close> is a reference to
  \<^verbatim>\<open>phase\<close>, so after the call both are the phase returned.
\<close>

datatype check_event =
  Fw_Call nat nat checked_tx phase sc_time
| Fw_Return nat nat checked_tx phase sc_time tlm_sync
| Bw_Call nat nat checked_tx phase sc_time
| Bw_Return nat nat checked_tx phase sc_time tlm_sync
| B_Call nat nat checked_tx bool
| B_Return nat nat checked_tx
| Dmi_Call bool bool u64 u64 sc_time sc_time
| Dbg_Call checked_tx
| Dbg_Return checked_tx u32

fun check_step :: "check_event \<Rightarrow> checkers \<Rightarrow> checkers option" where
  "check_step (Fw_Call k t x p tm) s =
     Some (if num_checks s \<noteq> 0 then nb_transport_fw_pre_checks k t x p tm s else s)"
| "check_step (Fw_Return k t x p tm status) s =
     (if num_checks s \<noteq> 0 then nb_transport_fw_post_checks k t x p p tm status s else Some s)"
| "check_step (Bw_Call k t x p tm) s =
     (if num_checks s \<noteq> 0 then nb_transport_bw_pre_checks k t x p tm s else Some s)"
| "check_step (Bw_Return k t x p tm status) s =
     (if num_checks s \<noteq> 0 then nb_transport_bw_post_checks k t x p tm status s else Some s)"
| "check_step (B_Call k t x method_process) s =
     Some (if num_checks s \<noteq> 0 then b_transport_pre_checks k t x method_process s else s)"
| "check_step (B_Return k t x) s = (if num_checks s \<noteq> 0 then b_transport_post_checks k t x s else Some s)"
| "check_step (Dmi_Call ptr acc sa ea rl wl) s = Some (get_direct_mem_ptr_pre_checks ptr acc sa ea rl wl s)"
| "check_step (Dbg_Call x) s = Some (transport_dbg_pre_checks x s)"
| "check_step (Dbg_Return x n) s = Some (transport_dbg_post_checks x n s)"

fun check_run :: "check_event list \<Rightarrow> checkers \<Rightarrow> checkers option" where
  "check_run [] s = Some s"
| "check_run (e # es) s = do { s \<leftarrow> check_step e s; check_run es s }"

end
