(* ===== verification/Checker_Protocol.thy ===== *)
theory Checker_Protocol
  imports Protocol_Checker
begin

text \<open>
  What the silence of the checkers means: the phases of every transaction on every hop follow the base protocol,
  time annotations never decrease, requests and responses exclude each other, and responses take the path of the
  requests backwards.
\<close>

section \<open>Frame rules of the checks\<close>

lemma tlm2error_frame [simp]:
  "num_checks (tlm2error b r s) = num_checks s" "shared_map (tlm2error b r s) = shared_map s"
  "m_map (tlm2error b r s) = m_map s" "m_request_in_progress (tlm2error b r s) = m_request_in_progress s"
  "m_response_in_progress (tlm2error b r s) = m_response_in_progress s"
  "reports (tlm2error b r s) = reports s @ (if b then [r] else [])"
  by (simp_all add: tlm2error_def)

lemma set_tx_frame [simp]:
  "num_checks (set_tx k t f s) = num_checks s" "shared_map (set_tx k t f s) = shared_map s"
  "m_map (set_tx k t f s) k' t' = (if k' = k \<and> t' = t then f (m_map s k t) else m_map s k' t')"
  "m_request_in_progress (set_tx k t f s) = m_request_in_progress s"
  "m_response_in_progress (set_tx k t f s) = m_response_in_progress s" "reports (set_tx k t f s) = reports s"
  by (simp_all add: set_tx_def)

lemma set_path_frame [simp]:
  "num_checks (set_path t f s) = num_checks s" "m_map (set_path t f s) = m_map s"
  "shared_map (set_path t f s) t' = (if t' = t then f (shared_map s t) else shared_map s t')"
  "m_request_in_progress (set_path t f s) = m_request_in_progress s"
  "m_response_in_progress (set_path t f s) = m_response_in_progress s" "reports (set_path t f s) = reports s"
  by (simp_all add: set_path_def)

lemma keep_phase_frame [simp]:
  "num_checks (keep_phase k t p s) = num_checks s" "shared_map (keep_phase k t p s) = shared_map s"
  "m_request_in_progress (keep_phase k t p s) = m_request_in_progress s"
  "m_response_in_progress (keep_phase k t p s) = m_response_in_progress s" "reports (keep_phase k t p s) = reports s"
  "st_time (m_map (keep_phase k t p s) k' t') = st_time (m_map s k' t')"
  "st_gp (m_map (keep_phase k t p s) k' t') = st_gp (m_map s k' t')"
  "st_ph (m_map (keep_phase k t p s) k' t') =
     (if k' = k \<and> t' = t \<and> phase_number p < 5 then p else st_ph (m_map s k' t'))"
  by (simp_all add: keep_phase_def)

lemma check_time_frame [simp]:
  "num_checks (check_time k t tm s) = num_checks s" "shared_map (check_time k t tm s) = shared_map s"
  "m_request_in_progress (check_time k t tm s) = m_request_in_progress s"
  "m_response_in_progress (check_time k t tm s) = m_response_in_progress s"
  "reports (check_time k t tm s) = reports s @ (if tm < st_time (m_map s k t) then [Error Clause_7_2_5_e] else [])"
  "st_time (m_map (check_time k t tm s) k' t') = (if k' = k \<and> t' = t then tm else st_time (m_map s k' t'))"
  "st_gp (m_map (check_time k t tm s) k' t') = st_gp (m_map s k' t')"
  "st_ph (m_map (check_time k t tm s) k' t') = st_ph (m_map s k' t')"
  by (simp_all add: check_time_def)

text \<open>What the attribute checks can say, and that they only say it.\<close>

definition said :: "clause set \<Rightarrow> checkers \<Rightarrow> bool" where
  "said C s \<longleftrightarrow> (\<exists>c \<in> C. Error c \<in> set (reports s))"

definition attribute_clauses :: "clause set" where
  "attribute_clauses = {Clause_6_5, Clause_6_5_y, Clause_6_7, Clause_6_10_e, Clause_6_11_d, Clause_6_13_f, Clause_6_14_f,
     Clause_6_15, Clause_6_16_e}"

lemma differing_clause: "differing n b c = Some rs \<Longrightarrow> set rs \<subseteq> {Error Clause_6_7}"
  by (auto simp: differing_def split: if_splits bind_splits)

lemma differs_simps [simp]: "set (differs b) = (if b then {Error Clause_6_7} else {})"
  by (simp add: differs_def)

lemma manager_reports_clauses: "set (manager_reports st init x) \<subseteq> {Error Clause_6_5_y}"
  by (auto simp: manager_reports_def split: if_splits)

lemma modifications_parts:
  assumes "modifications st init copy x = Some rs"
  obtains d e f where
    "(if tx_command x = TLM_WRITE_COMMAND then differing (unat (tx_length init)) (tx_data x) (tx_data init) else Some []) = Some d"
    and "(if tx_be x \<noteq> None then differing (unat (tx_be_length init)) (tx_be x) (tx_be init) else Some []) = Some e"
    and "set f \<subseteq> {Error Clause_6_7}"
    and "rs = differs (tx_command x \<noteq> tx_command init) @ differs (map_option fst (tx_data x) \<noteq> st_data_ptr st) @
       differs (tx_length x \<noteq> tx_length init) @ d @
       differs (map_option fst (tx_be x) \<noteq> st_be_ptr st) @ differs (tx_be_length x \<noteq> tx_be_length init) @ e @
       differs (tx_width x \<noteq> tx_width init) @ manager_reports st init x @ f"
proof -
  have copied: "set d \<subseteq> {Error Clause_6_7}"
    if "(case copy of None \<Rightarrow> Some [] | Some bytes \<Rightarrow> if length bytes < n then None else differing n f (Some (0, nth bytes))) = Some d"
    for n f d
    using that differing_clause by (auto split: option.splits if_splits)
  show ?thesis
    using assms that unfolding modifications_def by (auto split: bind_splits dest!: copied)
qed

lemma modifications_clauses:
  assumes "modifications st init copy x = Some rs"
  shows "set rs \<subseteq> {Error Clause_6_7, Error Clause_6_5_y}"
  using assms
proof (rule modifications_parts)
  fix d e f
  assume d: "(if tx_command x = TLM_WRITE_COMMAND then differing (unat (tx_length init)) (tx_data x) (tx_data init) else Some []) = Some d"
    and e: "(if tx_be x \<noteq> None then differing (unat (tx_be_length init)) (tx_be x) (tx_be init) else Some []) = Some e"
    and f: "set f \<subseteq> {Error Clause_6_7}"
    and rs: "rs = differs (tx_command x \<noteq> tx_command init) @ differs (map_option fst (tx_data x) \<noteq> st_data_ptr st) @
       differs (tx_length x \<noteq> tx_length init) @ d @
       differs (map_option fst (tx_be x) \<noteq> st_be_ptr st) @ differs (tx_be_length x \<noteq> tx_be_length init) @ e @
       differs (tx_width x \<noteq> tx_width init) @ manager_reports st init x @ f"
  have of_differing: "set d \<subseteq> {Error Clause_6_7}" if "(if c then differing n a b else Some []) = Some d" for c n a b d
    using that differing_clause by (cases c) auto
  have "set (differs c) \<subseteq> {Error Clause_6_7}" for c by simp
  with f of_differing[OF d] of_differing[OF e] manager_reports_clauses show ?thesis
    unfolding rs set_append by blast
qed

lemma differs_off: "Error Clause_6_7 \<notin> set rs \<Longrightarrow> set (differs b) \<subseteq> set rs \<Longrightarrow> \<not> b"
  by (cases b) auto

lemma not_modified_reports:
  assumes "check_trans_not_modified k t x s = Some s'"
  shows "\<exists>rs. s' = s\<lparr>reports := reports s @ rs\<rparr> \<and> set rs \<subseteq> {Error Clause_6_7, Error Clause_6_5_y}"
proof -
  obtain init rs where "modifications (m_map s k t) init (sp_resp_data (shared_map s t)) x = Some rs"
      "s' = s\<lparr>reports := reports s @ rs\<rparr>"
    using assms by (auto simp: check_trans_not_modified_def split: option.splits)
  then show ?thesis using modifications_clauses by blast
qed

lemma said_more: "Error ` C \<inter> set rs = {} \<Longrightarrow> said C (s\<lparr>reports := reports s @ rs\<rparr>) = said C s"
  by (auto simp: said_def)

lemma not_modified_frame:
  assumes "check_trans_not_modified k t x s = Some s'"
  shows "num_checks s' = num_checks s" "shared_map s' = shared_map s" "m_map s' = m_map s"
    "m_request_in_progress s' = m_request_in_progress s" "m_response_in_progress s' = m_response_in_progress s"
    "C \<inter> attribute_clauses = {} \<Longrightarrow> said C s' = said C s"
proof -
  obtain rs where rs: "s' = s\<lparr>reports := reports s @ rs\<rparr>" "set rs \<subseteq> {Error Clause_6_7, Error Clause_6_5_y}"
    using not_modified_reports[OF assms] by blast
  then show "num_checks s' = num_checks s" "shared_map s' = shared_map s" "m_map s' = m_map s"
    "m_request_in_progress s' = m_request_in_progress s" "m_response_in_progress s' = m_response_in_progress s"
    by simp_all
  assume "C \<inter> attribute_clauses = {}"
  then have "Error ` C \<inter> set rs = {}" using rs(2) by (auto simp: attribute_clauses_def)
  then show "said C s' = said C s" unfolding rs(1) by (rule said_more)
qed

lemma said_tlm2error [simp]:
  "said C (tlm2error b (Error c) s) \<longleftrightarrow> said C s \<or> b \<and> c \<in> C" "said C (tlm2error b (Warning c) s) = said C s"
  by (auto simp: said_def)

lemma said_frame [simp]:
  "said C (set_tx k t f s) = said C s" "said C (set_path t g s) = said C s" "said C (keep_phase k t p s) = said C s"
  "said C (s\<lparr>m_request_in_progress := i\<rparr>) = said C s" "said C (s\<lparr>m_response_in_progress := j\<rparr>) = said C s"
  "said C (s\<lparr>num_checks := n\<rparr>) = said C s"
  "said C (check_time k t tm s) \<longleftrightarrow> said C s \<or> tm < st_time (m_map s k t) \<and> Clause_7_2_5_e \<in> C"
  by (auto simp: said_def)

lemma if_request_frame [simp]:
  "m_map (if b then s\<lparr>m_request_in_progress := i\<rparr> else s) = m_map s"
  "shared_map (if b then s\<lparr>m_request_in_progress := i\<rparr> else s) = shared_map s"
  "num_checks (if b then s\<lparr>m_request_in_progress := i\<rparr> else s) = num_checks s"
  "m_response_in_progress (if b then s\<lparr>m_request_in_progress := i\<rparr> else s) = m_response_in_progress s"
  "said C (if b then s\<lparr>m_request_in_progress := i\<rparr> else s) = said C s"
  by (simp_all add: said_def)

lemma initial_state_frame [simp]:
  "st_ph (m_map (check_initial_state k t x s) k' t') = st_ph (m_map s k' t')"
  "st_b_call (m_map (check_initial_state k t x s) k' t') = st_b_call (m_map s k' t')"
  "st_time (m_map (check_initial_state k t x s) k' t') = (if k' = k \<and> t' = t then 0 else st_time (m_map s k' t'))"
  "st_gp (m_map (check_initial_state k t x s) k' t') = (if k' = k \<and> t' = t then Some x else st_gp (m_map s k' t'))"
  "m_request_in_progress (check_initial_state k t x s) = m_request_in_progress s"
  "m_response_in_progress (check_initial_state k t x s) = m_response_in_progress s"
  "num_checks (check_initial_state k t x s) = (if num_checks s > 0 then num_checks s - 1 else num_checks s)"
  "sp_path (shared_map (check_initial_state k t x s) t') = (if t' = t then sp_path (shared_map s t) @ [k] else sp_path (shared_map s t'))"
  by (simp_all add: check_initial_state_def Let_def)

lemma initial_state_said: "C \<inter> attribute_clauses = {} \<Longrightarrow> said C (check_initial_state k t x s) = said C s"
  by (auto simp: check_initial_state_def Let_def attribute_clauses_def)

lemma response_path_frame:
  assumes "check_response_path k t x s = Some s'"
  shows "num_checks s' = num_checks s" "m_map s' = m_map s" "m_request_in_progress s' = m_request_in_progress s"
    "m_response_in_progress s' = m_response_in_progress s" "Clause_7_2_5_m_n \<notin> C \<Longrightarrow> said C s' = said C s"
    "sp_path (shared_map s' t) = butlast (sp_path (shared_map s t))" "t' \<noteq> t \<Longrightarrow> shared_map s' t' = shared_map s t'"
  using assms by (auto simp: check_response_path_def Let_def split: if_splits bind_splits)

section \<open>The base protocol of one transaction on one hop\<close>

datatype move = Fwd phase | Fwd_Back phase tlm_sync | Bwd phase | Bwd_Back phase tlm_sync

text \<open>The phase after a move, or \<open>None\<close> for a move the protocol forbids. A return that is not \<^verbatim>\<open>TLM_UPDATED\<close> carries
  no phase; \<^verbatim>\<open>TLM_COMPLETED\<close> ends the transaction; extended phases are ignored.\<close>

fun response_phase :: "phase \<Rightarrow> phase \<Rightarrow> phase option" where
  "response_phase (Phase END_REQ) q = (if q = Phase BEGIN_REQ then Some (Phase END_REQ) else None)"
| "response_phase (Phase BEGIN_RESP) q =
     (if q = Phase BEGIN_REQ \<or> q = Phase END_REQ then Some (Phase BEGIN_RESP) else None)"
| "response_phase (Extended n) q = Some q"
| "response_phase _ q = None"

fun end_response :: "phase \<Rightarrow> phase option" where
  "end_response q = (if q = Phase BEGIN_RESP then Some (Phase END_RESP) else None)"

fun next_phase :: "move \<Rightarrow> phase \<Rightarrow> phase option" where
  "next_phase (Fwd (Phase BEGIN_REQ)) q =
     (if q = Phase BEGIN_REQ \<or> q = Phase END_REQ \<or> q = Phase BEGIN_RESP then None else Some (Phase BEGIN_REQ))"
| "next_phase (Fwd (Phase END_RESP)) q = end_response q"
| "next_phase (Fwd (Extended n)) q = Some q"
| "next_phase (Fwd _) q = None"
| "next_phase (Fwd_Back p TLM_UPDATED) q = response_phase p q"
| "next_phase (Bwd p) q = response_phase p q"
| "next_phase (Bwd_Back (Phase END_RESP) TLM_UPDATED) q = end_response q"
| "next_phase (Bwd_Back (Extended n) TLM_UPDATED) q = Some q"
| "next_phase (Bwd_Back _ TLM_UPDATED) q = None"
| "next_phase (Fwd_Back _ TLM_COMPLETED) q = Some UNINITIALIZED_PHASE"
| "next_phase (Bwd_Back _ TLM_COMPLETED) q = Some UNINITIALIZED_PHASE"
| "next_phase _ q = Some q"

fun phases :: "move list \<Rightarrow> phase \<Rightarrow> phase option" where
  "phases [] q = Some q"
| "phases (m # ms) q = do { q \<leftarrow> next_phase m q; phases ms q }"

fun hop :: "check_event \<Rightarrow> (nat \<times> nat \<times> move) option" where
  "hop (Fw_Call k t x p tm) = Some (k, t, Fwd p)"
| "hop (Fw_Return k t x p tm st) = Some (k, t, Fwd_Back p st)"
| "hop (Bw_Call k t x p tm) = Some (k, t, Bwd p)"
| "hop (Bw_Return k t x p tm st) = Some (k, t, Bwd_Back p st)"
| "hop _ = None"

fun moves :: "nat \<Rightarrow> nat \<Rightarrow> check_event list \<Rightarrow> move list" where
  "moves k t [] = []"
| "moves k t (e # es) =
     (case hop e of None \<Rightarrow> [] | Some (k', t', m) \<Rightarrow> if k' = k \<and> t' = t then [m] else []) @ moves k t es"

definition sequence_clauses :: "clause set" where
  "sequence_clauses = {Clause_7_2_3_d, Clause_7_2_3_i}"

lemma sequence_clauses_simps [simp]:
  "sequence_clauses \<inter> attribute_clauses = {}" "Clause_7_2_5_m_n \<notin> sequence_clauses" "Clause_7_2_5_e \<notin> sequence_clauses"
  "Clause_7_2_4_b \<notin> sequence_clauses" "Clause_7_2_4_c \<notin> sequence_clauses" "Clause_7_2_5_k \<notin> sequence_clauses"
  "Clause_6_5_h \<notin> sequence_clauses" "Clause_6_5_s \<notin> sequence_clauses" "Clause_4_1_1_4_b \<notin> sequence_clauses"
  "Clause_6_7 \<notin> sequence_clauses" "Clause_7_2_3_d \<in> sequence_clauses" "Clause_7_2_3_i \<in> sequence_clauses"
  "Clause_4_2_5_a \<notin> sequence_clauses" "Clause_4_2_5_f \<notin> sequence_clauses" "Clause_4_2_5_s \<notin> sequence_clauses"
  "Clause_4_2_5_aa \<notin> sequence_clauses" "Clause_4_3_4_j \<notin> sequence_clauses" "Clause_4_3_4_o \<notin> sequence_clauses"
  by (auto simp: sequence_clauses_def attribute_clauses_def)

text \<open>One step moves every hop as the protocol says, or reports it.\<close>

definition steps_as :: "nat \<Rightarrow> nat \<Rightarrow> move \<Rightarrow> checkers \<Rightarrow> checkers \<Rightarrow> bool" where
  "steps_as k t m s s' \<longleftrightarrow>
     (case next_phase m (st_ph (m_map s k t)) of
        None \<Rightarrow> said sequence_clauses s'
      | Some q \<Rightarrow> said sequence_clauses s' = said sequence_clauses s \<and> st_ph (m_map s' k t) = q) \<and>
     (\<forall>k' t'. \<not> (k' = k \<and> t' = t) \<longrightarrow> st_ph (m_map s' k' t') = st_ph (m_map s k' t')) \<and>
     (said sequence_clauses s \<longrightarrow> said sequence_clauses s')"

lemma response_path_steps:
  "check_response_path k t x s = Some s' \<Longrightarrow> m_map s' = m_map s \<and> said sequence_clauses s' = said sequence_clauses s"
  by (simp add: response_path_frame)

lemma running_iff: "running q \<longleftrightarrow> q = Phase BEGIN_REQ \<or> q = Phase END_REQ \<or> q = Phase BEGIN_RESP"
proof (cases q)
  case (Phase r)
  then show ?thesis by (cases r) (simp_all add: running_def)
qed (simp_all add: running_def)

lemma fw_pre_steps: "steps_as k t (Fwd p) s (nb_transport_fw_pre_checks k t x p tm s)"
proof (cases p)
  case (Phase q)
  then show ?thesis
    by (cases q) (auto simp: steps_as_def nb_transport_fw_pre_checks_def Let_def initial_state_said running_iff)
qed (auto simp: steps_as_def nb_transport_fw_pre_checks_def Let_def)

lemma response_steps:
  assumes "nb_transport_response_checks k t x p tm s = Some s'"
  shows "steps_as k t (Bwd p) s s'"
proof (cases p)
  case (Phase q)
  show ?thesis
  proof (cases "q = BEGIN_RESP")
    case True
    with assms Phase show ?thesis
      by (auto simp: steps_as_def nb_transport_response_checks_def Let_def split: bind_splits dest!: response_path_steps)
  next
    case False
    with assms Phase show ?thesis
      by (cases q) (auto simp: steps_as_def nb_transport_response_checks_def Let_def)
  qed
qed (use assms in \<open>auto simp: steps_as_def nb_transport_response_checks_def Let_def\<close>)

lemma not_modified_steps:
  assumes "check_trans_not_modified k t x s1 = Some s'" and "steps_as k' t' m s s1"
  shows "steps_as k' t' m s s'"
proof -
  have "said sequence_clauses s' = said sequence_clauses s1" by (rule not_modified_frame(6)[OF assms(1)]) simp
  with assms(2) not_modified_frame(3)[OF assms(1)] show ?thesis unfolding steps_as_def by presburger
qed

lemma fw_post_steps:
  assumes "nb_transport_fw_post_checks k t x p0 p tm st s = Some s'"
  shows "steps_as k t (Fwd_Back p st) s s'"
proof -
  obtain s1 where s1: "(case st of
            TLM_UPDATED \<Rightarrow> nb_transport_response_checks k t x p tm s
          | TLM_COMPLETED \<Rightarrow> do {
              s \<leftarrow> (if p0 = Phase BEGIN_REQ then check_response_path k t x s else Some s);
              Some (set_tx k t (\<lambda>st. st\<lparr>st_ph := UNINITIALIZED_PHASE\<rparr>)
                (s\<lparr>m_request_in_progress := (m_request_in_progress s)(k := None)\<rparr>))
            }
          | TLM_ACCEPTED \<Rightarrow> Some s) = Some s1"
      and mod: "check_trans_not_modified k t x s1 = Some s'"
    using assms unfolding nb_transport_fw_post_checks_def bind_eq_Some_conv by blast
  have "steps_as k t (Fwd_Back p st) s s1"
  proof (cases st)
    case TLM_UPDATED
    then show ?thesis using s1 response_steps[of k t x p tm s s1] by (simp add: steps_as_def)
  next
    case TLM_COMPLETED
    then show ?thesis using s1 by (auto simp: steps_as_def split: bind_splits if_splits dest!: response_path_steps)
  qed (use s1 in \<open>simp add: steps_as_def\<close>)
  with mod show ?thesis by (rule not_modified_steps)
qed

lemma bw_pre_steps:
  assumes "nb_transport_bw_pre_checks k t x p tm s = Some s'"
  shows "steps_as k t (Bwd p) s s'"
  using response_steps[OF assms[unfolded nb_transport_bw_pre_checks_def Let_def]] by (simp add: steps_as_def split: option.splits)

lemma bw_post_steps:
  assumes "nb_transport_bw_post_checks k t x p tm st s = Some s'"
  shows "steps_as k t (Bwd_Back p st) s s'"
proof (rule not_modified_steps[OF assms[unfolded nb_transport_bw_post_checks_def]], cases st)
  case TLM_UPDATED
  show "steps_as k t (Bwd_Back p st) s (case st of
          TLM_UPDATED \<Rightarrow>
            let s = (case p of
                       Phase BEGIN_REQ \<Rightarrow> tlm2error True (Error Clause_7_2_3_i) s
                     | Phase END_RESP \<Rightarrow>
                         let s = tlm2error (st_ph (m_map s k t) \<noteq> Phase BEGIN_RESP) (Error Clause_7_2_3_i) s
                         in s\<lparr>m_response_in_progress := (m_response_in_progress s)(k := None)\<rparr>
                     | Extended _ \<Rightarrow> s
                     | _ \<Rightarrow> tlm2error True (Error Clause_7_2_3_d) s)
            in check_time k t tm (keep_phase k t p s)
        | TLM_COMPLETED \<Rightarrow> set_tx k t (\<lambda>st. st\<lparr>st_ph := UNINITIALIZED_PHASE\<rparr>)
            (s\<lparr>m_response_in_progress := (m_response_in_progress s)(k := None)\<rparr>)
        | TLM_ACCEPTED \<Rightarrow> s)"
  proof (cases p)
    case (Phase q)
    then show ?thesis by (cases q) (auto simp: TLM_UPDATED steps_as_def Let_def)
  qed (auto simp: TLM_UPDATED steps_as_def Let_def)
qed (simp_all add: steps_as_def)

lemma step_steps:
  assumes "check_step e s = Some s'" and "hop e = Some (k, t, m)" and "num_checks s \<noteq> 0"
  shows "steps_as k t m s s'"
  using assms fw_pre_steps fw_post_steps bw_pre_steps bw_post_steps by (cases e) auto

lemma step_off_hop:
  assumes "check_step e s = Some s'" and "hop e = None"
  shows "st_ph (m_map s' k t) = st_ph (m_map s k t) \<and> said sequence_clauses s' = said sequence_clauses s"
proof (cases e)
  case (B_Call k' t' x mp)
  then have "s' = s \<or> s' = b_transport_pre_checks k' t' x mp s" using assms by (auto split: if_splits)
  then show ?thesis by (auto simp: b_transport_pre_checks_def Let_def initial_state_said)
next
  case (B_Return k' t' x)
  show ?thesis
  proof (cases "num_checks s = 0")
    case False
    then obtain s1 s2 where "check_response_path k' t' x s = Some s1" "check_trans_not_modified k' t' x s1 = Some s2"
        "s' = set_tx k' t' (\<lambda>st. st\<lparr>st_b_call := st_b_call st - 1\<rparr>) s2"
      using assms(1) B_Return by (auto simp: b_transport_post_checks_def split: bind_splits)
    then show ?thesis using response_path_steps[of k' t' x s s1] not_modified_frame[of k' t' x s1 s2] by simp
  qed (use assms B_Return in simp)
qed (use assms in \<open>auto simp: get_direct_mem_ptr_pre_checks_def transport_dbg_pre_checks_def transport_dbg_post_checks_def Let_def\<close>)

lemma num_checks_down:
  assumes "check_step e s = Some s'" and "num_checks s' \<noteq> 0"
  shows "num_checks s \<noteq> 0"
proof
  assume "num_checks s = 0"
  with assms show False
    by (cases e) (auto simp: get_direct_mem_ptr_pre_checks_def transport_dbg_pre_checks_def transport_dbg_post_checks_def Let_def)
qed

lemma num_checks_down_run: "check_run es s = Some s' \<Longrightarrow> num_checks s' \<noteq> 0 \<Longrightarrow> num_checks s \<noteq> 0"
  by (induction es arbitrary: s) (auto split: bind_splits dest: num_checks_down)

lemma said_stays: "check_run es s = Some s' \<Longrightarrow> num_checks s' \<noteq> 0 \<Longrightarrow> said sequence_clauses s \<Longrightarrow> said sequence_clauses s'"
proof (induction es arbitrary: s)
  case (Cons e es)
  then obtain s1 where s1: "check_step e s = Some s1" "check_run es s1 = Some s'" by (auto split: bind_splits)
  have "num_checks s \<noteq> 0" using Cons.prems(1,2) by (rule num_checks_down_run)
  then have "said sequence_clauses s1"
    using s1(1) step_steps[OF s1(1)] step_off_hop[OF s1(1)] Cons.prems(3) by (cases "hop e") (auto simp: steps_as_def)
  then show ?case using Cons.IH s1(2) Cons.prems(2) by blast
qed simp

lemma run_phases:
  assumes "check_run es s = Some s'" and "num_checks s' \<noteq> 0" and "\<not> said sequence_clauses s"
  shows "\<not> said sequence_clauses s' \<longleftrightarrow>
    (\<forall>k t. phases (moves k t es) (st_ph (m_map s k t)) = Some (st_ph (m_map s' k t)))"
  using assms
proof (induction es arbitrary: s)
  case (Cons e es)
  obtain s1 where s1: "check_step e s = Some s1" "check_run es s1 = Some s'" using Cons.prems(1) by (auto split: bind_splits)
  have n: "num_checks s \<noteq> 0" using Cons.prems(1,2) by (rule num_checks_down_run)
  show ?case
  proof (cases "hop e")
    case None
    then show ?thesis using Cons.IH[OF s1(2) Cons.prems(2)] step_off_hop[OF s1(1) None] Cons.prems(3) by simp
  next
    case (Some h)
    obtain k t m where h: "hop e = Some (k, t, m)" using Some by (cases h) auto
    have st: "steps_as k t m s s1" using step_steps[OF s1(1) h n] .
    show ?thesis
    proof (cases "next_phase m (st_ph (m_map s k t))")
      case None
      then have "said sequence_clauses s1" using st by (simp add: steps_as_def)
      then have "said sequence_clauses s'" using said_stays[OF s1(2) Cons.prems(2)] by blast
      moreover have "phases (moves k t (e # es)) (st_ph (m_map s k t)) = None" using None h by simp
      ultimately show ?thesis by (metis option.distinct(1))
    next
      case (Some q)
      then have q: "\<not> said sequence_clauses s1" "st_ph (m_map s1 k t) = q"
          "\<And>k' t'. \<not> (k' = k \<and> t' = t) \<Longrightarrow> st_ph (m_map s1 k' t') = st_ph (m_map s k' t')"
        using st Cons.prems(3) by (auto simp: steps_as_def)
      have "phases (moves k' t' (e # es)) (st_ph (m_map s k' t')) = phases (moves k' t' es) (st_ph (m_map s1 k' t'))" for k' t'
        using q(2,3) Some h by (cases "k' = k \<and> t' = t") auto
      then show ?thesis using Cons.IH[OF s1(2) Cons.prems(2) q(1)] by simp
    qed
  qed
qed simp

section \<open>Exclusion\<close>

definition protocol_clauses :: "clause set" where
  "protocol_clauses = {Clause_7_2_3_d, Clause_7_2_3_i, Clause_7_2_4_b, Clause_7_2_4_c}"

lemma protocol_clauses_simps [simp]:
  "protocol_clauses \<inter> attribute_clauses = {}" "Clause_7_2_5_m_n \<notin> protocol_clauses" "Clause_7_2_5_e \<notin> protocol_clauses"
  "Clause_7_2_5_k \<notin> protocol_clauses" "Clause_6_5_h \<notin> protocol_clauses" "Clause_6_5_s \<notin> protocol_clauses"
  "Clause_4_1_1_4_b \<notin> protocol_clauses" "Clause_6_7 \<notin> protocol_clauses"
  "Clause_7_2_3_d \<in> protocol_clauses" "Clause_7_2_3_i \<in> protocol_clauses" "Clause_7_2_4_b \<in> protocol_clauses"
  "Clause_7_2_4_c \<in> protocol_clauses"
  "Clause_4_2_5_a \<notin> protocol_clauses" "Clause_4_2_5_f \<notin> protocol_clauses" "Clause_4_2_5_s \<notin> protocol_clauses"
  "Clause_4_2_5_aa \<notin> protocol_clauses" "Clause_4_3_4_j \<notin> protocol_clauses" "Clause_4_3_4_o \<notin> protocol_clauses"
  by (auto simp: protocol_clauses_def attribute_clauses_def)

definition exclusive :: "checkers \<Rightarrow> bool" where
  "exclusive s \<longleftrightarrow> (\<forall>k t.
     (st_ph (m_map s k t) = Phase BEGIN_REQ \<longrightarrow> m_request_in_progress s k = Some t) \<and>
     (st_ph (m_map s k t) = Phase BEGIN_RESP \<longrightarrow> m_response_in_progress s k = Some t))"

definition exclusive_unless_said :: "checkers \<Rightarrow> checkers \<Rightarrow> bool" where
  "exclusive_unless_said s s' \<longleftrightarrow> (\<not> said protocol_clauses s' \<longrightarrow> \<not> said protocol_clauses s \<and> (exclusive s \<longrightarrow> exclusive s'))"

lemma fw_pre_exclusive: "exclusive_unless_said s (nb_transport_fw_pre_checks k t x p tm s)"
proof (cases p)
  case (Phase q)
  then show ?thesis
    by (cases q; auto simp: exclusive_unless_said_def exclusive_def nb_transport_fw_pre_checks_def Let_def initial_state_said;
      (metis option.inject)?)
qed (auto simp: exclusive_unless_said_def exclusive_def nb_transport_fw_pre_checks_def Let_def)

lemma response_path_exclusive:
  "check_response_path k t x s = Some s' \<Longrightarrow> m_map s' = m_map s \<and> said protocol_clauses s' = said protocol_clauses s \<and>
    m_request_in_progress s' = m_request_in_progress s \<and> m_response_in_progress s' = m_response_in_progress s"
  by (simp add: response_path_frame)

lemma response_exclusive:
  assumes "nb_transport_response_checks k t x p tm s = Some s'"
  shows "exclusive_unless_said s s'"
proof (cases p)
  case (Phase q)
  show ?thesis
  proof (cases "q = BEGIN_RESP")
    case True
    have ph: "st_ph (m_map s' k' t') = (if k' = k \<and> t' = t then Phase BEGIN_RESP else st_ph (m_map s k' t'))" for k' t'
      using assms Phase True
      by (auto simp: nb_transport_response_checks_def Let_def split: bind_splits dest!: response_path_exclusive)
    have sync: "m_response_in_progress s' = (m_response_in_progress s)(k := Some t)"
        "m_request_in_progress s' = (if m_request_in_progress s k = Some t then (m_request_in_progress s)(k := None)
           else m_request_in_progress s)"
      using assms Phase True
      by (auto simp: nb_transport_response_checks_def Let_def split: bind_splits dest!: response_path_exclusive)
    have "said protocol_clauses s' \<longleftrightarrow> said protocol_clauses s \<or> m_response_in_progress s k \<noteq> None \<or>
        (st_ph (m_map s k t) \<noteq> Phase BEGIN_REQ \<and> st_ph (m_map s k t) \<noteq> Phase END_REQ)"
      using assms Phase True
      by (auto simp: nb_transport_response_checks_def Let_def split: bind_splits dest!: response_path_exclusive)
    then show ?thesis using ph sync by (auto simp: exclusive_unless_said_def exclusive_def; (metis option.inject)?)
  next
    case False
    show ?thesis
    proof (cases "q = END_REQ")
      case True
      have ph: "st_ph (m_map s' k' t') = (if k' = k \<and> t' = t then Phase END_REQ else st_ph (m_map s k' t'))"
          "m_response_in_progress s' = m_response_in_progress s"
          "m_request_in_progress s' = (m_request_in_progress s)(k := None)"
          "said protocol_clauses s' \<longleftrightarrow> said protocol_clauses s \<or> st_ph (m_map s k t) \<noteq> Phase BEGIN_REQ" for k' t'
        using assms Phase True by (auto simp: nb_transport_response_checks_def Let_def)
      then show ?thesis by (auto simp: exclusive_unless_said_def exclusive_def; (metis option.inject)?)
    next
      case other: False
      with assms Phase False have "said protocol_clauses s'"
        by (cases q) (auto simp: nb_transport_response_checks_def Let_def)
      then show ?thesis by (simp add: exclusive_unless_said_def)
    qed
  qed
qed (use assms in \<open>auto simp: exclusive_unless_said_def exclusive_def nb_transport_response_checks_def Let_def\<close>)

lemma not_modified_exclusive:
  assumes "check_trans_not_modified k t x s1 = Some s'"
  shows "exclusive s' = exclusive s1 \<and> said protocol_clauses s' = said protocol_clauses s1"
proof -
  have "said protocol_clauses s' = said protocol_clauses s1" by (rule not_modified_frame(6)[OF assms]) simp
  then show ?thesis using not_modified_frame[OF assms] by (simp add: exclusive_def)
qed

text \<open>A return of \<^verbatim>\<open>TLM_COMPLETED\<close> on the forward path answers the request, on the backward path the response.\<close>

fun completes_own :: "check_event \<Rightarrow> checkers \<Rightarrow> bool" where
  "completes_own (Fw_Return k t x p tm TLM_COMPLETED) s \<longleftrightarrow> st_ph (m_map s k t) = Phase BEGIN_REQ"
| "completes_own (Bw_Return k t x p tm TLM_COMPLETED) s \<longleftrightarrow> st_ph (m_map s k t) = Phase BEGIN_RESP"
| "completes_own _ s \<longleftrightarrow> True"

lemma fw_post_exclusive:
  assumes "nb_transport_fw_post_checks k t x p0 p tm st s = Some s'" and "completes_own (Fw_Return k t x p tm st) s"
  shows "exclusive_unless_said s s'"
proof -
  obtain s1 where s1: "(case st of
            TLM_UPDATED \<Rightarrow> nb_transport_response_checks k t x p tm s
          | TLM_COMPLETED \<Rightarrow> do {
              s \<leftarrow> (if p0 = Phase BEGIN_REQ then check_response_path k t x s else Some s);
              Some (set_tx k t (\<lambda>st. st\<lparr>st_ph := UNINITIALIZED_PHASE\<rparr>)
                (s\<lparr>m_request_in_progress := (m_request_in_progress s)(k := None)\<rparr>))
            }
          | TLM_ACCEPTED \<Rightarrow> Some s) = Some s1"
      and mod: "check_trans_not_modified k t x s1 = Some s'"
    using assms(1) unfolding nb_transport_fw_post_checks_def bind_eq_Some_conv by blast
  have "exclusive_unless_said s s1"
  proof (cases st)
    case TLM_UPDATED
    then show ?thesis using s1 response_exclusive by simp
  next
    case TLM_COMPLETED
    have ph: "st_ph (m_map s1 k' t') = (if k' = k \<and> t' = t then UNINITIALIZED_PHASE else st_ph (m_map s k' t'))"
        "m_response_in_progress s1 = m_response_in_progress s"
        "m_request_in_progress s1 = (m_request_in_progress s)(k := None)"
        "said protocol_clauses s1 = said protocol_clauses s" for k' t'
      using s1 TLM_COMPLETED by (auto split: bind_splits if_splits dest!: response_path_exclusive)
    moreover have "st_ph (m_map s k t) = Phase BEGIN_REQ" using assms(2) TLM_COMPLETED by simp
    ultimately show ?thesis by (auto simp: exclusive_unless_said_def exclusive_def; (metis option.inject)?)
  qed (use s1 in \<open>simp add: exclusive_unless_said_def\<close>)
  then show ?thesis using not_modified_exclusive[OF mod] by (simp add: exclusive_unless_said_def)
qed

lemma bw_pre_exclusive:
  assumes "nb_transport_bw_pre_checks k t x p tm s = Some s'"
  shows "exclusive_unless_said s s'"
  using response_exclusive[OF assms[unfolded nb_transport_bw_pre_checks_def Let_def]]
  by (simp add: exclusive_unless_said_def exclusive_def)

lemma bw_post_exclusive:
  assumes "nb_transport_bw_post_checks k t x p tm st s = Some s'" and "completes_own (Bw_Return k t x p tm st) s"
  shows "exclusive_unless_said s s'"
proof -
  obtain s1 where s1: "s1 = (case st of
          TLM_UPDATED \<Rightarrow>
            let s = (case p of
                       Phase BEGIN_REQ \<Rightarrow> tlm2error True (Error Clause_7_2_3_i) s
                     | Phase END_RESP \<Rightarrow>
                         let s = tlm2error (st_ph (m_map s k t) \<noteq> Phase BEGIN_RESP) (Error Clause_7_2_3_i) s
                         in s\<lparr>m_response_in_progress := (m_response_in_progress s)(k := None)\<rparr>
                     | Extended _ \<Rightarrow> s
                     | _ \<Rightarrow> tlm2error True (Error Clause_7_2_3_d) s)
            in check_time k t tm (keep_phase k t p s)
        | TLM_COMPLETED \<Rightarrow> set_tx k t (\<lambda>st. st\<lparr>st_ph := UNINITIALIZED_PHASE\<rparr>)
            (s\<lparr>m_response_in_progress := (m_response_in_progress s)(k := None)\<rparr>)
        | TLM_ACCEPTED \<Rightarrow> s)"
      and mod: "check_trans_not_modified k t x s1 = Some s'"
    using assms(1) unfolding nb_transport_bw_post_checks_def by blast
  consider "st = TLM_ACCEPTED" | n where "st = TLM_UPDATED" "p = Extended n"
    | (ended) "st = TLM_COMPLETED \<or> st = TLM_UPDATED \<and> p = Phase END_RESP"
    | (said) "st = TLM_UPDATED" "\<forall>n. p \<noteq> Extended n" "p \<noteq> Phase END_RESP"
    by (metis tlm_sync.exhaust)
  then have "exclusive_unless_said s s1"
  proof cases
    case ended
    let ?q = "if st = TLM_COMPLETED then UNINITIALIZED_PHASE else Phase END_RESP"
    have ph: "st_ph (m_map s1 k' t') = (if k' = k \<and> t' = t then ?q else st_ph (m_map s k' t'))"
        "m_response_in_progress s1 = (m_response_in_progress s)(k := None)"
        "m_request_in_progress s1 = m_request_in_progress s"
        "\<not> said protocol_clauses s1 \<longrightarrow> \<not> said protocol_clauses s \<and> st_ph (m_map s k t) = Phase BEGIN_RESP" for k' t'
      using s1 ended assms(2) by auto
    then show ?thesis by (auto simp: exclusive_unless_said_def exclusive_def; (metis option.inject)?)
  next
    case said
    with s1 have "said protocol_clauses s1" by (cases p; (cases "case p of Phase q \<Rightarrow> q")?) (auto simp: Let_def)
    then show ?thesis by (simp add: exclusive_unless_said_def)
  qed (use s1 in \<open>simp_all add: exclusive_unless_said_def exclusive_def\<close>)
  then show ?thesis using not_modified_exclusive[OF mod] by (simp add: exclusive_unless_said_def)
qed

lemma off_hop_exclusive:
  assumes "check_step e s = Some s'" and "hop e = None"
  shows "exclusive_unless_said s s'"
proof (cases e)
  case (B_Call k' t' x mp)
  then have "s' = s \<or> s' = b_transport_pre_checks k' t' x mp s" using assms by (auto split: if_splits)
  then show ?thesis by (auto simp: b_transport_pre_checks_def Let_def initial_state_said exclusive_unless_said_def exclusive_def split: if_splits)
next
  case (B_Return k' t' x)
  show ?thesis
  proof (cases "num_checks s = 0")
    case False
    then obtain s1 s2 where s: "check_response_path k' t' x s = Some s1" "check_trans_not_modified k' t' x s1 = Some s2"
        "s' = set_tx k' t' (\<lambda>st. st\<lparr>st_b_call := st_b_call st - 1\<rparr>) s2"
      using assms(1) B_Return by (auto simp: b_transport_post_checks_def split: bind_splits)
    then show ?thesis using response_path_exclusive[OF s(1)] not_modified_exclusive[OF s(2)]
      by (auto simp: exclusive_unless_said_def exclusive_def split: if_splits)
  qed (use assms B_Return in \<open>simp add: exclusive_unless_said_def\<close>)
qed (use assms in \<open>auto simp: get_direct_mem_ptr_pre_checks_def transport_dbg_pre_checks_def transport_dbg_post_checks_def
    Let_def exclusive_unless_said_def exclusive_def\<close>)

lemma step_exclusive:
  assumes "check_step e s = Some s'" and "num_checks s \<noteq> 0" and "completes_own e s"
  shows "exclusive_unless_said s s'"
proof (cases "hop e")
  case None
  then show ?thesis using assms off_hop_exclusive by blast
next
  case Some
  then show ?thesis
    using assms fw_pre_exclusive fw_post_exclusive response_exclusive bw_pre_exclusive bw_post_exclusive by (cases e) auto
qed

fun completes_own_run :: "check_event list \<Rightarrow> checkers \<Rightarrow> bool" where
  "completes_own_run [] s \<longleftrightarrow> True"
| "completes_own_run (e # es) s \<longleftrightarrow>
     completes_own e s \<and> (case check_step e s of None \<Rightarrow> True | Some s' \<Rightarrow> completes_own_run es s')"

lemma run_exclusive:
  "check_run es s = Some s' \<Longrightarrow> num_checks s' \<noteq> 0 \<Longrightarrow> completes_own_run es s \<Longrightarrow> exclusive_unless_said s s'"
proof (induction es arbitrary: s)
  case (Cons e es)
  then obtain s1 where s1: "check_step e s = Some s1" "check_run es s1 = Some s'" by (auto split: bind_splits)
  have "num_checks s \<noteq> 0" using Cons.prems(1,2) by (rule num_checks_down_run)
  with s1(1) Cons.prems(3) have "exclusive_unless_said s s1" by (simp add: step_exclusive)
  moreover have "exclusive_unless_said s1 s'" using Cons.IH[OF s1(2) Cons.prems(2)] Cons.prems(3) s1(1) by simp
  ultimately show ?case by (auto simp: exclusive_unless_said_def)
qed (simp add: exclusive_unless_said_def)

end
