(* ===== verification/Checker_Rules.thy ===== *)
theory Checker_Rules
  imports Checker_Protocol
begin

text \<open>
  The properties of the compliance checkers: what a run without reports shows, and a violation they miss.
\<close>

section \<open>Phases and exclusion\<close>

text \<open>C2: The checkers decide the base protocol. As long as checking is active, a run is free of reports about phases
  if and only if on every hop the phases of every transaction follow the base protocol; and then the phase a checker keeps
  is the phase of the protocol.\<close>

theorem checker_decides_phases:
  assumes "check_run es new_checkers = Some s" and "num_checks s \<noteq> 0"
  shows "\<not> said sequence_clauses s \<longleftrightarrow>
    (\<forall>k t. phases (moves k t es) UNINITIALIZED_PHASE = Some (st_ph (m_map s k t)))"
  using run_phases[OF assms] by (simp add: new_checkers_def new_tx_state_def said_def)

definition plain_tx :: checked_tx where
  "plain_tx = \<lparr>tx_has_mm = True, tx_refs = 1, tx_command = TLM_READ_COMMAND, tx_data = Some (1, \<lambda>_. 0), tx_length = 4,
     tx_be = None, tx_be_length = 0, tx_width = 4, tx_dmi = False, tx_response = TLM_INCOMPLETE_RESPONSE, tx_exts = []\<rparr>"

abbreviation (input) answered :: checked_tx where
  "answered \<equiv> plain_tx\<lparr>tx_response := TLM_OK_RESPONSE\<rparr>"

text \<open>A transaction in four phases: the request is accepted, the response comes on the backward path.\<close>

definition four_phases :: "check_event list" where
  "four_phases = [Fw_Call 0 1 plain_tx (Phase BEGIN_REQ) 10, Fw_Return 0 1 plain_tx (Phase END_REQ) 20 TLM_UPDATED,
     Bw_Call 0 1 answered (Phase BEGIN_RESP) 30, Bw_Return 0 1 answered (Phase END_RESP) 40 TLM_UPDATED]"

definition run_ends :: "check_event list \<Rightarrow> (checkers \<Rightarrow> bool) \<Rightarrow> bool" where
  "run_ends es P = (case check_run es new_checkers of None \<Rightarrow> False | Some s \<Rightarrow> P s)"

lemma run_endsD: "run_ends es P \<Longrightarrow> \<exists>s. check_run es new_checkers = Some s \<and> P s"
  by (simp add: run_ends_def split: option.splits)

lemma four_phases_run: "run_ends four_phases (\<lambda>s. num_checks s = 99999 \<and> reports s = [])"
  by code_simp

lemma checker_decides_phases_witness:
  "\<exists>s. phases (moves 0 1 four_phases) UNINITIALIZED_PHASE = Some (st_ph (m_map s 0 1)) \<and> num_checks (s :: checkers) = 99999"
proof -
  obtain s where s: "check_run four_phases new_checkers = Some s" "num_checks s = 99999" "reports s = []"
    using run_endsD[OF four_phases_run] by blast
  have "\<not> said sequence_clauses s" using s(3) by (simp add: said_def)
  with checker_decides_phases[OF s(1)] s(2) show ?thesis by auto
qed



text \<open>A target ends the response of the first transaction with \<^verbatim>\<open>TLM_COMPLETED\<close> while the request of the second is in
  progress, then a third request is sent.\<close>

definition completed_end_resp :: "check_event list" where
  "completed_end_resp = [Fw_Call 0 1 plain_tx (Phase BEGIN_REQ) 10, Fw_Return 0 1 answered (Phase BEGIN_RESP) 20 TLM_UPDATED,
     Fw_Call 0 2 plain_tx (Phase BEGIN_REQ) 30, Fw_Return 0 2 plain_tx (Phase BEGIN_REQ) 30 TLM_ACCEPTED,
     Fw_Call 0 1 answered (Phase END_RESP) 40, Fw_Return 0 1 answered (Phase END_RESP) 40 TLM_COMPLETED,
     Fw_Call 0 3 plain_tx (Phase BEGIN_REQ) 50]"

text \<open>A violation the checker misses. Any return of \<^verbatim>\<open>TLM_COMPLETED\<close> on the forward path clears the request in
  progress, the answer to \<^verbatim>\<open>END_RESP\<close> included: there is a run in which two transactions are between
  \<^verbatim>\<open>BEGIN_REQ\<close> and \<^verbatim>\<open>END_REQ\<close> on one hop and nothing at all is reported.\<close>

theorem exclusion_violation_missed:
  "\<exists>s. check_run completed_end_resp new_checkers = Some s \<and> num_checks s \<noteq> 0 \<and> reports s = [] \<and>
     st_ph (m_map s 0 2) = Phase BEGIN_REQ \<and> st_ph (m_map s 0 3) = Phase BEGIN_REQ"
proof -
  have "run_ends completed_end_resp (\<lambda>s. num_checks s \<noteq> 0 \<and> reports s = [] \<and>
      st_ph (m_map s 0 2) = Phase BEGIN_REQ \<and> st_ph (m_map s 0 3) = Phase BEGIN_REQ)"
    by code_simp
  then show ?thesis by (rule run_endsD)
qed

section \<open>The path of the response\<close>

fun request_path :: "nat list \<Rightarrow> nat \<Rightarrow> checked_tx \<Rightarrow> checkers \<Rightarrow> checkers" where
  "request_path [] t x s = s"
| "request_path (k # ks) t x s = request_path ks t x (check_initial_state k t x s)"

fun response_path :: "nat list \<Rightarrow> nat \<Rightarrow> checked_tx \<Rightarrow> checkers \<Rightarrow> checkers option" where
  "response_path [] t x s = Some s"
| "response_path (k # ks) t x s = do { s \<leftarrow> check_response_path k t x s; response_path ks t x s }"

lemma request_path_frame:
  "sp_path (shared_map (request_path ks t x s) t) = sp_path (shared_map s t) @ ks \<and>
   said {Clause_7_2_5_m_n} (request_path ks t x s) = said {Clause_7_2_5_m_n} s"
  by (induction ks arbitrary: s) (simp_all add: initial_state_said attribute_clauses_def)

lemma response_path_one:
  assumes "tx_data x \<noteq> None" and "sp_path (shared_map s t) \<noteq> []"
  shows "\<exists>s'. check_response_path k t x s = Some s' \<and> sp_path (shared_map s' t) = butlast (sp_path (shared_map s t)) \<and>
    said {Clause_7_2_5_m_n} s' = (said {Clause_7_2_5_m_n} s \<or> k \<noteq> last (sp_path (shared_map s t)))"
  using assms by (auto simp: check_response_path_def Let_def)

lemma response_path_frame_all:
  assumes "tx_data x \<noteq> None" and "length js \<le> length (sp_path (shared_map s t))"
  shows "\<exists>s'. response_path js t x s = Some s' \<and>
    said {Clause_7_2_5_m_n} s' = (said {Clause_7_2_5_m_n} s \<or> js \<noteq> take (length js) (rev (sp_path (shared_map s t))))"
  using assms(2)
proof (induction js arbitrary: s)
  case (Cons j js)
  let ?p = "sp_path (shared_map s t)"
  have ne: "?p \<noteq> []" using Cons.prems by auto
  obtain s1 where s1: "check_response_path j t x s = Some s1" "sp_path (shared_map s1 t) = butlast ?p"
      "said {Clause_7_2_5_m_n} s1 = (said {Clause_7_2_5_m_n} s \<or> j \<noteq> last ?p)"
    using response_path_one[OF assms(1) ne] by blast
  have "length js \<le> length (sp_path (shared_map s1 t))" using Cons.prems s1(2) by simp
  from Cons.IH[OF this] obtain s' where "response_path js t x s1 = Some s'"
      "said {Clause_7_2_5_m_n} s' = (said {Clause_7_2_5_m_n} s1 \<or> js \<noteq> take (length js) (rev (butlast ?p)))"
    using s1(2) by auto
  moreover obtain p l where "?p = p @ [l]" using ne by (metis append_butlast_last_id)
  ultimately show ?case using s1 by auto
qed simp

text \<open>A response must take the path of its request backwards. When a transaction has passed the checkers \<open>ks\<close> with its
  request and passes the checkers \<open>js\<close> with its response, the checkers report the path if and only if \<open>js\<close> is not the
  reverse of the path of the request.\<close>

theorem response_path_reversed:
  assumes "tx_data x \<noteq> None" and "tx_data y \<noteq> None" and "sp_path (shared_map s t) = []" and "length js = length ks"
  shows "\<exists>s'. response_path js t y (request_path ks t x s) = Some s' \<and>
    (said {Clause_7_2_5_m_n} s' \<longleftrightarrow> said {Clause_7_2_5_m_n} s \<or> js \<noteq> rev ks)"
proof -
  let ?r = "request_path ks t x s"
  have r: "sp_path (shared_map ?r t) = ks" "said {Clause_7_2_5_m_n} ?r = said {Clause_7_2_5_m_n} s"
    using request_path_frame[of ks t x s] assms(3) by auto
  have "length js \<le> length (sp_path (shared_map ?r t))" using r(1) assms(4) by simp
  from response_path_frame_all[OF assms(2) this] show ?thesis using r assms(4) by simp
qed

lemma response_path_reversed_witness:
  "\<exists>s'. response_path [2, 1] 7 answered (request_path [1, 2] 7 plain_tx new_checkers) = Some s' \<and> \<not> said {Clause_7_2_5_m_n} s'"
proof -
  have "tx_data plain_tx \<noteq> None" "tx_data answered \<noteq> None" "sp_path (shared_map new_checkers 7) = []"
      "length [2 :: nat, 1] = length [1 :: nat, 2]" "\<not> said {Clause_7_2_5_m_n} new_checkers"
    by (simp_all add: plain_tx_def new_checkers_def new_path_t_def said_def)
  from response_path_reversed[OF this(1-4)] this(5) show ?thesis by simp
qed

end
