(* ===== verification/Checker_Attributes.thy ===== *)
theory Checker_Attributes
  imports Checker_Rules
begin

text \<open>
  The attributes of a transaction stay what they were when it entered a hop, and its annotated times never decrease,
  unless the checker of the hop reports it.
\<close>

section \<open>The copy of a transaction\<close>

text \<open>The value a transaction had when it last entered a hop.\<close>

fun enters :: "nat \<Rightarrow> nat \<Rightarrow> check_event \<Rightarrow> checked_tx option" where
  "enters k t (Fw_Call k' t' x p tm) = (if k' = k \<and> t' = t \<and> p = Phase BEGIN_REQ then Some x else None)"
| "enters k t (B_Call k' t' x mp) = (if k' = k \<and> t' = t then Some x else None)"
| "enters k t _ = None"

definition entered :: "nat \<Rightarrow> nat \<Rightarrow> check_event list \<Rightarrow> checked_tx option" where
  "entered k t es = foldl (\<lambda>b e. case enters k t e of None \<Rightarrow> b | Some x \<Rightarrow> Some x) None es"

fun returns :: "check_event \<Rightarrow> (nat \<times> nat \<times> checked_tx) option" where
  "returns (Fw_Return k t x p tm st) = Some (k, t, x)"
| "returns (Bw_Return k t x p tm st) = Some (k, t, x)"
| "returns (B_Return k t x) = Some (k, t, x)"
| "returns _ = None"

definition copy_of :: "checked_tx option \<Rightarrow> checked_tx option \<times> nat option \<times> nat option" where
  "copy_of b = (case b of None \<Rightarrow> (None, None, None) | Some x \<Rightarrow> (Some x, map_option fst (tx_data x), map_option fst (tx_be x)))"

definition kept :: "checkers \<Rightarrow> nat \<Rightarrow> nat \<Rightarrow> checked_tx option \<times> nat option \<times> nat option" where
  "kept s k t = (st_gp (m_map s k t), st_data_ptr (m_map s k t), st_be_ptr (m_map s k t))"

lemma kept_frame [simp]:
  "kept (tlm2error b r s) k t = kept s k t" "kept (set_path u g s) k t = kept s k t"
  "kept (keep_phase k' t' p s) k t = kept s k t" "kept (check_time k' t' tm s) k t = kept s k t"
  "kept (s\<lparr>m_request_in_progress := i\<rparr>) k t = kept s k t" "kept (s\<lparr>m_response_in_progress := j\<rparr>) k t = kept s k t"
  "kept (if c then s\<lparr>m_request_in_progress := i\<rparr> else s) k t = kept s k t"
  "kept (set_tx k' t' (\<lambda>st. st\<lparr>st_ph := p\<rparr>) s) k t = kept s k t"
  "kept (set_tx k' t' (\<lambda>st. st\<lparr>st_b_call := f st\<rparr>) s) k t = kept s k t"
  "kept (check_initial_state k' t' x s) k t = (if k' = k \<and> t' = t then copy_of (Some x) else kept s k t)"
  by (simp_all add: kept_def keep_phase_def check_time_def check_initial_state_def copy_of_def Let_def)

lemma same_map_kept: "m_map s' = m_map s \<Longrightarrow> kept s' k t = kept s k t"
  by (simp add: kept_def)

lemma response_checks_kept:
  assumes "nb_transport_response_checks k' t' x p tm s = Some s'"
  shows "kept s' k t = kept s k t"
proof -
  have path: "check_response_path k' t' x s1 = Some s2 \<Longrightarrow> kept s2 k t = kept s1 k t" for s1 s2
    by (rule same_map_kept) (simp add: response_path_frame)
  show ?thesis
  proof (cases p)
    case (Phase q)
    with assms show ?thesis
      by (cases q) (auto simp: nb_transport_response_checks_def Let_def split: bind_splits dest!: path)
  qed (use assms in \<open>auto simp: nb_transport_response_checks_def Let_def\<close>)
qed

lemma fw_pre_kept:
  "kept (nb_transport_fw_pre_checks k' t' x p tm s) k t =
     (if k' = k \<and> t' = t \<and> p = Phase BEGIN_REQ then copy_of (Some x) else kept s k t)"
proof (cases p)
  case (Phase q)
  then show ?thesis by (cases q) (simp_all add: nb_transport_fw_pre_checks_def Let_def)
qed (simp_all add: nb_transport_fw_pre_checks_def Let_def)

text \<open>A return ends with the comparison of the transaction with its copy.\<close>

lemma return_compares:
  assumes "check_step e s = Some s'" and "returns e = Some (k', t', x)" and "num_checks s \<noteq> 0"
  shows "\<exists>s1 s2. check_trans_not_modified k' t' x s1 = Some s2 \<and> kept s1 = kept s \<and> kept s' = kept s2 \<and> reports s' = reports s2"
proof -
  have path: "check_response_path k' t' x s1 = Some s2 \<Longrightarrow> kept s2 = kept s1" for s1 s2
    by (intro ext same_map_kept) (simp add: response_path_frame)
  show ?thesis
  proof (cases e)
    case (Fw_Return k1 t1 x1 p tm st)
    then have e: "k1 = k'" "t1 = t'" "x1 = x" using assms(2) by simp_all
    have "nb_transport_fw_post_checks k' t' x p p tm st s = Some s'" using assms(1,3) Fw_Return e by simp
    then obtain s1 where s1: "(case st of
            TLM_UPDATED \<Rightarrow> nb_transport_response_checks k' t' x p tm s
          | TLM_COMPLETED \<Rightarrow> do {
              s \<leftarrow> (if p = Phase BEGIN_REQ then check_response_path k' t' x s else Some s);
              Some (set_tx k' t' (\<lambda>st. st\<lparr>st_ph := UNINITIALIZED_PHASE\<rparr>)
                (s\<lparr>m_request_in_progress := (m_request_in_progress s)(k' := None)\<rparr>))
            }
          | TLM_ACCEPTED \<Rightarrow> Some s) = Some s1" and mod: "check_trans_not_modified k' t' x s1 = Some s'"
      unfolding nb_transport_fw_post_checks_def bind_eq_Some_conv by blast
    have "kept s1 = kept s"
      using s1 by (cases st) (auto simp: response_checks_kept split: bind_splits if_splits dest!: path intro!: ext)
    with mod show ?thesis by blast
  next
    case (Bw_Return k1 t1 x1 p tm st)
    then have e: "k1 = k'" "t1 = t'" "x1 = x" using assms(2) by simp_all
    have "nb_transport_bw_post_checks k' t' x p tm st s = Some s'" using assms(1,3) Bw_Return e by simp
    then obtain s1 where s1: "s1 = (case st of
          TLM_UPDATED \<Rightarrow>
            let s = (case p of
                       Phase BEGIN_REQ \<Rightarrow> tlm2error True (Error Clause_7_2_3_i) s
                     | Phase END_RESP \<Rightarrow>
                         let s = tlm2error (st_ph (m_map s k' t') \<noteq> Phase BEGIN_RESP) (Error Clause_7_2_3_i) s
                         in s\<lparr>m_response_in_progress := (m_response_in_progress s)(k' := None)\<rparr>
                     | Extended _ \<Rightarrow> s
                     | _ \<Rightarrow> tlm2error True (Error Clause_7_2_3_d) s)
            in check_time k' t' tm (keep_phase k' t' p s)
        | TLM_COMPLETED \<Rightarrow> set_tx k' t' (\<lambda>st. st\<lparr>st_ph := UNINITIALIZED_PHASE\<rparr>)
            (s\<lparr>m_response_in_progress := (m_response_in_progress s)(k' := None)\<rparr>)
        | TLM_ACCEPTED \<Rightarrow> s)" and mod: "check_trans_not_modified k' t' x s1 = Some s'"
      unfolding nb_transport_bw_post_checks_def by blast
    have "kept s1 = kept s"
      unfolding s1 by (auto simp: Let_def fun_eq_iff split: tlm_sync.split phase.split tlm_phase.split)
    with mod show ?thesis by blast
  next
    case (B_Return k1 t1 x1)
    then have e: "k1 = k'" "t1 = t'" "x1 = x" using assms(2) by simp_all
    obtain s1 s2 where s: "check_response_path k' t' x s = Some s1" "check_trans_not_modified k' t' x s1 = Some s2"
        "s' = set_tx k' t' (\<lambda>st. st\<lparr>st_b_call := st_b_call st - 1\<rparr>) s2"
      using assms(1,3) B_Return e by (auto simp: b_transport_post_checks_def split: bind_splits)
    have "kept s' = kept s2" unfolding s(3) by (intro ext) simp
    then show ?thesis using s(2,3) path[OF s(1)] by (intro exI[of _ s1] exI[of _ s2]) simp
  qed (use assms(2) in simp_all)
qed

lemma not_modified_kept: "check_trans_not_modified k' t' x s = Some s' \<Longrightarrow> kept s' = kept s"
  by (intro ext same_map_kept) (simp add: not_modified_frame)

lemma step_kept:
  assumes "check_step e s = Some s'" and "num_checks s \<noteq> 0"
  shows "kept s' k t = (case enters k t e of None \<Rightarrow> kept s k t | Some x \<Rightarrow> copy_of (Some x))"
proof (cases "returns e")
  case (Some r)
  then obtain k' t' x where r: "returns e = Some (k', t', x)" by (cases r) auto
  from return_compares[OF assms(1) this assms(2)] have "kept s' = kept s" using not_modified_kept by metis
  moreover have "enters k t e = None" using r by (cases e) simp_all
  ultimately show ?thesis by simp
next
  case None
  then show ?thesis
    using assms
    by (cases e) (auto simp: fw_pre_kept response_checks_kept nb_transport_bw_pre_checks_def b_transport_pre_checks_def
        get_direct_mem_ptr_pre_checks_def transport_dbg_pre_checks_def transport_dbg_post_checks_def Let_def)
qed

lemma run_kept:
  "check_run es s = Some s' \<Longrightarrow> num_checks s' \<noteq> 0 \<Longrightarrow> kept s k t = copy_of b \<Longrightarrow>
   kept s' k t = copy_of (foldl (\<lambda>b e. case enters k t e of None \<Rightarrow> b | Some x \<Rightarrow> Some x) b es)"
proof (induction es arbitrary: s b)
  case (Cons e es)
  then obtain s1 where s1: "check_step e s = Some s1" "check_run es s1 = Some s'" by (auto split: bind_splits)
  have "num_checks s \<noteq> 0" using Cons.prems(1,2) by (rule num_checks_down_run)
  then have "kept s1 k t = copy_of (case enters k t e of None \<Rightarrow> b | Some x \<Rightarrow> Some x)"
    using step_kept[OF s1(1)] Cons.prems(3) by (simp split: option.splits)
  with Cons.IH[OF s1(2) Cons.prems(2)] show ?case by simp
qed simp

text \<open>What silence about clause 6.7 means for a transaction \<open>x\<close> that was \<open>x0\<close> when it entered.\<close>

definition contents :: "nat \<Rightarrow> buffer option \<Rightarrow> (nat \<times> byte list) option" where
  "contents n b = map_option (\<lambda>(p, f). (p, map f [0..<n])) b"

definition unmodified :: "checked_tx \<Rightarrow> checked_tx \<Rightarrow> bool" where
  "unmodified x0 x \<longleftrightarrow>
     tx_command x = tx_command x0 \<and> tx_length x = tx_length x0 \<and> tx_width x = tx_width x0 \<and> tx_be_length x = tx_be_length x0 \<and>
     map_option fst (tx_data x) = map_option fst (tx_data x0) \<and>
     (tx_command x = TLM_WRITE_COMMAND \<longrightarrow> contents (unat (tx_length x0)) (tx_data x) = contents (unat (tx_length x0)) (tx_data x0)) \<and>
     contents (unat (tx_be_length x0)) (tx_be x) = contents (unat (tx_be_length x0)) (tx_be x0)"

lemma differing_none:
  assumes "differing n b c = Some rs" and "Error Clause_6_7 \<notin> set rs" and "map_option fst b = map_option fst c"
  shows "contents n b = contents n c"
proof (cases "n = 0")
  case True
  then show ?thesis using assms(3) by (cases b; cases c) (auto simp: contents_def)
next
  case False
  then obtain p f g where "b = Some (p, f)" "c = Some (p, g)"
      "rs = concat (map (\<lambda>i. if f i \<noteq> g i then [Error Clause_6_7] else []) [0..<n])"
    using assms(1,3) by (cases b; cases c) (auto simp: differing_def)
  then show ?thesis using assms(2) by (auto simp: contents_def split: if_splits)
qed

lemma modifications_none:
  assumes "modifications st x0 copy x = Some rs" and "Error Clause_6_7 \<notin> set rs"
    and "st_data_ptr st = map_option fst (tx_data x0)" and "st_be_ptr st = map_option fst (tx_be x0)"
  shows "unmodified x0 x"
proof -
  obtain d e f where
    d: "(if tx_command x = TLM_WRITE_COMMAND then differing (unat (tx_length x0)) (tx_data x) (tx_data x0) else Some []) = Some d"
      "(if tx_be x \<noteq> None then differing (unat (tx_be_length x0)) (tx_be x) (tx_be x0) else Some []) = Some e"
    and rs: "rs = differs (tx_command x \<noteq> tx_command x0) @ differs (map_option fst (tx_data x) \<noteq> st_data_ptr st) @
       differs (tx_length x \<noteq> tx_length x0) @ d @
       differs (map_option fst (tx_be x) \<noteq> st_be_ptr st) @ differs (tx_be_length x \<noteq> tx_be_length x0) @ e @
       differs (tx_width x \<noteq> tx_width x0) @ manager_reports st x0 x @ f"
    using assms(1) by (rule modifications_parts)
  have de: "set d \<subseteq> set rs" "set e \<subseteq> set rs" unfolding rs by auto
  have off: "\<not> b" if "set (differs b) \<subseteq> set rs" for b using differs_off[OF assms(2) that] .
  have sub: "set (differs (tx_command x \<noteq> tx_command x0)) \<subseteq> set rs"
      "set (differs (map_option fst (tx_data x) \<noteq> st_data_ptr st)) \<subseteq> set rs"
      "set (differs (tx_length x \<noteq> tx_length x0)) \<subseteq> set rs"
      "set (differs (map_option fst (tx_be x) \<noteq> st_be_ptr st)) \<subseteq> set rs"
      "set (differs (tx_be_length x \<noteq> tx_be_length x0)) \<subseteq> set rs" "set (differs (tx_width x \<noteq> tx_width x0)) \<subseteq> set rs"
    unfolding rs set_append by blast+
  note eq = off[OF sub(1)] off[OF sub(2), unfolded assms(3)] off[OF sub(3)] off[OF sub(4), unfolded assms(4)] off[OF sub(5)]
    off[OF sub(6)]
  have "contents (unat (tx_be_length x0)) (tx_be x) = contents (unat (tx_be_length x0)) (tx_be x0)"
  proof (cases "tx_be x = None")
    case True
    with eq(4) show ?thesis by (cases "tx_be x0") (auto simp: contents_def)
  next
    case False
    with d(2) have "differing (unat (tx_be_length x0)) (tx_be x) (tx_be x0) = Some e" by simp
    then show ?thesis by (rule differing_none) (use de(2) assms(2) eq(4) in blast)+
  qed
  moreover have "contents (unat (tx_length x0)) (tx_data x) = contents (unat (tx_length x0)) (tx_data x0)"
    if "tx_command x = TLM_WRITE_COMMAND"
  proof -
    have "differing (unat (tx_length x0)) (tx_data x) (tx_data x0) = Some d" using d(1) that by simp
    then show ?thesis by (rule differing_none) (use de(1) assms(2) eq(2) in blast)+
  qed
  ultimately show ?thesis using eq unfolding unmodified_def by blast
qed

text \<open>C17: Whenever a call returns through a checker and clause 6.7 has not been reported, the transaction has entered
  this hop before and its command, data pointer, length, streaming width, byte enables and, for a write, its data are what
  they were then.\<close>

theorem transaction_unmodified:
  assumes "check_run (es @ [e]) new_checkers = Some s" and "num_checks s \<noteq> 0" and "\<not> said {Clause_6_7} s"
    and "returns e = Some (k, t, x)"
  shows "\<exists>x0. entered k t es = Some x0 \<and> unmodified x0 x"
proof -
  have append: "check_run (es @ [e]) s0 = check_run es s0 \<bind> check_step e" for s0
  proof (induction es arbitrary: s0)
    case Nil
    then show ?case by (cases "check_step e s0") simp_all
  next
    case (Cons f es)
    then show ?case by (cases "check_step f s0") simp_all
  qed
  obtain s0 where s0: "check_run es new_checkers = Some s0" "check_step e s0 = Some s"
    using assms(1) by (auto simp: append split: bind_splits)
  have n: "num_checks s0 \<noteq> 0" using num_checks_down[OF s0(2) assms(2)] .
  obtain s1 s2 where c: "check_trans_not_modified k t x s1 = Some s2" "kept s1 = kept s0" "reports s = reports s2"
    using return_compares[OF s0(2) assms(4) n] by blast
  have "kept s1 k t = copy_of (entered k t es)"
    using run_kept[OF s0(1) n, of k t None] c(2)
    by (simp add: entered_def kept_def copy_of_def new_checkers_def new_tx_state_def)
  moreover obtain x0 rs where m: "st_gp (m_map s1 k t) = Some x0" "s2 = s1\<lparr>reports := reports s1 @ rs\<rparr>"
      "modifications (m_map s1 k t) x0 (sp_resp_data (shared_map s1 t)) x = Some rs"
    using c(1) by (auto simp: check_trans_not_modified_def split: option.splits)
  ultimately have "entered k t es = Some x0" "st_data_ptr (m_map s1 k t) = map_option fst (tx_data x0)"
      "st_be_ptr (m_map s1 k t) = map_option fst (tx_be x0)"
    by (auto simp: kept_def copy_of_def split: option.splits)
  moreover have "Error Clause_6_7 \<notin> set rs" using assms(3) c(3) m(2) by (auto simp: said_def)
  ultimately show ?thesis using modifications_none[OF m(3)] by blast
qed

lemma transaction_unmodified_witness:
  "\<exists>x0. entered 0 1 (butlast four_phases) = Some x0 \<and> unmodified x0 (plain_tx\<lparr>tx_response := TLM_OK_RESPONSE\<rparr>)"
proof -
  obtain s where s: "check_run four_phases new_checkers = Some s" "num_checks s = 99999" "reports s = []"
    using run_endsD[OF four_phases_run] by blast
  have "check_run (butlast four_phases @ [last four_phases]) new_checkers = Some s" "num_checks s \<noteq> 0" "\<not> said {Clause_6_7} s"
    using s by (simp_all add: four_phases_def said_def)
  moreover have "returns (last four_phases) = Some (0, 1, plain_tx\<lparr>tx_response := TLM_OK_RESPONSE\<rparr>)"
    by (simp add: four_phases_def)
  ultimately show ?thesis by (rule transaction_unmodified)
qed

section \<open>Time annotations\<close>

text \<open>The annotated times of a transaction on a hop since it last entered.\<close>

fun stamp :: "nat \<Rightarrow> nat \<Rightarrow> check_event \<Rightarrow> sc_time list \<Rightarrow> sc_time list" where
  "stamp k t (Fw_Call k' t' x p tm) l = (if k' = k \<and> t' = t then if p = Phase BEGIN_REQ then [tm] else l @ [tm] else l)"
| "stamp k t (Fw_Return k' t' x p tm st) l = (if k' = k \<and> t' = t \<and> st = TLM_UPDATED then l @ [tm] else l)"
| "stamp k t (Bw_Call k' t' x p tm) l = (if k' = k \<and> t' = t then l @ [tm] else l)"
| "stamp k t (Bw_Return k' t' x p tm st) l = (if k' = k \<and> t' = t \<and> st = TLM_UPDATED then l @ [tm] else l)"
| "stamp k t (B_Call k' t' x mp) l = (if k' = k \<and> t' = t then [] else l)"
| "stamp k t _ l = l"

definition annotated :: "nat \<Rightarrow> nat \<Rightarrow> check_event list \<Rightarrow> sc_time list" where
  "annotated k t es = foldl (\<lambda>l e. stamp k t e l) [] es"

definition latest :: "sc_time list \<Rightarrow> sc_time" where
  "latest l = (if l = [] then 0 else last l)"

lemma latest_simps [simp]: "latest [] = 0" "latest (l @ [tm]) = tm"
  by (simp_all add: latest_def)

lemma sorted_snoc: "sorted l \<Longrightarrow> latest l \<le> tm \<Longrightarrow> sorted (l @ [tm])"
  by (cases l rule: rev_cases) (auto simp: sorted_append intro: order_trans)

text \<open>The checker keeps the latest time and reports a decrease of it.\<close>

definition timed :: "nat \<Rightarrow> nat \<Rightarrow> sc_time \<Rightarrow> checkers \<Rightarrow> checkers \<Rightarrow> bool" where
  "timed k t tm s s' \<longleftrightarrow>
     (\<forall>k' t'. st_time (m_map s' k' t') = (if k' = k \<and> t' = t then tm else st_time (m_map s k' t'))) \<and>
     (\<not> said {Clause_7_2_5_e} s' \<longrightarrow> \<not> said {Clause_7_2_5_e} s \<and> st_time (m_map s k t) \<le> tm)"

definition untimed :: "checkers \<Rightarrow> checkers \<Rightarrow> bool" where
  "untimed s s' \<longleftrightarrow> (\<forall>k t. st_time (m_map s' k t) = st_time (m_map s k t)) \<and>
     (\<not> said {Clause_7_2_5_e} s' \<longrightarrow> \<not> said {Clause_7_2_5_e} s)"

lemma response_path_untimed: "check_response_path k t x s = Some s' \<Longrightarrow> m_map s' = m_map s \<and>
    said {Clause_7_2_5_e} s' = said {Clause_7_2_5_e} s"
  by (simp add: response_path_frame)

lemma not_modified_untimed:
  assumes "check_trans_not_modified k t x s = Some s'"
  shows "m_map s' = m_map s \<and> said {Clause_7_2_5_e} s' = said {Clause_7_2_5_e} s"
proof -
  have "said {Clause_7_2_5_e} s' = said {Clause_7_2_5_e} s"
    by (rule not_modified_frame(6)[OF assms]) (simp add: attribute_clauses_def)
  then show ?thesis by (simp add: not_modified_frame[OF assms])
qed

lemma initial_state_time: "said {Clause_7_2_5_e} (check_initial_state k t x s) = said {Clause_7_2_5_e} s"
  by (rule initial_state_said) (simp add: attribute_clauses_def)

lemma response_timed:
  assumes "nb_transport_response_checks k t x p tm s = Some s'"
  shows "timed k t tm s s'"
proof (cases p)
  case (Phase q)
  with assms show ?thesis
    by (cases q) (auto simp: timed_def nb_transport_response_checks_def Let_def split: bind_splits dest!: response_path_untimed)
qed (use assms in \<open>auto simp: timed_def nb_transport_response_checks_def Let_def\<close>)

lemma fw_pre_timed:
  "p \<noteq> Phase BEGIN_REQ \<Longrightarrow> timed k t tm s (nb_transport_fw_pre_checks k t x p tm s)"
proof (cases p)
  case (Phase q)
  assume "p \<noteq> Phase BEGIN_REQ"
  with Phase show ?thesis by (cases q) (auto simp: timed_def nb_transport_fw_pre_checks_def Let_def)
qed (auto simp: timed_def nb_transport_fw_pre_checks_def Let_def)

lemma fw_pre_starts:
  "st_time (m_map (nb_transport_fw_pre_checks k t x (Phase BEGIN_REQ) tm s) k' t') =
     (if k' = k \<and> t' = t then tm else st_time (m_map s k' t')) \<and>
   said {Clause_7_2_5_e} (nb_transport_fw_pre_checks k t x (Phase BEGIN_REQ) tm s) = said {Clause_7_2_5_e} s"
  by (auto simp: nb_transport_fw_pre_checks_def Let_def initial_state_time)

lemma fw_post_timed:
  assumes "nb_transport_fw_post_checks k t x p0 p tm st s = Some s'"
  shows "if st = TLM_UPDATED then timed k t tm s s' else untimed s s'"
proof (cases st)
  case TLM_UPDATED
  then obtain s1 where "nb_transport_response_checks k t x p tm s = Some s1" "check_trans_not_modified k t x s1 = Some s'"
    using assms by (auto simp: nb_transport_fw_post_checks_def split: bind_splits)
  then show ?thesis using response_timed not_modified_untimed TLM_UPDATED by (fastforce simp: timed_def)
qed (use assms in \<open>auto simp: nb_transport_fw_post_checks_def untimed_def split: bind_splits if_splits
       dest!: response_path_untimed not_modified_untimed\<close>)

lemma bw_post_timed:
  assumes "nb_transport_bw_post_checks k t x p tm st s = Some s'"
  shows "if st = TLM_UPDATED then timed k t tm s s' else untimed s s'"
proof (cases st)
  case TLM_UPDATED
  show ?thesis
  proof (cases p)
    case (Phase q)
    then show ?thesis using assms TLM_UPDATED
      by (cases q) (auto simp: nb_transport_bw_post_checks_def timed_def Let_def dest!: not_modified_untimed)
  qed (use assms TLM_UPDATED in \<open>auto simp: nb_transport_bw_post_checks_def timed_def Let_def dest!: not_modified_untimed\<close>)
qed (use assms in \<open>auto simp: nb_transport_bw_post_checks_def untimed_def dest!: not_modified_untimed\<close>)

definition follows :: "nat \<Rightarrow> nat \<Rightarrow> sc_time list \<Rightarrow> sc_time list \<Rightarrow> checkers \<Rightarrow> checkers \<Rightarrow> bool" where
  "follows k t l l' s s' \<longleftrightarrow> (st_time (m_map s k t) = latest l \<longrightarrow> st_time (m_map s' k t) = latest l' \<and>
     (\<not> said {Clause_7_2_5_e} s' \<longrightarrow> \<not> said {Clause_7_2_5_e} s \<and> (sorted l \<longrightarrow> sorted l')))"

lemma timed_follows: "timed k' t' tm s s' \<Longrightarrow> follows k t l (if k' = k \<and> t' = t then l @ [tm] else l) s s'"
  by (auto simp: timed_def follows_def intro: sorted_snoc)

lemma untimed_follows: "untimed s s' \<Longrightarrow> follows k t l l s s'"
  by (simp add: untimed_def follows_def)

lemma off_hop_follows:
  assumes "check_step e s = Some s'" and "hop e = None" and "num_checks s \<noteq> 0"
  shows "follows k t l (stamp k t e l) s s'"
proof (cases e)
  case (B_Call k' t' x mp)
  then show ?thesis using assms by (auto simp: b_transport_pre_checks_def Let_def initial_state_time follows_def)
next
  case (B_Return k' t' x)
  obtain s1 s2 where s: "check_response_path k' t' x s = Some s1" "check_trans_not_modified k' t' x s1 = Some s2"
      "s' = set_tx k' t' (\<lambda>st. st\<lparr>st_b_call := st_b_call st - 1\<rparr>) s2"
    using assms(1,3) B_Return by (auto simp: b_transport_post_checks_def split: bind_splits)
  then show ?thesis using response_path_untimed[OF s(1)] not_modified_untimed[OF s(2)] B_Return
    by (auto simp: follows_def)
qed (use assms in \<open>auto simp: get_direct_mem_ptr_pre_checks_def transport_dbg_pre_checks_def transport_dbg_post_checks_def
    Let_def follows_def\<close>)

lemma step_follows:
  assumes "check_step e s = Some s'" and "num_checks s \<noteq> 0"
  shows "follows k t l (stamp k t e l) s s'"
proof (cases e)
  case (Fw_Call k' t' x p tm)
  then have s': "s' = nb_transport_fw_pre_checks k' t' x p tm s" using assms by simp
  show ?thesis
  proof (cases "p = Phase BEGIN_REQ")
    case True
    then show ?thesis using fw_pre_starts[of k' t' x tm s] unfolding s' Fw_Call
      by (auto simp: follows_def latest_def)
  next
    case False
    from timed_follows[OF fw_pre_timed[OF False, of k' t' tm s x], of k t l] show ?thesis
      unfolding s' Fw_Call using False by (auto split: if_splits)
  qed
next
  case (Fw_Return k' t' x p tm st)
  then have "nb_transport_fw_post_checks k' t' x p p tm st s = Some s'" using assms by simp
  from fw_post_timed[OF this] show ?thesis
    using timed_follows[of k' t' tm s s' k t l] untimed_follows[of s s' k t l] Fw_Return by (auto split: if_splits)
next
  case (Bw_Call k' t' x p tm)
  then have "nb_transport_bw_pre_checks k' t' x p tm s = Some s'" using assms by simp
  then have "timed k' t' tm s s'"
    using response_timed unfolding nb_transport_bw_pre_checks_def Let_def by (fastforce simp: timed_def)
  from timed_follows[OF this] show ?thesis by (simp add: Bw_Call)
next
  case (Bw_Return k' t' x p tm st)
  then have "nb_transport_bw_post_checks k' t' x p tm st s = Some s'" using assms by simp
  from bw_post_timed[OF this] show ?thesis
    using timed_follows[of k' t' tm s s' k t l] untimed_follows[of s s' k t l] Bw_Return by (auto split: if_splits)
qed (use off_hop_follows[OF assms(1) _ assms(2)] in simp_all)

lemma run_follows:
  "check_run es s = Some s' \<Longrightarrow> num_checks s' \<noteq> 0 \<Longrightarrow> follows k t l (foldl (\<lambda>l e. stamp k t e l) l es) s s'"
proof (induction es arbitrary: s l)
  case (Cons e es)
  then obtain s1 where s1: "check_step e s = Some s1" "check_run es s1 = Some s'" by (auto split: bind_splits)
  have "num_checks s \<noteq> 0" using Cons.prems by (rule num_checks_down_run)
  from step_follows[OF s1(1) this, of k t l] Cons.IH[OF s1(2) Cons.prems(2), of "stamp k t e l"]
  show ?case by (simp add: follows_def)
qed (simp add: follows_def)

text \<open>C34: If the checkers report no decreasing time annotation then, on every hop, the annotated times of a transaction
  since it last entered are in ascending order, and the checker holds the latest of them.\<close>

theorem annotations_ascend:
  assumes "check_run es new_checkers = Some s" and "num_checks s \<noteq> 0" and "\<not> said {Clause_7_2_5_e} s"
  shows "sorted (annotated k t es) \<and> st_time (m_map s k t) = latest (annotated k t es)"
  using run_follows[OF assms(1,2), of k t "[]"] assms(3)
  by (simp add: follows_def annotated_def new_checkers_def new_tx_state_def)

lemma annotations_ascend_witness:
  "annotated 0 1 four_phases = [10, 20, 30, 40] \<and> sorted (annotated 0 1 four_phases)"
proof -
  obtain s where s: "check_run four_phases new_checkers = Some s" "num_checks s = 99999" "reports s = []"
    using run_endsD[OF four_phases_run] by blast
  have "num_checks s \<noteq> 0" "\<not> said {Clause_7_2_5_e} s" using s by (simp_all add: said_def)
  from annotations_ascend[OF s(1) this] show ?thesis by (simp add: four_phases_def annotated_def)
qed

end
