(* ===== verification/Spec2Isabelle.thy ===== *)
theory Spec2Isabelle
  imports Main_Program Tutorial Moesi_Concurrent Moesi_Coherence Bus_Arbitration Memory_Controller Lock_System Snooping_Coherence At_System_Rules Checker_Attributes
begin

text \<open>
  This is a verification library for the SystemC programs of the repository: the MOESI cache simulator of
  \<^verbatim>\<open>src/src/assignment_1\<close> with its support library \<^verbatim>\<open>src/lib\<close>, and the TLM-2.0 examples of
  \<^verbatim>\<open>src/locknsnoop\<close> (locking, load-link/store-conditional, snooping and the approximately-timed interconnect with
  its protocol checkers).

  \<^bold>\<open>How code is translated.\<close> A class is a record of its members, an enumeration a datatype, a member function a
  HOL function from the state to the new state. A thread that waits is cut at its waits: the function of a thread runs it
  from one wait to the next, and a step relation or a schedule interleaves the threads. Machine integers are words of their
  width where bits or wrap-around matter. \<open>None\<close> marks an execution that an assertion or a fatal report stops or
  that C++ leaves undefined. Random numbers, the order of the processes and what code outside \<^verbatim>\<open>src/\<close> answers
  are arguments, so the theorems hold for all of them. The kernel of SystemC and the TLM-2.0 library are not modelled: of a
  generic payload there are the attributes the code sets and reads, of an event its flag, of a socket the call behind it.

  \<^bold>\<open>Shared material.\<close> \<^verbatim>\<open>Prelude\<close> (machine types, C remainder, big-endian words, counting and folds),
  \<^verbatim>\<open>Tlm_Payload\<close> (transactions, phases, the type of a transport call), \<^verbatim>\<open>Transaction_Heap\<close> (pooled transactions with the
  state of their extensions).

  \<^bold>\<open>Support library\<close> \<^verbatim>\<open>src/lib/psa.cpp\<close>. \<^verbatim>\<open>Trace_Stats\<close>: the counters and the table \<^verbatim>\<open>stats_print\<close> prints.
  \<^verbatim>\<open>Trace_File\<close>: parsing of the arguments and the file, \<^verbatim>\<open>TraceFile::next\<close> and \<^verbatim>\<open>eof\<close>; a written file is read back, the
  processors read their columns independently of each other.

  \<^bold>\<open>Cache simulator\<close> \<^verbatim>\<open>src/src/assignment_1\<close>. \<^verbatim>\<open>Moesi_Types\<close> (\<^verbatim>\<open>utils.h\<close> and the enumerations), \<^verbatim>\<open>Cpu\<close> (\<^verbatim>\<open>CPU.h\<close>),
  \<^verbatim>\<open>Cache_Lines\<close> (address fields, lookup, replacement) and \<^verbatim>\<open>Cache_Execute\<close> (the executing and the snooping thread of
  \<^verbatim>\<open>Cache.h\<close>), \<^verbatim>\<open>Bus\<close> (every method of \<^verbatim>\<open>Bus.h\<close> over its wires and flags), \<^verbatim>\<open>Bus_Arbitration\<close> (all users of the bus
  interleaved: exclusion, priority of responses), \<^verbatim>\<open>Memory_Controller\<close> (\<^verbatim>\<open>Memory.h\<close>: order and time of the answers).
  \<^verbatim>\<open>Cache_Invariant\<close> and \<^verbatim>\<open>Cache_Guarantees\<close> hold what one cache keeps and promises. \<^verbatim>\<open>Moesi_Held\<close>, \<^verbatim>\<open>Moesi_System\<close> and
  \<^verbatim>\<open>Moesi_Coherence\<close> compose processors' caches, bus and memory, state the abstract MOESI protocol and show that
  every completed access refines a step of it and keeps the caches coherent. The coherence theorem is about accesses that
  run one after the other. \<^verbatim>\<open>Moesi_Concurrent\<close> runs all threads together, edge by edge of the clock and in any
  order: it shows that they use the bus as \<^verbatim>\<open>Bus_Arbitration\<close> allows, when the snoopers hear a request, and two ways in
  which overlapping accesses break coherence (invalidations back to back, misses of the same line).
  \<^verbatim>\<open>Main_Program\<close> (\<^verbatim>\<open>assignment1.cpp\<close>) has the arguments, the instances and their bindings, the processors over one trace
  file and the numbers printed at the end. \<^verbatim>\<open>Tutorial\<close> (\<^verbatim>\<open>src/src/tutorial/tutorial.cpp\<close>) is the smaller program it grew
  from: one processor and one memory on a shared bus, cycle by cycle.

  \<^bold>\<open>Transaction pool\<close> \<^verbatim>\<open>src/locknsnoop/common/gp_mm.h\<close>. \<^verbatim>\<open>Gp_Mm\<close>: the two linked lists of nodes refine a stack of free
  transactions (locale \<open>transaction_pool\<close>, interpreted on the linked nodes).

  \<^bold>\<open>Locking\<close> \<^verbatim>\<open>src/locknsnoop/locking_sticky\<close>, \<^verbatim>\<open>locking_auto\<close>, \<^verbatim>\<open>locking_two\<close>. \<^verbatim>\<open>Lock_Protocol\<close> states the rules of the
  lock and of the link table and the locales \<open>lock_gate\<close> and \<open>link_gate\<close> of an interconnect that follows them;
  \<^verbatim>\<open>Lock_Initiator\<close> has the target and what the two threads of the initiators share; \<^verbatim>\<open>Lock_Sticky\<close>, \<^verbatim>\<open>Lock_Auto\<close> and
  \<^verbatim>\<open>Lock_Two\<close> have the extensions, interconnects and threads of the variants and interpret the locales;
  \<^verbatim>\<open>Locking\<close> has the properties: exclusion while locked, success of store-conditionals, and the refinement of the thread
  iterations, equal for the three variants, to abstract rounds. \<^verbatim>\<open>Lock_Top\<close> has the instances and bindings of the three
  \<^verbatim>\<open>lock_example.cpp\<close> and the way of a blocking call through them; \<^verbatim>\<open>Lock_System\<close> runs both threads of the sticky variant
  on the whole system, interleaved in any order.

  \<^bold>\<open>Snooping\<close> \<^verbatim>\<open>src/locknsnoop/snooping_sticky/snooping.cpp\<close>. \<^verbatim>\<open>Snooping\<close> has the memory, interconnect, both
  initiators and the system; \<^verbatim>\<open>Snooping_Dmi\<close> the address map, the invalidation of direct-memory pointers and reads after
  writes; \<^verbatim>\<open>Snooping_Coherence\<close> the coherence of the snooped cache under every interleaving that starts with the snoop
  request, and the order of start in which it fails.

  \<^bold>\<open>Approximately-timed interconnect\<close> \<^verbatim>\<open>src/locknsnoop/common/at_interconnect.h\<close>. \<^verbatim>\<open>At_Interconnect\<close> has its state and
  all handlers and processes; what the modules behind the sockets answer is an input. \<^verbatim>\<open>At_Targets\<close> and
  \<^verbatim>\<open>At_Initiators\<close> have the five types of target and the two types of initiator with their payload event queues, processes
  and callbacks, again against arbitrary peers; \<^verbatim>\<open>At_Target_Rules\<close> shows that the targets never stop, count what is in
  flight and how they reject requests, \<^verbatim>\<open>At_Initiator_Rules\<close> that the threads end and which type keeps the exclusion
  rule. \<^verbatim>\<open>At_Exclusion\<close> states the contract
  of one slot (\<open>slot_ok\<close>) and shows that the request slots of the targets and the response slots of the initiators keep
  it in every run: order of requests, exclusion, and that waiting requests are sent once the target ends the earlier ones.
  \<^verbatim>\<open>At_System\<close> joins any number of type A initiators, the interconnect and type A targets call by call: what one answers is
  computed by the module behind the socket, all share the attributes of the transactions. \<^verbatim>\<open>At_System_Invariant\<close> states what every
  step keeps (each request and response is in one place, the modules agree on those in progress), \<^verbatim>\<open>At_System_Calls\<close> shows it for the
  calls between the modules and \<^verbatim>\<open>At_System_Rules\<close> for the events: nothing stops, nothing blocks, and a weight that every effective
  event lowers bounds a run by 16000 events for each initiator, so all transactions finish.

  \<^bold>\<open>Protocol checkers\<close> \<^verbatim>\<open>src/locknsnoop/common/tlm2_base_protocol_checker.h\<close>. \<^verbatim>\<open>Protocol_Checker\<close> has the state of all
  checkers and every check; \<^verbatim>\<open>Checker_Protocol\<close> the frame rules and the base protocol of one transaction on one hop
  (\<open>next_phase\<close>); \<^verbatim>\<open>Checker_Rules\<close> and \<^verbatim>\<open>Checker_Attributes\<close> what the silence of the checkers proves about a run:
  phases, exclusion, paths, attributes and times, and the exclusion violation they miss.

  \<^bold>\<open>Bounds.\<close> Loops over lines, nodes, tables and buffers are structural recursions or folds, so they need no fuel.
  The model has one abstraction of time per component: cycles in the cache simulator, picoseconds in the TLM examples.
  The checkers are only active while \<^verbatim>\<open>num_checks\<close> is positive; the theorems about them say so.

  \<^bold>\<open>Not modelled.\<close> The kernel of SystemC beyond the order of wake-ups, and the TLM-2.0 library; log files, message
  texts and debug output (\<^verbatim>\<open>dump_extensions.h\<close>, \<^verbatim>\<open>common_header.h\<close>); the measurement of host time; the second
  tutorial \<^verbatim>\<open>src/src/mytutor\<close>, whose main program leaves all ports of its memory unbound and cannot start; the quantum
  keeper, which only counts local time; calls that re-enter the interconnect before they return, which the handlers would
  see as another event. Non-blocking calls are modelled in every component, but
  along their whole way only for type A modules (\<^verbatim>\<open>At_System\<close>); for the others the contracts of the components stand next to each other.
\<close>

end
